(* ===== verification/Slip_Prelude.thy ===== *)
theory Slip_Prelude
  imports Complex_Main "HOL-Library.Word" "HOL-Library.AList"
begin

text \<open>
  Shared vocabulary of the development: the machine arithmetic the Rust sources use
  (saturating, wrapping and checked operations on \<open>u64\<close>/\<open>u32\<close>, written out on
  \<^typ>\<open>nat\<close>), the decimal rendering behind \<open>format!\<close>, results as sums, and
  generic lemmas on lists of consecutive numbers and on association lists.
\<close>

named_theorems u_arith \<open>definitions of the machine-integer operations\<close>

type_synonym bytes = "8 word list"

section \<open>Machine integers\<close>

text \<open>
  An unsigned integer of the source is a \<^typ>\<open>nat\<close>; each place where the source
  saturates, wraps or converts is one of the operations below. \<open>saturating_sub\<close> is
  the truncated subtraction of \<^typ>\<open>nat\<close> itself.
\<close>

definition u64_max :: nat where "u64_max = 18446744073709551615"
definition u32_max :: nat where "u32_max = 4294967295"

definition saturating_add64 :: "nat \<Rightarrow> nat \<Rightarrow> nat" where
  [u_arith]: "saturating_add64 a b = min u64_max (a + b)"

definition saturating_mul64 :: "nat \<Rightarrow> nat \<Rightarrow> nat" where
  [u_arith]: "saturating_mul64 a b = min u64_max (a * b)"

definition wrapping_add64 :: "nat \<Rightarrow> nat \<Rightarrow> nat" where
  [u_arith]: "wrapping_add64 a b = (a + b) mod (u64_max + 1)"

definition wrapping_sub64 :: "nat \<Rightarrow> nat \<Rightarrow> nat" where
  "wrapping_sub64 a b = (a + 2 ^ 64 - b mod 2 ^ 64) mod 2 ^ 64"

definition saturating_add32 :: "nat \<Rightarrow> nat \<Rightarrow> nat" where
  [u_arith]: "saturating_add32 a b = min u32_max (a + b)"

definition checked_div :: "nat \<Rightarrow> nat \<Rightarrow> nat option" where
  [u_arith]: "checked_div a b = (if b = 0 then None else Some (a div b))"

text \<open>\<open>u32::try_from(x).unwrap_or(u32::MAX)\<close>.\<close>

definition to_u32_or_max :: "nat \<Rightarrow> nat" where
  [u_arith]: "to_u32_or_max n = (if n \<le> u32_max then n else u32_max)"

definition div_ceil :: "nat \<Rightarrow> nat \<Rightarrow> nat" where
  "div_ceil a b = (if a mod b = 0 then a div b else a div b + 1)"

text \<open>A computation that may panic, or may not have come to its end yet.\<close>

datatype 'a run = Running | Panicked | Returned 'a

lemma u64_max_pos [simp]: "0 < u64_max"
  by (simp add: u64_max_def)

lemma u32_max_pos [simp]: "0 < u32_max"
  by (simp add: u32_max_def)

lemma u32_le_u64 [simp]: "u32_max \<le> u64_max"
  by (simp add: u32_max_def u64_max_def)

lemma to_u32_or_max_le [simp]: "to_u32_or_max n \<le> u32_max" "to_u32_or_max n \<le> n"
  by (auto simp: to_u32_or_max_def)

lemma to_u32_or_max_pos: "0 < n \<Longrightarrow> 0 < to_u32_or_max n"
  by (auto simp: to_u32_or_max_def)

lemma wrapping_add64_small: "a + b \<le> u64_max \<Longrightarrow> wrapping_add64 a b = a + b"
  by (simp add: wrapping_add64_def)

lemma wrapping_sub64_Suc: "Suc n \<le> u64_max \<Longrightarrow> wrapping_sub64 (Suc n) (Suc 0) = n"
  by (simp add: wrapping_sub64_def u64_max_def)

lemma div_ceil_le_iff:
  assumes "0 < b"
  shows "div_ceil a b \<le> k \<longleftrightarrow> a \<le> k * b"
proof (cases "a mod b = 0")
  case True
  then obtain q where "a = b * q" by (metis dvdE mod_0_imp_dvd)
  with assms show ?thesis by (auto simp: div_ceil_def mult.commute)
next
  case False
  have "a div b < k \<longleftrightarrow> a < k * b"
    using assms by (simp add: div_less_iff_less_mult)
  moreover have "a \<noteq> k * b"
    using False by auto
  ultimately show ?thesis
    using False by (auto simp: div_ceil_def)
qed

lemma less_div_ceil_iff: "0 < b \<Longrightarrow> k < div_ceil a b \<longleftrightarrow> k * b < a"
  by (metis div_ceil_le_iff not_le)

lemma div_ceil_pos: "0 < b \<Longrightarrow> 0 < a \<Longrightarrow> 0 < div_ceil a b"
  by (simp add: less_div_ceil_iff)

section \<open>Decimal rendering\<close>

text \<open>\<open>format!("{}", n)\<close> for an unsigned integer.\<close>

definition digit_char :: "nat \<Rightarrow> char" where
  "digit_char d = char_of (48 + d)"

fun nat_str :: "nat \<Rightarrow> string" where
  "nat_str n = (if n < 10 then [digit_char n] else nat_str (n div 10) @ [digit_char (n mod 10)])"

declare nat_str.simps [simp del]

section \<open>Consecutive numbers\<close>

lemma upt_split: "a \<le> b \<Longrightarrow> b \<le> c \<Longrightarrow> [a..<c] = [a..<b] @ [b..<c]"
  using upt_add_eq_append [of a b "c - b"] by simp

text \<open>\<open>consec s xs\<close>: the list is \<open>s, s + 1, s + 2, \<dots>\<close>.\<close>

definition consec :: "nat \<Rightarrow> nat list \<Rightarrow> bool" where
  "consec s xs \<longleftrightarrow> xs = [s..<s + length xs]"

lemma consec_Nil [simp]: "consec s []"
  by (simp add: consec_def)

lemma consec_Cons [simp]: "consec s (x # xs) \<longleftrightarrow> x = s \<and> consec (Suc s) xs"
  by (auto simp: consec_def upt_conv_Cons simp del: upt_Suc)

lemma consec_append [simp]:
  "consec s (xs @ ys) \<longleftrightarrow> consec s xs \<and> consec (s + length xs) ys"
  by (induction xs arbitrary: s) auto

lemma consec_upt [simp]: "consec s [s..<t]"
  by (cases "s \<le> t") (auto simp: consec_def)

lemma consec_eq_upt: "consec s xs \<Longrightarrow> s + length xs = t \<Longrightarrow> xs = [s..<t]"
  by (simp add: consec_def)

lemma consec_nth: "consec s xs \<Longrightarrow> i < length xs \<Longrightarrow> xs ! i = s + i"
  by (metis add_less_cancel_left consec_def nth_upt)

lemma consec_last: "consec s xs \<Longrightarrow> xs \<noteq> [] \<Longrightarrow> last xs = s + length xs - 1"
  by (cases xs rule: rev_cases) auto

lemma consec_distinct: "consec s xs \<Longrightarrow> distinct xs"
  by (metis consec_def distinct_upt)

lemma consec_set: "consec s xs \<Longrightarrow> set xs = {s..<s + length xs}"
  by (metis consec_def set_upt)

section \<open>Sums over lists\<close>

lemma sum_list_append_nat [simp]: "sum_list (map f (xs @ ys)) = sum_list (map f xs) + (sum_list (map f ys) :: nat)"
  by simp

lemma sum_list_remove_nth:
  "i < length xs \<Longrightarrow> sum_list (take i xs @ drop (Suc i) xs) + xs ! i = (sum_list xs :: nat)"
proof -
  assume i: "i < length xs"
  have "sum_list xs = sum_list (take i xs @ xs ! i # drop (Suc i) xs)"
    using i by (simp add: id_take_nth_drop [symmetric])
  then show ?thesis by simp
qed

section \<open>Association lists as ordered maps\<close>

lemma length_delete_less:
  "map_of m k = Some v \<Longrightarrow> length (AList.delete k m) < length m"
proof -
  assume "map_of m k = Some v"
  then have "(k, v) \<in> set m" by (rule map_of_SomeD)
  then show ?thesis
    unfolding AList.delete_eq
    by (metis (mono_tags, lifting) case_prod_conv length_filter_less)
qed

section \<open>Ordered maps\<close>

text \<open>
  A \<open>BTreeMap\<close> is an association list kept in ascending key order, so that its
  iteration order, which some operations depend on, is the list's.
\<close>

fun bt_insert :: "'k::linorder \<Rightarrow> 'v \<Rightarrow> ('k \<times> 'v) list \<Rightarrow> ('k \<times> 'v) list" where
  "bt_insert k v [] = [(k, v)]"
| "bt_insert k v ((k', v') # m) =
     (if k < k' then (k, v) # (k', v') # m
      else if k = k' then (k, v) # m
      else (k', v') # bt_insert k v m)"

definition bt_remove :: "'k::linorder \<Rightarrow> ('k \<times> 'v) list \<Rightarrow> ('k \<times> 'v) list" where
  "bt_remove k m = filter (\<lambda>(k', v). k' \<noteq> k) m"

definition bt_sorted :: "('k::linorder \<times> 'v) list \<Rightarrow> bool" where
  "bt_sorted m \<longleftrightarrow> sorted_wrt (<) (map fst m)"

text \<open>What a client of an ordered map may rely on.\<close>

locale ordered_map =
  fixes invar :: "'m \<Rightarrow> bool" and lookup :: "'m \<Rightarrow> 'k \<Rightarrow> 'v option"
    and insert_at :: "'k \<Rightarrow> 'v \<Rightarrow> 'm \<Rightarrow> 'm" and remove_at :: "'k \<Rightarrow> 'm \<Rightarrow> 'm"
    and size_of :: "'m \<Rightarrow> nat"
  assumes lookup_insert: "invar m \<Longrightarrow> lookup (insert_at k v m) = (lookup m)(k \<mapsto> v)"
    and lookup_remove: "invar m \<Longrightarrow> lookup (remove_at k m) = (lookup m)(k := None)"
    and invar_insert: "invar m \<Longrightarrow> invar (insert_at k v m)"
    and invar_remove: "invar m \<Longrightarrow> invar (remove_at k m)"
    and size_is_card: "invar m \<Longrightarrow> finite (dom (lookup m)) \<and> size_of m = card (dom (lookup m))"
begin

lemma size_insert: "invar m \<Longrightarrow> size_of (insert_at k v m) \<le> Suc (size_of m)"
  using size_is_card [of m] size_is_card [OF invar_insert, of m k v]
  by (simp add: lookup_insert card_insert_le_m1 card_insert_if)

lemma size_remove_member:
  "invar m \<Longrightarrow> lookup m k = Some v \<Longrightarrow> Suc (size_of (remove_at k m)) = size_of m"
  using size_is_card [of m] size_is_card [OF invar_remove, of m k]
  by (auto simp: lookup_remove intro!: card_Suc_Diff1)

end

lemma bt_insert_keys: "set (map fst (bt_insert k v m)) = insert k (set (map fst m))"
  by (induction k v m rule: bt_insert.induct) auto

lemma bt_insert_sorted: "bt_sorted m \<Longrightarrow> bt_sorted (bt_insert k v m)"
proof (induction k v m rule: bt_insert.induct)
  case (2 k v k' v' m)
  show ?case
  proof (cases "k' < k")
    case True
    with 2 have "bt_sorted (bt_insert k v m)" by (auto simp: bt_sorted_def)
    moreover have "\<forall>x \<in> set (map fst (bt_insert k v m)). k' < x"
      using True 2(2) by (auto simp: bt_insert_keys bt_sorted_def simp del: set_map)
    ultimately show ?thesis using True by (auto simp: bt_sorted_def)
  qed (use 2(2) in \<open>auto simp: bt_sorted_def\<close>)
qed (simp add: bt_sorted_def)

lemma map_of_bt_insert:
  "bt_sorted m \<Longrightarrow> map_of (bt_insert k v m) = (map_of m)(k \<mapsto> v)"
  by (induction k v m rule: bt_insert.induct) (auto simp: fun_eq_iff bt_sorted_def)

lemma map_of_bt_remove: "map_of (bt_remove k m) = (map_of m)(k := None)"
  by (induction m) (auto simp: bt_remove_def)

lemma bt_remove_sorted: "bt_sorted m \<Longrightarrow> bt_sorted (bt_remove k m)"
  by (simp add: bt_sorted_def bt_remove_def sorted_wrt_map sorted_wrt_filter)

lemma bt_sorted_distinct: "bt_sorted m \<Longrightarrow> distinct (map fst m)"
  by (simp add: bt_sorted_def strict_sorted_iff)

lemma bt_length_card: "bt_sorted m \<Longrightarrow> length m = card (dom (map_of m))"
  using bt_sorted_distinct [of m] by (metis distinct_card dom_map_of_conv_image_fst length_map set_map)

interpretation bt: ordered_map bt_sorted map_of bt_insert bt_remove length
  by unfold_locales
    (auto simp: map_of_bt_insert map_of_bt_remove bt_insert_sorted bt_remove_sorted bt_length_card
      finite_dom_map_of)

lemma bt_map_of_iff: "bt_sorted m \<Longrightarrow> map_of m k = Some v \<longleftrightarrow> (k, v) \<in> set m"
  using bt_sorted_distinct [of m] by simp

lemma bt_filter_sorted: "bt_sorted m \<Longrightarrow> bt_sorted (filter P m)"
  by (simp add: bt_sorted_def sorted_wrt_map sorted_wrt_filter)

end
