(* ===== verification/Slip_Error.thy ===== *)
theory Slip_Error
  imports Slip_Prelude
begin

text \<open>
  The crate-wide error type (\<open>core/src/error.rs\<close>): its variants, its rendering, and
  the two classifications every retry decision of the engine is made from. Rates
  (\<open>f64\<close> in the source) are exact rationals here.
\<close>

datatype slipstream_error =
    Config string
  | Transport string
  | Discontinuity (at: nat) (detail: string)
  | Wallet string
  | MisbehavingServer
  | Stopped
  | StoppedForWalletChange
  | ScanContinuity nat
  | WireCollapse (measured_mbps: rat) (floor_mbps_of: rat)

text \<open>\<open>{:.2}\<close>: two decimals, ties to even on the exact value (rates are non-negative).\<close>

definition round_half_even :: "rat \<Rightarrow> int" where
  "round_half_even r =
     (let f = \<lfloor>r\<rfloor>; d = r - of_int f in
      if d < 1 / 2 then f else if 1 / 2 < d then f + 1 else if even f then f else f + 1)"

definition fixed2 :: "rat \<Rightarrow> string" where
  "fixed2 r =
     (let n = nat (round_half_even (r * 100)); c = n mod 100 in
      nat_str (n div 100) @ ''.'' @ [digit_char (c div 10), digit_char (c mod 10)])"

fun display_error :: "slipstream_error \<Rightarrow> string" where
  "display_error (Config s) = ''invalid configuration: '' @ s"
| "display_error (Transport s) = ''transport: '' @ s"
| "display_error (Discontinuity h d) =
     ''chain discontinuity at height '' @ nat_str h @ '': '' @ d"
| "display_error (Wallet s) = ''wallet db: '' @ s"
| "display_error MisbehavingServer =
     ''misbehaving server (invalid or out-of-range data in response)''"
| "display_error Stopped = ''engine is stopped''"
| "display_error StoppedForWalletChange = ''sync stopped for a wallet change''"
| "display_error (ScanContinuity h) = ''scan continuity break at height '' @ nat_str h"
| "display_error (WireCollapse m f) =
     ''wire collapse: '' @ fixed2 m @ '' MB/s sustained (floor '' @ fixed2 f @ '')''"

fun is_transient :: "slipstream_error \<Rightarrow> bool" where
  "is_transient (Transport _) = True"
| "is_transient _ = False"

fun is_stop_for_wallet_change :: "slipstream_error \<Rightarrow> bool" where
  "is_stop_for_wallet_change StoppedForWalletChange = True"
| "is_stop_for_wallet_change _ = False"

lemma transient_not_stop [simp]: "is_transient e \<Longrightarrow> \<not> is_stop_for_wallet_change e"
  by (cases e) auto

lemma is_stop_iff [simp]: "is_stop_for_wallet_change e \<longleftrightarrow> e = StoppedForWalletChange"
  by (cases e) auto

lemma is_transient_iff: "is_transient e \<longleftrightarrow> (\<exists>s. e = Transport s)"
  by (cases e) auto

section \<open>Bounded retries\<close>

text \<open>
  The engine retries in several places, always with the same shape: run the operation,
  and on an error either stop with it or run again, the decision depending on the error
  and on the number of the attempt that just failed. \<open>retry_run decide n outcomes\<close>
  runs that loop over the outcomes the operation produces, \<open>n\<close> attempts having failed
  already; it returns the result and the number of attempts it used, or \<open>None\<close> when
  the outcomes run out before it stops.
\<close>

fun retry_run :: "(slipstream_error \<Rightarrow> nat \<Rightarrow> bool) \<Rightarrow> nat \<Rightarrow> (slipstream_error + 'a) list
    \<Rightarrow> ((slipstream_error + 'a) \<times> nat) option" where
  "retry_run decide n [] = None"
| "retry_run decide n (Inr v # os) = Some (Inr v, n + 1)"
| "retry_run decide n (Inl e # os) =
     (if decide e (n + 1) then retry_run decide (n + 1) os else Some (Inl e, n + 1))"

lemma retry_run_prefix:
  assumes "retry_run d n os = Some (r, k)"
  shows "n < k \<and> k - n \<le> length os \<and> os ! (k - n - 1) = r
    \<and> (\<forall>i < k - n - 1. \<exists>e. os ! i = Inl e \<and> d e (n + i + 1))
    \<and> (\<forall>e. r = Inl e \<longrightarrow> \<not> d e k)"
  using assms
proof (induction d n os rule: retry_run.induct)
  case (3 d n e os)
  show ?case
  proof (cases "d e (n + 1)")
    case True
    with 3 have IH: "n + 1 < k \<and> k - (n + 1) \<le> length os \<and> os ! (k - (n + 1) - 1) = r
      \<and> (\<forall>i < k - (n + 1) - 1. \<exists>e. os ! i = Inl e \<and> d e (n + 1 + i + 1))
      \<and> (\<forall>e. r = Inl e \<longrightarrow> \<not> d e k)"
      by simp
    have "\<exists>e'. (Inl e # os) ! i = Inl e' \<and> d e' (n + i + 1)" if "i < k - n - 1" for i
      using IH True that by (cases i) auto
    moreover have "(Inl e # os) ! (k - n - 1) = r"
    proof -
      from IH have "n + 1 < k" by blast
      then have "k - n - 1 = Suc (k - (n + 1) - 1)" by arith
      with IH show ?thesis by simp
    qed
    ultimately show ?thesis using IH by auto
  next
    case False
    with 3 show ?thesis by auto
  qed
qed auto

lemma retry_run_Inr_first: "retry_run d n (Inr v # os) = Some (Inr v, n + 1)"
  by simp

text \<open>
  The contract the retry ladders share: only transient errors are retried, and never
  from attempt number \<open>limit\<close> on.
\<close>

locale retry_ladder =
  fixes decide :: "slipstream_error \<Rightarrow> nat \<Rightarrow> bool" and limit :: nat
  assumes only_transient: "decide e k \<Longrightarrow> is_transient e"
    and bounded: "decide e k \<Longrightarrow> k < limit"
begin

lemma attempts_bounded:
  "retry_run decide n outcomes = Some (r, k) \<Longrightarrow> n < limit \<Longrightarrow> k \<le> limit"
proof (induction outcomes arbitrary: n)
  case (Cons x xs)
  then show ?case
    by (cases x) (auto split: if_splits dest: bounded)
qed simp

lemma terminates:
  "n < limit \<Longrightarrow> limit - n \<le> length outcomes \<Longrightarrow> \<exists>r k. retry_run decide n outcomes = Some (r, k)"
proof (induction outcomes arbitrary: n)
  case (Cons x xs)
  show ?case
  proof (cases x)
    case (Inl e)
    show ?thesis
    proof (cases "decide e (n + 1)")
      case True
      with bounded have "n + 1 < limit" by blast
      with Cons.IH [of "n + 1"] Cons.prems Inl True show ?thesis by simp
    qed (use Inl in simp)
  qed simp
qed simp

lemma non_transient_at_once:
  "\<not> is_transient e \<Longrightarrow> retry_run decide n (Inl e # os) = Some (Inl e, n + 1)"
  by (auto dest: only_transient)

lemma earlier_are_transient:
  assumes "retry_run decide n os = Some (r, k)" and "i < k - n - 1"
  shows "\<exists>e. os ! i = Inl e \<and> is_transient e"
  using retry_run_prefix [OF assms(1)] assms(2) only_transient by blast

end

end
