(* ===== verification/Slip_Blocks.thy ===== *)
theory Slip_Blocks
  imports Slip_Error
begin

text \<open>
  Compact blocks, the hash-chain continuity check (\<open>core/src/verify.rs\<close>), the
  in-memory chunk (\<open>core/src/chunk.rs\<close>) and the block source that serves one chunk to
  the scanner (\<open>core/src/block_source.rs\<close>). Of the protobuf messages only the fields
  the engine reads are kept; the wire size of a block (\<open>prost::Message::encoded_len\<close>)
  is a parameter \<open>enc\<close> of every definition that uses it.
\<close>

section \<open>Blocks\<close>

record compact_tx =
  tx_outputs :: "bytes list"
  tx_actions :: "bytes list"

record compact_block =
  height :: nat
  hash :: bytes
  prev_hash :: bytes
  vtx :: "compact_tx list"

section \<open>Continuity\<close>

record continuity =
  last_hash :: "bytes option"
  last_height :: "nat option"

definition continuity_default :: continuity where
  "continuity_default = \<lparr>last_hash = None, last_height = None\<rparr>"

text \<open>
  \<open>verify_blocks\<close> updates its receiver block by block, so on an error the continuity
  stays at the last block accepted; the model returns both.
\<close>

fun verify_blocks :: "continuity \<Rightarrow> compact_block list \<Rightarrow> continuity \<times> (slipstream_error + unit)" where
  "verify_blocks c [] = (c, Inr ())"
| "verify_blocks c (b # bs) =
     (if u32_max < height b then (c, Inl MisbehavingServer)
      else case last_height c of
        Some h \<Rightarrow>
          if height b \<noteq> h + 1
          then (c, Inl (Discontinuity (height b)
                 (''expected height '' @ nat_str (h + 1) @ '', got '' @ nat_str (height b))))
          else (case last_hash c of
            Some prev \<Rightarrow>
              if prev_hash b \<noteq> [] \<and> prev_hash b \<noteq> prev
              then (c, Inl (Discontinuity (height b) ''prev-hash mismatch''))
              else verify_blocks \<lparr>last_hash = Some (hash b), last_height = Some (height b)\<rparr> bs
          | None \<Rightarrow> verify_blocks \<lparr>last_hash = Some (hash b), last_height = Some (height b)\<rparr> bs)
      | None \<Rightarrow> (case last_hash c of
            Some prev \<Rightarrow>
              if prev_hash b \<noteq> [] \<and> prev_hash b \<noteq> prev
              then (c, Inl (Discontinuity (height b) ''prev-hash mismatch''))
              else verify_blocks \<lparr>last_hash = Some (hash b), last_height = Some (height b)\<rparr> bs
          | None \<Rightarrow> verify_blocks \<lparr>last_hash = Some (hash b), last_height = Some (height b)\<rparr> bs))"

text \<open>
  What the check promises, without the errors: a block may follow a continuity, and a
  run of blocks is a chain from it.
\<close>

definition follows :: "continuity \<Rightarrow> compact_block \<Rightarrow> bool" where
  "follows c b \<longleftrightarrow> height b \<le> u32_max
     \<and> (\<forall>h. last_height c = Some h \<longrightarrow> height b = h + 1)
     \<and> (\<forall>p. last_hash c = Some p \<longrightarrow> prev_hash b = [] \<or> prev_hash b = p)"

definition cont_of :: "compact_block \<Rightarrow> continuity" where
  "cont_of b = \<lparr>last_hash = Some (hash b), last_height = Some (height b)\<rparr>"

fun linked :: "continuity \<Rightarrow> compact_block list \<Rightarrow> bool" where
  "linked c [] = True"
| "linked c (b # bs) = (follows c b \<and> linked (cont_of b) bs)"

definition cont_after :: "continuity \<Rightarrow> compact_block list \<Rightarrow> continuity" where
  "cont_after c bs = (if bs = [] then c else cont_of (last bs))"

lemma verify_blocks_Cons_ok:
  "follows c b \<Longrightarrow> verify_blocks c (b # bs) = verify_blocks (cont_of b) bs"
  by (auto simp: follows_def cont_of_def split: option.splits)

lemma verify_blocks_Cons_bad:
  "\<not> follows c b \<Longrightarrow> \<exists>e. verify_blocks c (b # bs) = (c, Inl e)
     \<and> (e = MisbehavingServer \<or> (\<exists>d. e = Discontinuity (height b) d))"
  by (auto simp: follows_def split: option.splits)

declare verify_blocks.simps(2) [simp del]

lemma linked_append: "linked c (xs @ ys) \<longleftrightarrow> linked c xs \<and> linked (cont_after c xs) ys"
  by (induction xs arbitrary: c) (auto simp: cont_after_def)

lemma verify_blocks_linked:
  "linked c bs \<Longrightarrow> verify_blocks c bs = (cont_after c bs, Inr ())"
  by (induction bs arbitrary: c) (auto simp: verify_blocks_Cons_ok cont_after_def)

lemma verify_blocks_Inr:
  "verify_blocks c bs = (c', Inr u) \<longleftrightarrow> linked c bs \<and> c' = cont_after c bs"
proof (induction bs arbitrary: c)
  case (Cons b bs)
  show ?case
  proof (cases "follows c b")
    case True
    with Cons show ?thesis by (auto simp: verify_blocks_Cons_ok cont_after_def)
  next
    case False
    then obtain e where "verify_blocks c (b # bs) = (c, Inl e)"
      using verify_blocks_Cons_bad by blast
    with False show ?thesis by simp
  qed
qed (auto simp: cont_after_def)

text \<open>On an error the blocks before the offending one form a chain, and the continuity ends there.\<close>

lemma verify_blocks_Inl:
  assumes "verify_blocks c bs = (c', Inl e)"
  shows "\<exists>good b rest. bs = good @ b # rest \<and> linked c good \<and> c' = cont_after c good
    \<and> \<not> follows c' b \<and> (e = MisbehavingServer \<or> (\<exists>d. e = Discontinuity (height b) d))"
  using assms
proof (induction bs arbitrary: c)
  case (Cons b bs)
  show ?case
  proof (cases "follows c b")
    case True
    with Cons.prems have "verify_blocks (cont_of b) bs = (c', Inl e)"
      by (simp add: verify_blocks_Cons_ok)
    from Cons.IH [OF this] obtain good x rest where
      "bs = good @ x # rest" "linked (cont_of b) good" "c' = cont_after (cont_of b) good"
      "\<not> follows c' x" "e = MisbehavingServer \<or> (\<exists>d. e = Discontinuity (height x) d)"
      by blast
    with True show ?thesis
      by (intro exI [of _ "b # good"] exI [of _ x] exI [of _ rest])
        (auto simp: cont_after_def)
  next
    case False
    with verify_blocks_Cons_bad [OF False, of bs] Cons.prems show ?thesis
      by (intro exI [of _ "[]"] exI [of _ b] exI [of _ bs]) (auto simp: cont_after_def)
  qed
qed simp

lemma verify_blocks_append:
  "verify_blocks c (xs @ ys) =
     (case verify_blocks c xs of (c', Inl e) \<Rightarrow> (c', Inl e) | (c', Inr _) \<Rightarrow> verify_blocks c' ys)"
proof (induction xs arbitrary: c)
  case (Cons x xs)
  show ?case
  proof (cases "follows c x")
    case True
    then show ?thesis using Cons by (simp add: verify_blocks_Cons_ok)
  next
    case False
    obtain e where e: "\<And>zs. verify_blocks c (x # zs) = (c, Inl e)"
    proof -
      obtain e where "verify_blocks c [x] = (c, Inl e)"
        using verify_blocks_Cons_bad [OF False] by blast
      moreover have "verify_blocks c (x # zs) = verify_blocks c [x]" for zs
        using False by (auto simp: verify_blocks.simps follows_def split: option.splits)
      ultimately show ?thesis using that by metis
    qed
    then show ?thesis by simp
  qed
qed simp

lemma linked_consec:
  "linked c bs \<Longrightarrow> last_height c = Some h \<Longrightarrow> consec (Suc h) (map height bs)"
proof (induction bs arbitrary: c h)
  case (Cons b bs)
  then have "height b = Suc h" "linked (cont_of b) bs"
    by (auto simp: follows_def)
  with Cons.IH [of "cont_of b" "height b"] show ?case
    by (simp add: cont_of_def)
qed simp

lemma linked_heights:
  assumes "linked c bs"
  shows "map height bs = [] \<or> consec (height (hd bs)) (map height bs)"
proof (cases bs)
  case (Cons b xs)
  with assms have "linked (cont_of b) xs" by simp
  then have "consec (Suc (height b)) (map height xs)"
    by (rule linked_consec) (simp add: cont_of_def)
  with Cons show ?thesis by simp
qed simp

lemma linked_mono_default: "linked c bs \<Longrightarrow> linked continuity_default bs"
  by (cases bs) (auto simp: follows_def continuity_default_def)

lemma linked_u32: "linked c bs \<Longrightarrow> b \<in> set bs \<Longrightarrow> height b \<le> u32_max"
  by (induction bs arbitrary: c) (auto simp: follows_def)

end
