(* ===== verification/Slip_Splitter.thy ===== *)
theory Slip_Splitter
  imports Slip_Blocks
begin

text \<open>
  The byte-budgeted splitter of the fetch workers (\<open>src/core/src/fetch.rs\<close>, \<open>ChunkSplitter\<close>),
  the interface a splitter offers its caller, and that interface's proof for it.  \<open>enc\<close> is the wire
  size of a block (\<open>prost\<close>'s \<open>encoded_len\<close>).
\<close>

record chunk_splitter =
  sp_split_bytes :: nat
  acc :: "compact_block list"
  acc_bytes :: nat

definition splitter_new :: "nat \<Rightarrow> chunk_splitter" where
  "splitter_new n = \<lparr>sp_split_bytes = n, acc = [], acc_bytes = 0\<rparr>"

definition push :: "(compact_block \<Rightarrow> nat) \<Rightarrow> chunk_splitter \<Rightarrow> compact_block \<Rightarrow>
    chunk_splitter \<times> (compact_block list \<times> nat) option" where
  "push enc sp b =
     (let block_bytes = enc b;
          (sp1, completed) =
            (if acc sp \<noteq> [] \<and> acc_bytes sp + block_bytes > sp_split_bytes sp
             then (sp\<lparr>acc := [], acc_bytes := 0\<rparr>, Some (acc sp, acc_bytes sp))
             else (sp, None))
      in (sp1\<lparr>acc := acc sp1 @ [b], acc_bytes := acc_bytes sp1 + block_bytes\<rparr>, completed))"

definition finish :: "chunk_splitter \<Rightarrow> (compact_block list \<times> nat) option" where
  "finish sp = (if acc sp = [] then None else Some (acc sp, acc_bytes sp))"

definition take_partial :: "chunk_splitter \<Rightarrow> chunk_splitter \<times> (compact_block list \<times> nat) option" where
  "take_partial sp =
     (if acc sp = [] then (sp, None)
      else (sp\<lparr>acc := [], acc_bytes := 0\<rparr>, Some (acc sp, acc_bytes sp)))"

definition buffered_height :: "chunk_splitter \<Rightarrow> nat option" where
  "buffered_height sp = (if acc sp = [] then None else Some (height (last (acc sp))))"

section \<open>The interface\<close>

text \<open>A use of a splitter: \<open>Some b\<close> puts a block, \<open>None\<close> takes out what is held.\<close>

fun drive :: "('s \<Rightarrow> 'b \<Rightarrow> 's \<times> ('b list \<times> nat) option) \<Rightarrow> ('s \<Rightarrow> 's \<times> ('b list \<times> nat) option) \<Rightarrow>
    's \<Rightarrow> 'b option list \<Rightarrow> 's \<times> ('b list \<times> nat) list" where
  "drive put out s [] = (s, [])"
| "drive put out s (x # xs) =
     (let (s1, r) = (case x of Some b \<Rightarrow> put s b | None \<Rightarrow> out s);
          (s2, rs) = drive put out s1 xs
      in (s2, (case r of None \<Rightarrow> [] | Some p \<Rightarrow> [p]) @ rs))"

text \<open>
  What the caller of a splitter relies on: blocks come out in the order they went in, none is
  dropped or repeated, a completed piece is never empty, and each piece obeys the size rule
  \<open>fits\<close>.
\<close>

locale splitter_contract =
  fixes invar :: "'s \<Rightarrow> bool" and held :: "'s \<Rightarrow> 'b list"
    and put :: "'s \<Rightarrow> 'b \<Rightarrow> 's \<times> ('b list \<times> nat) option"
    and take_out :: "'s \<Rightarrow> 's \<times> ('b list \<times> nat) option"
    and fits :: "'s \<Rightarrow> 'b list \<Rightarrow> nat \<Rightarrow> bool"
  assumes put_invar: "invar s \<Longrightarrow> put s b = (s', r) \<Longrightarrow> invar s'"
    and put_keeps: "invar s \<Longrightarrow> put s b = (s', None) \<Longrightarrow> held s' = held s @ [b]"
    and put_yields: "invar s \<Longrightarrow> put s b = (s', Some (bs, n)) \<Longrightarrow> bs = held s \<and> held s' = [b] \<and> bs \<noteq> []"
    and put_fits: "invar s \<Longrightarrow> put s b = (s', Some (bs, n)) \<Longrightarrow> fits s bs n"
    and out_invar: "invar s \<Longrightarrow> take_out s = (s', r) \<Longrightarrow> invar s'"
    and out_yields: "invar s \<Longrightarrow> take_out s = (s', r) \<Longrightarrow>
      held s' = [] \<and> (case r of None \<Rightarrow> held s = [] | Some (bs, n) \<Rightarrow> bs = held s \<and> bs \<noteq> [] \<and> fits s bs n)"
    and fits_stable: "put s b = (s', r) \<Longrightarrow> fits s' = fits s" "take_out s = (s', r) \<Longrightarrow> fits s' = fits s"
begin

lemma drive_conserves:
  assumes "invar s" and "drive put take_out s xs = (s', pieces)"
  shows "held s @ List.map_filter id xs = concat (map fst pieces) @ held s' \<and> invar s' \<and>
         (\<forall>(bs, n) \<in> set pieces. bs \<noteq> [] \<and> fits s bs n)"
  using assms
proof (induction xs arbitrary: s pieces)
  case Nil
  then show ?case by (simp add: map_filter_simps)
next
  case (Cons x xs)
  define st where "st = (case x of Some b \<Rightarrow> put s b | None \<Rightarrow> take_out s)"
  obtain s1 r where st': "st = (s1, r)" by (cases st)
  obtain s2 rs where d: "drive put take_out s1 xs = (s2, rs)" by (cases "drive put take_out s1 xs")
  have res: "s' = s2" "pieces = (case r of None \<Rightarrow> [] | Some p \<Rightarrow> [p]) @ rs"
    using Cons.prems(2) st' d by (simp_all add: st_def Let_def)
  have inv1: "invar s1" using Cons.prems(1) st' by (cases x) (auto simp: st_def intro: put_invar out_invar)
  have same: "fits s1 = fits s" using st' fits_stable by (cases x) (auto simp: st_def)
  note IH = Cons.IH [OF inv1 d [folded res(1)]]
  show ?case
  proof (cases x)
    case None
    then have "take_out s = (s1, r)" using st' by (simp add: st_def)
    from out_yields [OF Cons.prems(1) this] IH res None same show ?thesis
      by (auto simp: map_filter_simps split: option.splits)
  next
    case (Some b)
    then have p: "put s b = (s1, r)" using st' by (simp add: st_def)
    show ?thesis
    proof (cases r)
      case None
      with put_keeps [OF Cons.prems(1)] p IH res Some same show ?thesis
        by (auto simp: map_filter_simps)
    next
      case (Some q)
      obtain bs n where q: "q = (bs, n)" by (cases q)
      with put_yields [OF Cons.prems(1)] put_fits [OF Cons.prems(1)] p IH res \<open>x = Some b\<close> Some same
      show ?thesis by (force simp: map_filter_simps)
    qed
  qed
qed

end

section \<open>The splitter of the code implements it\<close>

definition splitter_ok :: "(compact_block \<Rightarrow> nat) \<Rightarrow> chunk_splitter \<Rightarrow> bool" where
  "splitter_ok enc sp \<longleftrightarrow> acc_bytes sp = sum_list (map enc (acc sp)) \<and>
     (acc_bytes sp \<le> sp_split_bytes sp \<or> length (acc sp) = 1)"

definition piece_fits :: "(compact_block \<Rightarrow> nat) \<Rightarrow> chunk_splitter \<Rightarrow> compact_block list \<Rightarrow> nat \<Rightarrow> bool" where
  "piece_fits enc sp bs n \<longleftrightarrow> n = sum_list (map enc bs) \<and> (n \<le> sp_split_bytes sp \<or> length bs = 1)"

lemma push_cases:
  "push enc sp b =
     (if acc sp \<noteq> [] \<and> acc_bytes sp + enc b > sp_split_bytes sp
      then (sp\<lparr>acc := [b], acc_bytes := enc b\<rparr>, Some (acc sp, acc_bytes sp))
      else (sp\<lparr>acc := acc sp @ [b], acc_bytes := acc_bytes sp + enc b\<rparr>, None))"
  by (simp add: push_def Let_def)

lemma push_same_limit: "push enc sp b = (sp', r) \<Longrightarrow> sp_split_bytes sp' = sp_split_bytes sp"
  by (auto simp: push_cases split: if_splits)

lemma take_partial_same_limit: "take_partial sp = (sp', r) \<Longrightarrow> sp_split_bytes sp' = sp_split_bytes sp"
  by (auto simp: take_partial_def split: if_splits)

lemma splitter_new_ok [simp]: "splitter_ok enc (splitter_new n)" "acc (splitter_new n) = []"
  "sp_split_bytes (splitter_new n) = n" "acc_bytes (splitter_new n) = 0"
  by (simp_all add: splitter_ok_def splitter_new_def)

interpretation spl: splitter_contract "splitter_ok enc" acc "push enc" take_partial "piece_fits enc"
  for enc
  by unfold_locales
    (auto simp: splitter_ok_def piece_fits_def push_cases take_partial_def fun_eq_iff
      split: if_splits)

text \<open>
  C26.  The splitter neither drops, repeats nor reorders a block.  However pushes and deadline
  flushes are interleaved, the pieces it yields followed by what it still holds are exactly the
  blocks pushed; no piece is empty, each carries its own wire size, and a piece is larger than
  the budget only if it is a single block.
\<close>

theorem splitter_conserves_blocks:
  assumes "drive (push enc) take_partial (splitter_new budget) uses = (sp, pieces)"
  shows "concat (map fst pieces) @ acc sp = List.map_filter id uses \<and>
    (\<forall>(bs, n) \<in> set pieces. bs \<noteq> [] \<and> n = sum_list (map enc bs) \<and> (n \<le> budget \<or> length bs = 1))"
  using spl.drive_conserves [of enc, OF _ assms] by (auto simp: piece_fits_def)

definition demo_block :: "nat \<Rightarrow> compact_block" where
  "demo_block h = \<lparr>height = h, hash = [word_of_nat h], prev_hash = [word_of_nat (h - 1)], vtx = []\<rparr>"

theorem splitter_conserves_blocks_witness:
  "concat (map fst (snd (drive (push (\<lambda>b. 4)) take_partial (splitter_new 8)
       [Some (demo_block 5), Some (demo_block 6), Some (demo_block 7), None, Some (demo_block 8)]))) =
     [demo_block 5, demo_block 6, demo_block 7]"
proof -
  let ?uses = "[Some (demo_block 5), Some (demo_block 6), Some (demo_block 7), None, Some (demo_block 8)]"
  obtain sp pieces where d: "drive (push (\<lambda>b. 4)) take_partial (splitter_new 8) ?uses = (sp, pieces)"
    by (cases "drive (push (\<lambda>b. 4)) take_partial (splitter_new 8) ?uses")
  then have "acc sp = [demo_block 8]"
    by (auto simp: push_cases splitter_new_def take_partial_def Let_def)
  then show ?thesis
    using splitter_conserves_blocks [OF d] d by (simp add: map_filter_simps)
qed

end
