(* ===== verification/Slip_Chunk.thy ===== *)
theory Slip_Chunk
  imports Slip_Blocks
begin

text \<open>
  The unit of transport between download and scan (\<open>core/src/chunk.rs\<close>): a chunk of
  blocks, and the byte-budgeted queue that carries chunks from the fetch side to the scan
  side. The queue's permits (a tokio semaphore and the tokens that return permits when
  dropped) are explicit state, and its life is a step relation whose steps are the sends,
  receives and permit drops of the two sides in any order.
\<close>

section \<open>Chunks\<close>

record chunk =
  chunk_index :: nat
  chunk_blocks_of :: "compact_block list"
  estimated_bytes :: nat
  chunk_outputs :: nat

definition from_blocks :: "(compact_block \<Rightarrow> nat) \<Rightarrow> nat \<Rightarrow> compact_block list \<Rightarrow> chunk" where
  "from_blocks enc i bs =
     \<lparr>chunk_index = i, chunk_blocks_of = bs,
      estimated_bytes = sum_list (map enc bs),
      chunk_outputs = sum_list (map (\<lambda>tx. length (tx_outputs tx) + length (tx_actions tx))
                                 (concat (map vtx bs)))\<rparr>"

definition start_height :: "chunk \<Rightarrow> nat option" where
  "start_height c = (case chunk_blocks_of c of [] \<Rightarrow> None | b # _ \<Rightarrow> Some (height b))"

definition end_height :: "chunk \<Rightarrow> nat option" where
  "end_height c = (if chunk_blocks_of c = [] then None else Some (height (last (chunk_blocks_of c))))"

lemma from_blocks_sel [simp]:
  "chunk_index (from_blocks enc i bs) = i"
  "chunk_blocks_of (from_blocks enc i bs) = bs"
  "estimated_bytes (from_blocks enc i bs) = sum_list (map enc bs)"
  by (simp_all add: from_blocks_def)

section \<open>The byte-budgeted queue\<close>

text \<open>
  \<open>cq_queue\<close> is the channel: the chunks sent and not yet received, each with the
  permits it holds and the boundary fetch spawned for it. \<open>cq_held\<close> are the permits of
  chunks the consumer received and has not dropped. \<open>Semaphore::new\<close> panics above
  \<open>MAX_PERMITS\<close> (\<open>usize::MAX >> 3\<close> of a 64-bit target), so building the queue is
  an option.
\<close>

record 'h chunk_chan =
  cq_queue :: "(chunk \<times> nat \<times> 'h option) list"
  cq_avail :: nat
  cq_budget :: nat
  cq_fetcher :: "(nat \<Rightarrow> 'h option) option"
  cq_held :: "nat list"
  cq_rx_open :: bool

definition max_permits :: nat where "max_permits = 2305843009213693951"

definition chunk_queue :: "nat \<Rightarrow> 'h chunk_chan option" where
  "chunk_queue budget_bytes =
     (let b = max budget_bytes 1 in
      if max_permits < b then None
      else Some \<lparr>cq_queue = [], cq_avail = b, cq_budget = b, cq_fetcher = None,
                 cq_held = [], cq_rx_open = True\<rparr>)"

definition set_boundary_fetcher :: "(nat \<Rightarrow> 'h option) \<Rightarrow> 'h chunk_chan \<Rightarrow> 'h chunk_chan" where
  "set_boundary_fetcher f q = q\<lparr>cq_fetcher := Some f\<rparr>"

definition boundary_for :: "'h chunk_chan \<Rightarrow> chunk \<Rightarrow> 'h option" where
  "boundary_for q c =
     (case (cq_fetcher q, end_height c) of (Some f, Some e) \<Rightarrow> f e | _ \<Rightarrow> None)"

definition need_of :: "nat \<Rightarrow> chunk \<Rightarrow> nat" where
  "need_of budget c = to_u32_or_max (max (min (estimated_bytes c) budget) 1)"

text \<open>
  One attempt to send: it waits while the permits it needs are not available, fails with
  \<open>Stopped\<close> (giving its permits back) when the receiver is gone, and otherwise enqueues.
\<close>

datatype 'h send_outcome = SendWaits | Sent "'h chunk_chan" | SendFailed slipstream_error

definition send :: "'h chunk_chan \<Rightarrow> chunk \<Rightarrow> 'h send_outcome" where
  "send q c =
     (let need = need_of (cq_budget q) c in
      if cq_avail q < need then SendWaits
      else if cq_rx_open q
           then Sent (q\<lparr>cq_avail := cq_avail q - need,
                        cq_queue := cq_queue q @ [(c, need, boundary_for q c)]\<rparr>)
           else SendFailed Stopped)"

definition recv :: "'h chunk_chan \<Rightarrow> ((chunk \<times> 'h option) \<times> 'h chunk_chan) option" where
  "recv q = (case cq_queue q of [] \<Rightarrow> None
     | (c, n, h) # rest \<Rightarrow> Some ((c, h), q\<lparr>cq_queue := rest, cq_held := cq_held q @ [n]\<rparr>))"

definition drop_permit :: "nat \<Rightarrow> 'h chunk_chan \<Rightarrow> 'h chunk_chan" where
  "drop_permit i q =
     (if i < length (cq_held q)
      then q\<lparr>cq_avail := cq_avail q + cq_held q ! i,
             cq_held := take i (cq_held q) @ drop (Suc i) (cq_held q)\<rparr>
      else q)"

text \<open>Dropping the receiver drops the queued messages, permits included.\<close>

definition drop_receiver :: "'h chunk_chan \<Rightarrow> 'h chunk_chan" where
  "drop_receiver q =
     q\<lparr>cq_rx_open := False, cq_queue := [],
       cq_avail := cq_avail q + sum_list (map (\<lambda>(c, n, h). n) (cq_queue q))\<rparr>"

inductive cq_step :: "'h chunk_chan \<Rightarrow> 'h chunk_chan \<Rightarrow> bool" where
  cq_send: "send q c = Sent q' \<Longrightarrow> cq_step q q'"
| cq_recv: "recv q = Some (r, q') \<Longrightarrow> cq_step q q'"
| cq_drop: "cq_step q (drop_permit i q)"
| cq_close: "cq_step q (drop_receiver q)"

section \<open>Permit pools\<close>

text \<open>
  The contract a byte budget gives its clients, shared by this queue and by the
  fetch-ahead gate: no step creates or loses permits. \<open>free\<close> are the permits that can
  be taken, \<open>taken\<close> those that were handed out and not returned.
\<close>

locale permit_pool =
  fixes step :: "'s \<Rightarrow> 's \<Rightarrow> bool"
    and free :: "'s \<Rightarrow> nat" and taken :: "'s \<Rightarrow> nat" and cap :: "'s \<Rightarrow> nat"
  assumes step_cap: "step s t \<Longrightarrow> cap t = cap s"
    and step_conserves: "step s t \<Longrightarrow> free s + taken s = cap s \<Longrightarrow> free t + taken t = cap s"
begin

lemma run_conserves:
  assumes "step\<^sup>*\<^sup>* s t" and "free s + taken s = cap s"
  shows "cap t = cap s \<and> free t + taken t = cap s"
  using assms
proof (induction rule: rtranclp_induct)
  case (step t u)
  then have "cap t = cap s" "free t + taken t = cap t" by simp_all
  with step_cap [OF step.hyps(2)] step_conserves [OF step.hyps(2)] show ?case by simp
qed simp

lemma taken_bounded:
  "step\<^sup>*\<^sup>* s t \<Longrightarrow> free s + taken s = cap s \<Longrightarrow> taken t \<le> cap s"
  using run_conserves [of s t] by linarith

lemma all_returned:
  "step\<^sup>*\<^sup>* s t \<Longrightarrow> free s + taken s = cap s \<Longrightarrow> taken t = 0 \<Longrightarrow> free t = cap s"
  using run_conserves [of s t] by linarith

end

definition cq_taken :: "'h chunk_chan \<Rightarrow> nat" where
  "cq_taken q = sum_list (map (\<lambda>(c, n, h). n) (cq_queue q)) + sum_list (cq_held q)"

lemma cq_step_cap: "cq_step q q' \<Longrightarrow> cq_budget q' = cq_budget q"
  by (induction rule: cq_step.induct)
    (auto simp: send_def Let_def recv_def drop_permit_def drop_receiver_def
      split: if_splits list.splits prod.splits)

lemma cq_step_conserves:
  assumes "cq_step q q'" and "cq_avail q + cq_taken q = cq_budget q"
  shows "cq_avail q' + cq_taken q' = cq_budget q"
  using assms
proof (induction rule: cq_step.induct)
  case (cq_send q c q')
  then show ?case
    by (auto simp: send_def Let_def cq_taken_def split: if_splits)
next
  case (cq_recv q r q')
  then show ?case
    by (auto simp: recv_def cq_taken_def split: list.splits)
next
  case (cq_drop q i)
  show ?case
  proof (cases "i < length (cq_held q)")
    case True
    with sum_list_remove_nth [OF True] cq_drop show ?thesis
      by (simp add: drop_permit_def cq_taken_def)
  qed (use cq_drop in \<open>simp add: drop_permit_def cq_taken_def\<close>)
next
  case (cq_close q)
  then show ?case by (simp add: drop_receiver_def cq_taken_def)
qed

interpretation cq: permit_pool cq_step cq_avail cq_taken cq_budget
  by unfold_locales (auto dest: cq_step_cap cq_step_conserves)

lemma chunk_queue_start:
  "chunk_queue b = Some q \<Longrightarrow> cq_avail q + cq_taken q = cq_budget q \<and> cq_budget q = max b 1"
  by (auto simp: chunk_queue_def Let_def cq_taken_def split: if_splits)

lemma need_of_bounds: "0 < budget \<Longrightarrow> 0 < need_of budget c \<and> need_of budget c \<le> budget"
proof -
  assume "0 < budget"
  then have "max (min (estimated_bytes c) budget) 1 \<le> budget" by simp
  then show ?thesis
    unfolding need_of_def
    using to_u32_or_max_le(2) [of "max (min (estimated_bytes c) budget) 1"]
      to_u32_or_max_pos [of "max (min (estimated_bytes c) budget) 1"] by linarith
qed

text \<open>A concrete queue: budget 10, one chunk of estimated size 40 sent to it.\<close>

definition demo_chunk :: chunk where
  "demo_chunk = \<lparr>chunk_index = 0, chunk_blocks_of = [], estimated_bytes = 40, chunk_outputs = 0\<rparr>"

definition demo_queue :: "unit chunk_chan" where
  "demo_queue = \<lparr>cq_queue = [], cq_avail = 10, cq_budget = 10, cq_fetcher = None,
                 cq_held = [], cq_rx_open = True\<rparr>"

definition demo_queue_sent :: "unit chunk_chan" where
  "demo_queue_sent = demo_queue\<lparr>cq_avail := 0, cq_queue := [(demo_chunk, 10, None)]\<rparr>"

lemma demo_queue_start: "chunk_queue 10 = Some demo_queue"
  by (simp add: chunk_queue_def demo_queue_def max_permits_def)

lemma demo_queue_send: "send demo_queue demo_chunk = Sent demo_queue_sent"
  by (simp add: send_def need_of_def demo_queue_def demo_queue_sent_def demo_chunk_def
      to_u32_or_max_def u32_max_def boundary_for_def)

lemma demo_queue_run: "cq_step\<^sup>*\<^sup>* demo_queue demo_queue_sent"
  by (rule r_into_rtranclp, rule cq_step.cq_send, rule demo_queue_send)



text \<open>
  The queue never deadlocks on one chunk: when nothing is queued or being processed,
  a send goes through whatever the size of the chunk, even one larger than the budget.
\<close>

theorem oversized_chunk_is_admitted:
  assumes "chunk_queue b = Some q" and "cq_step\<^sup>*\<^sup>* q q'"
    and "cq_queue q' = []" and "cq_held q' = []" and "cq_rx_open q'"
  shows "\<exists>q''. send q' c = Sent q'' \<and> map fst (cq_queue q'') = [c]"
proof -
  note start = chunk_queue_start [OF assms(1)]
  from cq.run_conserves [OF assms(2)] start
  have b: "cq_budget q' = max b 1" and "cq_avail q' + cq_taken q' = max b 1" by simp_all
  with assms(3,4) have "cq_avail q' = cq_budget q'" by (simp add: cq_taken_def)
  moreover have "need_of (cq_budget q') c \<le> cq_budget q'"
    using need_of_bounds [of "cq_budget q'" c] b by simp
  ultimately show ?thesis
    using assms(3,5) by (simp add: send_def Let_def)
qed

theorem oversized_chunk_is_admitted_witness:
  "10 < estimated_bytes demo_chunk
    \<and> (\<exists>q. send demo_queue demo_chunk = Sent q \<and> map fst (cq_queue q) = [demo_chunk])"
  using oversized_chunk_is_admitted [OF demo_queue_start rtranclp.rtrancl_refl, of demo_chunk]
  by (simp add: demo_queue_def demo_chunk_def)

text \<open>The queue is first in, first out: what is received is what was sent, in order.\<close>

lemma recv_send_fifo:
  assumes "send q c = Sent q'" and "cq_queue q = []"
  shows "\<exists>q''. recv q' = Some ((c, boundary_for q c), q'')"
  using assms by (auto simp: send_def recv_def Let_def split: if_splits)

end
