(* ===== verification/Slip_Gate.thy ===== *)
theory Slip_Gate
  imports Slip_Chunk
begin

text \<open>
  The fetch-ahead gate (\<open>src/core/src/fetch.rs\<close>, \<open>AheadGate\<close>): a byte budget shared by the
  workers, from which the plan chunk being released (the floor) is exempt.  A worker's wait is a
  loop of polls; one poll is one step here, and the polls of all workers, the permits that come
  back and the floor's advance interleave freely in \<open>gate_step\<close>.
\<close>

record ahead_gate =
  ag_avail :: nat
  ag_permits :: nat
  ag_cap :: nat
  ag_floor :: nat
  ag_held :: "nat list"

definition AHEAD_BUDGET_FACTOR :: nat where "AHEAD_BUDGET_FACTOR = 8"

text \<open>\<open>ag_permits\<close> is what the semaphore was built with: the budget, capped at its own maximum.\<close>

definition gate_new :: "nat \<Rightarrow> nat \<Rightarrow> ahead_gate" where
  "gate_new cap flo =
     (let cap = max cap 1; n = min cap max_permits
      in \<lparr>ag_avail = n, ag_permits = n, ag_cap = cap, ag_floor = flo, ag_held = []\<rparr>)"

datatype admission = Exempt | Admitted nat | Polls

definition admit_need :: "ahead_gate \<Rightarrow> nat \<Rightarrow> nat" where
  "admit_need g bytes = to_u32_or_max (max (min bytes (ag_cap g)) 1)"

definition admit :: "ahead_gate \<Rightarrow> nat \<Rightarrow> nat \<Rightarrow> ahead_gate \<times> admission" where
  "admit g plan_index bytes =
     (let need = admit_need g bytes in
      if ag_floor g \<ge> plan_index then (g, Exempt)
      else if need \<le> ag_avail g
      then (g\<lparr>ag_avail := ag_avail g - need, ag_held := need # ag_held g\<rparr>, Admitted need)
      else (g, Polls))"

definition gate_return :: "nat \<Rightarrow> ahead_gate \<Rightarrow> ahead_gate" where
  "gate_return i g =
     (if i < length (ag_held g)
      then g\<lparr>ag_avail := ag_avail g + ag_held g ! i,
             ag_held := take i (ag_held g) @ drop (Suc i) (ag_held g)\<rparr>
      else g)"

inductive gate_step :: "ahead_gate \<Rightarrow> ahead_gate \<Rightarrow> bool" where
  gs_admit: "gate_step g (fst (admit g i bytes))"
| gs_return: "gate_step g (gate_return i g)"
| gs_floor: "ag_floor g \<le> flo \<Longrightarrow> gate_step g (g\<lparr>ag_floor := flo\<rparr>)"

lemma gate_step_cap: "gate_step g g' \<Longrightarrow> ag_permits g' = ag_permits g \<and> ag_cap g' = ag_cap g"
  by (induction rule: gate_step.induct) (auto simp: admit_def gate_return_def Let_def)

lemma gate_step_conserves:
  "gate_step g g' \<Longrightarrow> ag_avail g + sum_list (ag_held g) = ag_permits g \<Longrightarrow>
     ag_avail g' + sum_list (ag_held g') = ag_permits g"
proof (induction rule: gate_step.induct)
  case (gs_return g i)
  then show ?case
    using sum_list_remove_nth [of i "ag_held g"]
    by (cases "i < length (ag_held g)") (simp_all add: gate_return_def)
qed (auto simp: admit_def Let_def)

interpretation ag: permit_pool gate_step ag_avail "\<lambda>g. sum_list (ag_held g)" ag_permits
  by unfold_locales (auto dest: gate_step_cap gate_step_conserves)

lemma gate_run_cap: "gate_step\<^sup>*\<^sup>* g g' \<Longrightarrow> ag_cap g' = ag_cap g"
  by (induction rule: rtranclp_induct) (auto dest: gate_step_cap)

lemma gate_new_start:
  "ag_avail (gate_new c f) + sum_list (ag_held (gate_new c f)) = ag_permits (gate_new c f)"
  by (simp add: gate_new_def Let_def)

lemma admit_need_le: "admit_need (gate_new c f) bytes \<le> ag_permits (gate_new c f)"
proof -
  let ?n = "max (min bytes (max c 1)) 1"
  have "to_u32_or_max ?n \<le> max c 1"
    using to_u32_or_max_le(2) [of ?n] by linarith
  moreover have "to_u32_or_max ?n \<le> max_permits"
    using to_u32_or_max_le(1) [of ?n] by (simp add: u32_max_def max_permits_def)
  ultimately show ?thesis by (simp add: admit_need_def gate_new_def Let_def)
qed


definition demo_gate :: ahead_gate where
  "demo_gate = \<lparr>ag_avail = 4, ag_permits = 10, ag_cap = 10, ag_floor = 2, ag_held = [6]\<rparr>"

lemma demo_gate_run: "gate_step\<^sup>*\<^sup>* (gate_new 10 2) demo_gate"
proof -
  have "fst (admit (gate_new 10 2) 5 6) = demo_gate"
    by (simp add: admit_def admit_need_def gate_new_def demo_gate_def Let_def to_u32_or_max_def
        u32_max_def max_permits_def)
  then show ?thesis using gs_admit [of "gate_new 10 2" 5 6] by auto
qed


end
