(* ===== verification/Slip_Plan.thy ===== *)
theory Slip_Plan
  imports Slip_Blocks
begin

text \<open>
  The fetch plan (\<open>core/src/fetch.rs\<close>, \<open>FetchPlan\<close>): how a requested height range
  is cut into plan chunks and how the workers claim them from a shared cursor. The
  wire-collapse thresholds are part of the plan.
\<close>

record wire_failover_arm =
  arm_stall_secs :: nat
  collapse_fraction :: rat
  painful_mbps :: rat
  floor_mbps :: rat

definition wire_failover_arm_default :: wire_failover_arm where
  "wire_failover_arm_default =
     \<lparr>arm_stall_secs = 12, collapse_fraction = 15 / 100, painful_mbps = 2, floor_mbps = 2 / 10\<rparr>"

record fetch_plan =
  plan_start :: nat
  plan_end :: nat
  chunk_blocks :: nat
  streams :: nat
  retries_per_chunk :: nat
  chunk_timeout :: nat
  split_bytes :: nat
  failover :: "wire_failover_arm option"

text \<open>\<open>FetchPlan::new\<close> panics on an empty range or a zero chunk size: \<open>None\<close>.\<close>

definition plan_new :: "nat \<Rightarrow> nat \<Rightarrow> nat \<Rightarrow> nat \<Rightarrow> fetch_plan option" where
  "plan_new s e cb k =
     (if \<not> s \<le> e then None
      else if \<not> cb > 0 then None
      else Some \<lparr>plan_start = s, plan_end = e, chunk_blocks = cb, streams = k,
                 retries_per_chunk = 3, chunk_timeout = 120,
                 split_bytes = 8 * 1024 * 1024, failover = None\<rparr>)"

definition chunk_count :: "fetch_plan \<Rightarrow> nat" where
  "chunk_count p = (let span = plan_end p - plan_start p + 1 in div_ceil span (chunk_blocks p))"

definition chunk_range :: "fetch_plan \<Rightarrow> nat \<Rightarrow> nat \<times> nat" where
  "chunk_range p i =
     (let s = plan_start p + i * chunk_blocks p;
          e = min (s + chunk_blocks p - 1) (plan_end p)
      in (s, e))"

definition worker_count :: "fetch_plan \<Rightarrow> nat" where
  "worker_count p = min (max (streams p) 1) (chunk_count p)"

text \<open>\<open>claim_chunk\<close> is one atomic \<open>fetch_add\<close> on the cursor: the new cursor and the claim.\<close>

definition claim_chunk :: "fetch_plan \<Rightarrow> nat \<Rightarrow> nat \<times> (nat \<times> nat \<times> nat) option" where
  "claim_chunk p cursor =
     (cursor + 1,
      if chunk_count p \<le> cursor then None
      else (let (s, e) = chunk_range p cursor in Some (cursor, s, e)))"

text \<open>Claims made one after the other by whichever worker reaches the cursor next.\<close>

fun claim_run :: "fetch_plan \<Rightarrow> nat \<Rightarrow> nat list \<Rightarrow> (nat \<times> (nat \<times> nat \<times> nat) option) list" where
  "claim_run p cursor [] = []"
| "claim_run p cursor (w # ws) =
     (let (cursor', r) = claim_chunk p cursor in (w, r) # claim_run p cursor' ws)"

definition plan_wf :: "fetch_plan \<Rightarrow> bool" where
  "plan_wf p \<longleftrightarrow> plan_start p \<le> plan_end p \<and> 0 < chunk_blocks p"

section \<open>The plan chunks partition the range\<close>

lemma plan_new_wf: "plan_new s e cb k = Some p \<Longrightarrow> plan_wf p"
  by (auto simp: plan_new_def plan_wf_def split: if_splits)

lemma chunk_count_pos: "plan_wf p \<Longrightarrow> 0 < chunk_count p"
  by (simp add: plan_wf_def chunk_count_def div_ceil_pos)

lemma less_chunk_count_iff:
  "plan_wf p \<Longrightarrow> i < chunk_count p \<longleftrightarrow> plan_start p + i * chunk_blocks p \<le> plan_end p"
  by (auto simp: plan_wf_def chunk_count_def less_div_ceil_iff)

lemma chunk_range_bounds:
  assumes "plan_wf p" and "i < chunk_count p" and "chunk_range p i = (s, e)"
  shows "plan_start p \<le> s \<and> s \<le> e \<and> e \<le> plan_end p"
  using assms less_chunk_count_iff [OF assms(1), of i]
  by (auto simp: chunk_range_def plan_wf_def Let_def)

lemma chunk_range_next:
  assumes "plan_wf p" and "Suc i < chunk_count p"
  shows "fst (chunk_range p (Suc i)) = Suc (snd (chunk_range p i))"
  using assms less_chunk_count_iff [OF assms(1), of "Suc i"]
  by (simp add: chunk_range_def plan_wf_def Let_def)

lemma chunk_range_last:
  assumes "plan_wf p"
  shows "snd (chunk_range p (chunk_count p - 1)) = plan_end p"
proof -
  define n where "n = chunk_count p - 1"
  have n: "chunk_count p = Suc n"
    using chunk_count_pos [OF assms] by (simp add: n_def)
  then have "\<not> plan_start p + Suc n * chunk_blocks p \<le> plan_end p"
    using less_chunk_count_iff [OF assms, of "Suc n"] by simp
  then show ?thesis
    unfolding n_def [symmetric] by (simp add: chunk_range_def Let_def)
qed

definition range_list :: "nat \<times> nat \<Rightarrow> nat list" where
  "range_list r = [fst r..<Suc (snd r)]"

lemma chunk_ranges_upto:
  assumes "plan_wf p" and "n \<le> chunk_count p" and "0 < n"
  shows "concat (map (\<lambda>i. range_list (chunk_range p i)) [0..<n])
    = [plan_start p..<Suc (snd (chunk_range p (n - 1)))]"
  using assms(2,3)
proof (induction n)
  case (Suc n)
  show ?case
  proof (cases "n = 0")
    case True
    then show ?thesis
      by (simp add: range_list_def chunk_range_def Let_def upt_Suc [of 0 0] del: upt_Suc)
  next
    case False
    with Suc have IH: "concat (map (\<lambda>i. range_list (chunk_range p i)) [0..<n])
        = [plan_start p..<Suc (snd (chunk_range p (n - 1)))]" by simp
    have next_start: "fst (chunk_range p n) = Suc (snd (chunk_range p (n - 1)))"
      using chunk_range_next [OF assms(1), of "n - 1"] Suc.prems False by simp
    have "plan_start p \<le> fst (chunk_range p n) \<and> fst (chunk_range p n) \<le> snd (chunk_range p n)"
      using chunk_range_bounds [OF assms(1), of n] Suc.prems(1) by (cases "chunk_range p n") auto
    then have "[plan_start p..<Suc (snd (chunk_range p n))]
        = [plan_start p..<fst (chunk_range p n)] @ range_list (chunk_range p n)"
      unfolding range_list_def by (intro upt_split) auto
    moreover have "concat (map (\<lambda>i. range_list (chunk_range p i)) [0..<Suc n])
        = concat (map (\<lambda>i. range_list (chunk_range p i)) [0..<n]) @ range_list (chunk_range p n)"
      by simp
    ultimately show ?thesis by (simp add: IH next_start del: upt_Suc)
  qed
qed simp

lemma chunk_ranges_all:
  assumes "plan_wf p"
  shows "concat (map (\<lambda>i. range_list (chunk_range p i)) [0..<chunk_count p])
    = [plan_start p..<Suc (plan_end p)]"
  using chunk_ranges_upto [OF assms order.refl chunk_count_pos [OF assms]]
    chunk_range_last [OF assms] by simp

section \<open>Claims\<close>

lemma claim_run_nth:
  "k < length ws \<Longrightarrow> claim_run p cursor ws ! k = (ws ! k, snd (claim_chunk p (cursor + k)))"
proof (induction ws arbitrary: cursor k)
  case (Cons w ws)
  then show ?case by (cases k) (auto simp: claim_chunk_def)
qed simp

lemma length_claim_run [simp]: "length (claim_run p cursor ws) = length ws"
  by (induction ws arbitrary: cursor) (auto simp: claim_chunk_def)

lemma claim_run_results:
  "map snd (claim_run p cursor ws) = map (\<lambda>i. snd (claim_chunk p i)) [cursor..<cursor + length ws]"
  by (rule nth_equalityI) (auto simp: claim_run_nth)

text \<open>
  The plan chunks cut the requested range without gap or overlap: taken in index
  order, their heights are exactly \<open>plan_start, \<dots>, plan_end\<close>, each once, and every
  one of them is a non-empty range.
\<close>

theorem plan_chunks_partition:
  assumes "plan_new s e cb k = Some p"
  shows "concat (map (\<lambda>i. range_list (chunk_range p i)) [0..<chunk_count p]) = [s..<Suc e]
    \<and> (\<forall>i < chunk_count p. fst (chunk_range p i) \<le> snd (chunk_range p i))
    \<and> 1 \<le> worker_count p \<and> worker_count p \<le> chunk_count p"
proof -
  from assms have wf: "plan_wf p" by (rule plan_new_wf)
  from assms have "plan_start p = s" "plan_end p = e"
    by (auto simp: plan_new_def split: if_splits)
  with chunk_ranges_all [OF wf] chunk_range_bounds [OF wf] chunk_count_pos [OF wf] show ?thesis
    by (auto simp: worker_count_def)
qed

theorem plan_chunks_partition_witness:
  "\<exists>p. plan_new 10 14 2 8 = Some p
    \<and> concat (map (\<lambda>i. range_list (chunk_range p i)) [0..<chunk_count p]) = [10..<15]
    \<and> worker_count p = 3"
proof -
  define p where "p = \<lparr>plan_start = 10, plan_end = 14, chunk_blocks = 2, streams = 8,
    retries_per_chunk = 3, chunk_timeout = 120, split_bytes = 8 * 1024 * 1024, failover = None\<rparr>"
  have p: "plan_new 10 14 2 8 = Some p" by (simp add: plan_new_def p_def)
  moreover have "worker_count p = 3"
    by (simp add: worker_count_def chunk_count_def div_ceil_def p_def)
  ultimately show ?thesis using plan_chunks_partition [OF p] by auto
qed

text \<open>
  However the workers interleave on the shared cursor, every plan chunk is claimed by
  exactly one worker: the first \<open>chunk_count\<close> claims hand out the chunks in index order,
  one each, and every later claim gets none.
\<close>

theorem each_chunk_claimed_once:
  assumes "chunk_count p \<le> length ws"
  shows "map snd (claim_run p 0 ws) =
    map (\<lambda>i. Some (i, fst (chunk_range p i), snd (chunk_range p i))) [0..<chunk_count p]
    @ replicate (length ws - chunk_count p) None"
proof -
  have split: "[0..<length ws] = [0..<chunk_count p] @ [chunk_count p..<length ws]"
    using assms by (intro upt_split) simp_all
  have "map (\<lambda>i. snd (claim_chunk p i)) [chunk_count p..<length ws]
      = replicate (length ws - chunk_count p) None"
    by (rule nth_equalityI) (auto simp: claim_chunk_def)
  moreover have "map (\<lambda>i. snd (claim_chunk p i)) [0..<chunk_count p]
      = map (\<lambda>i. Some (i, fst (chunk_range p i), snd (chunk_range p i))) [0..<chunk_count p]"
    by (auto simp: claim_chunk_def split: prod.splits)
  ultimately show ?thesis by (simp add: claim_run_results split)
qed

theorem each_chunk_claimed_once_witness:
  "\<exists>p. plan_new 10 14 3 2 = Some p
    \<and> map snd (claim_run p 0 [0, 1, 1, 0]) = [Some (0, 10, 12), Some (1, 13, 14), None, None]"
proof -
  define p where "p = \<lparr>plan_start = 10, plan_end = 14, chunk_blocks = 3, streams = 2,
    retries_per_chunk = 3, chunk_timeout = 120, split_bytes = 8 * 1024 * 1024, failover = None\<rparr>"
  have p: "plan_new 10 14 3 2 = Some p" by (simp add: plan_new_def p_def)
  have c: "chunk_count p = 2" by (simp add: chunk_count_def div_ceil_def p_def)
  have u: "[0..<2] = [0, 1::nat]" by (simp add: upt_conv_Cons)
  have r: "chunk_range p 0 = (10, 12)" "chunk_range p 1 = (13, 14)"
    by (simp_all add: chunk_range_def p_def)
  have "map snd (claim_run p 0 [0, 1, 1, 0]) = [Some (0, 10, 12), Some (1, 13, 14)] @ replicate 2 None"
    using each_chunk_claimed_once [of p "[0, 1, 1, 0]"] r
    by (simp add: c u numeral_2_eq_2 del: claim_run.simps)
  with p show ?thesis by (auto simp: numeral_2_eq_2 simp del: claim_run.simps)
qed

text \<open>
  Heights are \<open>u32\<close> block heights and the chunk size is a \<open>u32\<close>, so none of the
  \<open>u64\<close> computations of the plan overflows.
\<close>

lemma plan_arithmetic_fits:
  assumes "plan_wf p" and "plan_end p \<le> u32_max" and "chunk_blocks p \<le> u32_max"
    and "i < chunk_count p"
  shows "plan_start p + i * chunk_blocks p + chunk_blocks p \<le> u64_max"
  using less_chunk_count_iff [OF assms(1), of i] assms
  by (simp add: u32_max_def u64_max_def)

end
