(* ===== verification/Slip_Config.thy ===== *)
theory Slip_Config
  imports Slip_Error
begin

text \<open>
  Endpoints, the engine configuration and the endpoint probe (\<open>src/core/src/config.rs\<close>,
  \<open>src/core/src/probe.rs\<close>).  An endpoint's text form is a string of characters; a port is a
  natural number below \<open>65536\<close>.  The messages of \<open>parse_uri\<close> quote the input and are represented
  by their kind.  What the network answers during a probe is an input: the outcome of the connect,
  of the tip query and of the timed sample of each endpoint.
\<close>

section \<open>Endpoints\<close>

record endpoint =
  ep_host :: string
  ep_port :: nat
  ep_tls :: bool

definition uri :: "endpoint \<Rightarrow> string" where
  "uri e = (if ep_tls e then ''https'' else ''http'') @ ''://'' @ ep_host e @ '':'' @ nat_str (ep_port e)"

datatype parse_int_error = IntEmpty | InvalidDigit | PosOverflow

datatype uri_error = NoScheme | MissingPort | EmptyHost | BadPort parse_int_error

definition strip_prefix :: "string \<Rightarrow> string \<Rightarrow> string option" where
  "strip_prefix p s = (if take (length p) s = p then Some (drop (length p) s) else None)"

definition strip_slash :: "string \<Rightarrow> string" where
  "strip_slash s = (if s \<noteq> [] \<and> last s = CHR ''/'' then butlast s else s)"

text \<open>\<open>str::rsplit_once(':')\<close>: split at the last colon.\<close>

fun rsplit_colon :: "string \<Rightarrow> (string \<times> string) option" where
  "rsplit_colon [] = None"
| "rsplit_colon (c # s) =
     (case rsplit_colon s of
        Some (a, b) \<Rightarrow> Some (c # a, b)
      | None \<Rightarrow> if c = CHR '':'' then Some ([], s) else None)"

definition to_digit :: "char \<Rightarrow> nat option" where
  "to_digit c = (let n = of_char c in if 48 \<le> n \<and> n \<le> 57 then Some (n - 48) else None)"

text \<open>\<open>u16::from_str\<close>: an optional plus sign, then digits, each checked before the overflow.\<close>

fun digits_u16 :: "nat \<Rightarrow> string \<Rightarrow> parse_int_error + nat" where
  "digits_u16 n [] = Inr n"
| "digits_u16 n (c # s) =
     (case to_digit c of
        None \<Rightarrow> Inl InvalidDigit
      | Some d \<Rightarrow> if n * 10 + d > 65535 then Inl PosOverflow else digits_u16 (n * 10 + d) s)"

definition parse_u16 :: "string \<Rightarrow> parse_int_error + nat" where
  "parse_u16 s =
     (case s of
        [] \<Rightarrow> Inl IntEmpty
      | c # t \<Rightarrow> if c = CHR ''+'' then (if t = [] then Inl InvalidDigit else digits_u16 0 t)
                 else digits_u16 0 s)"

definition parse_uri :: "string \<Rightarrow> uri_error + endpoint" where
  "parse_uri s =
     (let scheme = (case strip_prefix ''https://'' s of
                      Some r \<Rightarrow> Some (True, r)
                    | None \<Rightarrow> (case strip_prefix ''http://'' s of Some r \<Rightarrow> Some (False, r) | None \<Rightarrow> None))
      in case scheme of
           None \<Rightarrow> Inl NoScheme
         | Some (tls, rest) \<Rightarrow>
             (case rsplit_colon (strip_slash rest) of
                None \<Rightarrow> Inl MissingPort
              | Some (host, port) \<Rightarrow>
                  if host = [] then Inl EmptyHost
                  else (case parse_u16 port of
                          Inl e \<Rightarrow> Inl (BadPort e)
                        | Inr p \<Rightarrow> Inr \<lparr>ep_host = host, ep_port = p, ep_tls = tls\<rparr>)))"

section \<open>The engine configuration\<close>

text \<open>
  The network and the anchor-retention policy are values of other crates: type parameters here.
\<close>

record ('n, 'a) engine_config =
  network :: 'n
  wallet_db_path :: string
  cfg_endpoint :: endpoint
  alternate_endpoints :: "endpoint list"
  wire_failover :: bool
  fetch_streams :: nat
  chunk_blocks_cfg :: nat
  memory_budget_bytes :: nat
  chunk_split_bytes :: nat
  scan_batch_target_ms :: "nat option"
  enhance_every_chunks :: nat
  sparse_persistence :: bool
  write_behind :: bool
  gpu_subtree :: bool
  graft_subtree :: bool
  graft_verify_sample :: nat
  anchor_retention :: "'a option"
  batch_combine :: bool
  local_treestate :: bool
  treestate_verify_sample :: nat
  persist_depth :: nat

definition config_new :: "'n \<Rightarrow> string \<Rightarrow> endpoint \<Rightarrow> ('n, 'a) engine_config" where
  "config_new n path e =
     \<lparr>network = n, wallet_db_path = path, cfg_endpoint = e, alternate_endpoints = [],
      wire_failover = True, fetch_streams = 4, chunk_blocks_cfg = 10000,
      memory_budget_bytes = 256 * 1024 * 1024, chunk_split_bytes = 8 * 1024 * 1024,
      scan_batch_target_ms = None, enhance_every_chunks = 3, sparse_persistence = True,
      write_behind = True, gpu_subtree = False, graft_subtree = True, graft_verify_sample = 16,
      anchor_retention = None, batch_combine = True, local_treestate = False,
      treestate_verify_sample = 1, persist_depth = 1\<rparr>"

definition validate :: "('n, 'a) engine_config \<Rightarrow> slipstream_error + unit" where
  "validate c =
     (if ep_host (cfg_endpoint c) = [] then Inl (Config ''endpoint host is empty'')
      else if fetch_streams c = 0 then Inl (Config ''fetch_streams must be >= 1'')
      else if chunk_blocks_cfg c < 100 then Inl (Config ''chunk_blocks must be >= 100'')
      else if memory_budget_bytes c < 16 * 1024 * 1024 then
        Inl (Config ''memory_budget_bytes must be >= 16 MiB'')
      else if chunk_split_bytes c < 1024 * 1024 then Inl (Config ''chunk_split_bytes must be >= 1 MiB'')
      else if (case scan_batch_target_ms c of Some ms \<Rightarrow> ms < 500 | None \<Rightarrow> False) then
        Inl (Config ''scan_batch_target_ms must be >= 500 ms'')
      else if enhance_every_chunks c = 0 then Inl (Config ''enhance_every_chunks must be >= 1'')
      else if write_behind c \<and> \<not> sparse_persistence c then
        Inl (Config ''write_behind requires sparse_persistence (the deferred commit runs the sparse put_blocks path)'')
      else if graft_subtree c \<and> \<not> sparse_persistence c then
        Inl (Config ''graft_subtree requires sparse_persistence (the graft verdict lives in the sparse build path)'')
      else if graft_subtree c \<and> \<not> write_behind c then
        Inl (Config (''graft_subtree requires write_behind (the graft plan runs in the persist lane; '' @
          ''the inline path never grafts '' @ [CHR 0xE2, CHR 0x80, CHR 0x94] @ '' v0.4 plan Task 7b rev 2)''))
      else if gpu_subtree c \<and> \<not> sparse_persistence c then
        Inl (Config ''gpu_subtree requires sparse_persistence (the GPU build replaces the sparse subtree build)'')
      else if persist_depth c = 0 \<or> persist_depth c > 64 then
        Inl (Config ''persist_depth must be in 1..=64'')
      else Inr ())"

definition SMALL_DEVICE_THRESHOLD_BYTES :: nat where "SMALL_DEVICE_THRESHOLD_BYTES = 3 * 2 ^ 30"
definition SMALL_DEVICE_MEMORY_BUDGET :: nat where "SMALL_DEVICE_MEMORY_BUDGET = 64 * 1024 * 1024"
definition SMALL_DEVICE_CHUNK_SPLIT_BYTES :: nat where "SMALL_DEVICE_CHUNK_SPLIT_BYTES = 4 * 1024 * 1024"

definition scaled_for_device_memory :: "nat \<Rightarrow> ('n, 'a) engine_config \<Rightarrow> ('n, 'a) engine_config" where
  "scaled_for_device_memory mem c =
     (if mem > 0 \<and> mem < SMALL_DEVICE_THRESHOLD_BYTES
      then c\<lparr>memory_budget_bytes := SMALL_DEVICE_MEMORY_BUDGET,
             chunk_split_bytes := SMALL_DEVICE_CHUNK_SPLIT_BYTES\<rparr>
      else c)"

section \<open>The probe\<close>

record probe_result =
  pr_endpoint :: endpoint
  pr_tip :: "nat option"
  sample_mbps :: "rat option"

definition TIP_FRESHNESS_SLACK :: nat where "TIP_FRESHNESS_SLACK = 10"
definition PROBE_SAMPLE_BLOCKS :: nat where "PROBE_SAMPLE_BLOCKS = 100"

text \<open>The ranking loop: the index of the next result, and the best so far with its rate.\<close>

fun rank_loop :: "nat \<Rightarrow> nat \<Rightarrow> (nat \<times> rat) option \<Rightarrow> probe_result list \<Rightarrow> (nat \<times> rat) option" where
  "rank_loop best_tip i chosen [] = chosen"
| "rank_loop best_tip i chosen (r # rs) =
     (case pr_tip r of
        None \<Rightarrow> rank_loop best_tip (i + 1) chosen rs
      | Some tip \<Rightarrow>
          if wrapping_add64 tip TIP_FRESHNESS_SLACK < best_tip then rank_loop best_tip (i + 1) chosen rs
          else (let rate = (case sample_mbps r of Some m \<Rightarrow> m | None \<Rightarrow> - 1)
                in case chosen of
                     Some (j, best_rate) \<Rightarrow>
                       if rate \<le> best_rate then rank_loop best_tip (i + 1) chosen rs
                       else rank_loop best_tip (i + 1) (Some (i, rate)) rs
                   | None \<Rightarrow> rank_loop best_tip (i + 1) (Some (i, rate)) rs))"

definition tips :: "probe_result list \<Rightarrow> nat list" where
  "tips rs = List.map_filter pr_tip rs"

definition rank :: "probe_result list \<Rightarrow> nat" where
  "rank rs =
     (if tips rs = [] then 0
      else (case rank_loop (Max (set (tips rs))) 0 None rs of Some (i, _) \<Rightarrow> i | None \<Rightarrow> 0))"

text \<open>
  One endpoint's probe, over what the network answers within the deadline: \<open>None\<close> where the
  connect or the tip query fails or is late; the blocks of the sample that arrive (their encoded
  sizes) until the stream ends, fails or the deadline passes, or \<open>None\<close> when the stream does not
  open; and the seconds the sample took.
\<close>

definition sample_range_bytes :: "nat list option \<Rightarrow> nat" where
  "sample_range_bytes sizes = (case sizes of None \<Rightarrow> 0 | Some ns \<Rightarrow> sum_list ns)"

definition probe_one :: "endpoint \<Rightarrow> (nat option \<times> (nat \<Rightarrow> nat \<Rightarrow> nat list option) \<times> rat) option \<Rightarrow> probe_result" where
  "probe_one e answer =
     (let r = \<lparr>pr_endpoint = e, pr_tip = None, sample_mbps = None\<rparr>
      in case answer of
           None \<Rightarrow> r
         | Some (None, _, _) \<Rightarrow> r
         | Some (Some tip, blocks, secs) \<Rightarrow>
             (let bytes = sample_range_bytes (blocks (tip - (PROBE_SAMPLE_BLOCKS - 1)) tip);
                  r' = r\<lparr>pr_tip := Some tip\<rparr>
              in if bytes > 0 \<and> secs > 0
                 then r'\<lparr>sample_mbps := Some (of_nat bytes / (1024 * 1024) / secs)\<rparr> else r'))"

record probe_outcome =
  po_results :: "probe_result list"
  po_chosen :: nat

text \<open>\<open>net\<close> gives an endpoint's answers, and \<^term>\<open>None\<close> outermost when its probe task panicked.\<close>

definition probe_endpoints ::
  "(endpoint \<Rightarrow> (nat option \<times> (nat \<Rightarrow> nat \<Rightarrow> nat list option) \<times> rat) option option) \<Rightarrow> endpoint list \<Rightarrow> probe_outcome" where
  "probe_endpoints net es =
     (let rs = map (\<lambda>e. case net e of
                          Some a \<Rightarrow> probe_one e a
                        | None \<Rightarrow> \<lparr>pr_endpoint = e, pr_tip = None, sample_mbps = None\<rparr>) es
      in \<lparr>po_results = rs, po_chosen = rank rs\<rparr>)"

text \<open>\<open>Vec::swap_remove\<close>; \<^term>\<open>None\<close> is its panic.\<close>

definition swap_remove :: "nat \<Rightarrow> 'a list \<Rightarrow> ('a \<times> 'a list) option" where
  "swap_remove i xs =
     (if i < length xs then Some (xs ! i, butlast (xs[i := last xs])) else None)"

definition with_selected_endpoint ::
  "(endpoint \<Rightarrow> (nat option \<times> (nat \<Rightarrow> nat \<Rightarrow> nat list option) \<times> rat) option option) \<Rightarrow> bool \<Rightarrow>
   ('n, 'a) engine_config \<Rightarrow> ('n, 'a) engine_config option" where
  "with_selected_endpoint net via_tor c =
     (if alternate_endpoints c = [] \<or> via_tor then Some c
      else (let es = cfg_endpoint c # alternate_endpoints c
            in case swap_remove (po_chosen (probe_endpoints net es)) es of
                 None \<Rightarrow> None
               | Some (e, _) \<Rightarrow> Some (c\<lparr>cfg_endpoint := e\<rparr>)))"

section \<open>Reading back what was written\<close>

lemma to_digit_char [simp]: "d < 10 \<Longrightarrow> to_digit (digit_char d) = Some d"
  by (simp add: to_digit_def digit_char_def)

lemma digits_u16_snoc:
  "digits_u16 m (s @ [c]) =
     (case digits_u16 m s of Inl e \<Rightarrow> Inl e | Inr v \<Rightarrow> digits_u16 v [c])"
  by (induction m s rule: digits_u16.induct) (auto split: option.split)

lemma digits_nat_str: "n < 65536 \<Longrightarrow> digits_u16 0 (nat_str n) = Inr n"
proof (induction n rule: nat_str.induct)
  case (1 n)
  show ?case
  proof (cases "n < 10")
    case True
    then show ?thesis by (simp add: nat_str.simps [of n])
  next
    case False
    with 1 have "digits_u16 0 (nat_str (n div 10)) = Inr (n div 10)" by simp
    moreover have "n div 10 * 10 + n mod 10 = n" by simp
    ultimately show ?thesis using False 1(2)
      by (simp add: nat_str.simps [of n] digits_u16_snoc)
  qed
qed

lemma digit_not: "d < 10 \<Longrightarrow> digit_char d \<noteq> CHR '':'' \<and> digit_char d \<noteq> CHR ''/'' \<and> digit_char d \<noteq> CHR ''+''"
proof -
  assume "d < 10"
  then have "of_char (digit_char d) = 48 + d" by (simp add: digit_char_def)
  then show ?thesis using \<open>d < 10\<close> by auto
qed

lemma nat_str_chars: "c \<in> set (nat_str n) \<Longrightarrow> \<exists>d < 10. c = digit_char d"
proof (induction n rule: nat_str.induct)
  case (1 n)
  show ?case
  proof (cases "c \<in> set (nat_str (n div 10)) \<and> \<not> n < 10")
    case True
    then show ?thesis using 1(1) by blast
  next
    case False
    then have "c = digit_char (n mod 10)" using 1(2) by (auto simp: nat_str.simps [of n] split: if_splits)
    then show ?thesis by (intro exI [of _ "n mod 10"]) simp
  qed
qed

lemma nat_str_nonempty [simp]: "nat_str n \<noteq> []"
  by (simp add: nat_str.simps [of n])

lemma nat_str_not:
  "CHR '':'' \<notin> set (nat_str n)" "CHR ''/'' \<notin> set (nat_str n)" "CHR ''+'' \<notin> set (nat_str n)"
  using nat_str_chars [of "CHR '':''" n] nat_str_chars [of "CHR ''/''" n] nat_str_chars [of "CHR ''+''" n]
    digit_not by metis+

lemma parse_nat_str: "n < 65536 \<Longrightarrow> parse_u16 (nat_str n) = Inr n"
proof -
  assume n: "n < 65536"
  obtain c t where s: "nat_str n = c # t" by (cases "nat_str n") auto
  then have "c \<noteq> CHR ''+''" using nat_str_not(3) [of n] by auto
  then show ?thesis using digits_nat_str [OF n] by (simp add: parse_u16_def s)
qed

lemma rsplit_colon_none: "CHR '':'' \<notin> set s \<Longrightarrow> rsplit_colon s = None"
  by (induction s) auto

lemma rsplit_colon_append: "CHR '':'' \<notin> set b \<Longrightarrow> rsplit_colon (a @ CHR '':'' # b) = Some (a, b)"
  by (induction a) (auto simp: rsplit_colon_none)

lemma rsplit_colon_some: "rsplit_colon s = Some (a, b) \<Longrightarrow> s = a @ CHR '':'' # b \<and> CHR '':'' \<notin> set b"
proof (induction s arbitrary: a)
  case (Cons c s)
  show ?case
  proof (cases "rsplit_colon s")
    case None
    have "CHR '':'' \<notin> set s" using None
    proof (induction s)
      case (Cons d s)
      then show ?case by (auto split: option.splits if_splits)
    qed simp
    then show ?thesis using Cons None by (auto split: if_splits)
  next
    case (Some ab)
    then show ?thesis using Cons by (cases ab) auto
  qed
qed simp

lemma digits_u16_bound: "digits_u16 n s = Inr v \<Longrightarrow> n \<le> 65535 \<Longrightarrow> v \<le> 65535"
  by (induction n s rule: digits_u16.induct) (auto split: option.splits if_splits)

lemma parse_u16_bound: "parse_u16 s = Inr v \<Longrightarrow> v < 65536"
proof -
  assume "parse_u16 s = Inr v"
  then obtain t where "digits_u16 0 t = Inr v"
    by (auto simp: parse_u16_def simp del: digits_u16.simps split: list.splits if_splits)
  from digits_u16_bound [OF this] show ?thesis by simp
qed

lemma parse_uri_ok:
  assumes "parse_uri s = Inr e"
  shows "ep_host e \<noteq> [] \<and> ep_port e < 65536"
proof -
  obtain tls host port p where "host \<noteq> []" "parse_u16 port = Inr p"
    and e: "e = \<lparr>ep_host = host, ep_port = p, ep_tls = tls\<rparr>"
    using assms unfolding parse_uri_def Let_def
    by (simp split: option.split_asm prod.split_asm if_split_asm sum.split_asm) metis+
  then show ?thesis using parse_u16_bound by simp
qed



section \<open>What a valid configuration is\<close>

text \<open>
  A configuration is accepted exactly when every limit and every dependency between its switches
  holds; the defaults with a host name are accepted, and so is what the memory scaling makes of an
  accepted configuration.
\<close>

definition config_ok :: "('n, 'a) engine_config \<Rightarrow> bool" where
  "config_ok c \<longleftrightarrow> ep_host (cfg_endpoint c) \<noteq> [] \<and> fetch_streams c \<ge> 1 \<and> chunk_blocks_cfg c \<ge> 100 \<and>
     memory_budget_bytes c \<ge> 16777216 \<and> chunk_split_bytes c \<ge> 1048576 \<and>
     (\<forall>ms. scan_batch_target_ms c = Some ms \<longrightarrow> ms \<ge> 500) \<and> enhance_every_chunks c \<ge> 1 \<and>
     (write_behind c \<or> graft_subtree c \<or> gpu_subtree c \<longrightarrow> sparse_persistence c) \<and>
     (graft_subtree c \<longrightarrow> write_behind c) \<and> persist_depth c \<in> {1..64}"

lemma validate_iff: "validate c = Inr () \<longleftrightarrow> config_ok c"
  by (auto simp: validate_def config_ok_def split: option.splits if_splits)

lemma validate_config_error: "validate c = Inl e \<Longrightarrow> \<exists>m. e = Config m"
  by (auto simp: validate_def split: option.splits if_splits)

theorem validate_exactly:
  "(validate c = Inr () \<longleftrightarrow> config_ok c) \<and>
   (validate c = Inr () \<longrightarrow> validate (scaled_for_device_memory mem c) = Inr () \<and>
      memory_budget_bytes (scaled_for_device_memory mem c) \<le> max (memory_budget_bytes c) SMALL_DEVICE_MEMORY_BUDGET)"
  by (auto simp: validate_iff config_ok_def scaled_for_device_memory_def SMALL_DEVICE_MEMORY_BUDGET_def
      SMALL_DEVICE_CHUNK_SPLIT_BYTES_def)

theorem validate_exactly_witness:
  "validate (scaled_for_device_memory 1000
     (config_new () ''w'' \<lparr>ep_host = ''h'', ep_port = 1, ep_tls = True\<rparr> :: (unit, unit) engine_config)) = Inr ()"
proof -
  let ?c = "config_new () ''w'' \<lparr>ep_host = ''h'', ep_port = 1, ep_tls = True\<rparr> :: (unit, unit) engine_config"
  have "validate ?c = Inr ()" by (simp add: validate_iff config_ok_def config_new_def)
  then show ?thesis using validate_exactly [of ?c 1000] by blast
qed

section \<open>The ranking\<close>

definition qualifies :: "nat \<Rightarrow> probe_result \<Rightarrow> bool" where
  "qualifies best r \<longleftrightarrow> (\<exists>tip. pr_tip r = Some tip \<and> best \<le> wrapping_add64 tip TIP_FRESHNESS_SLACK)"

definition rate_of :: "probe_result \<Rightarrow> rat" where
  "rate_of r = (case sample_mbps r of Some m \<Rightarrow> m | None \<Rightarrow> - 1)"

text \<open>\<open>j\<close> is the first position of the best rate among the qualified results of \<open>rs\<close>.\<close>

definition best_at :: "nat \<Rightarrow> probe_result list \<Rightarrow> nat \<Rightarrow> bool" where
  "best_at best rs j \<longleftrightarrow> j < length rs \<and> qualifies best (rs ! j) \<and>
     (\<forall>i < length rs. qualifies best (rs ! i) \<longrightarrow> rate_of (rs ! i) \<le> rate_of (rs ! j)) \<and>
     (\<forall>i < j. qualifies best (rs ! i) \<longrightarrow> rate_of (rs ! i) < rate_of (rs ! j))"

lemma rank_loop_step:
  "rank_loop best i chosen (r # rs) =
     rank_loop best (i + 1)
       (if qualifies best r \<and> (case chosen of None \<Rightarrow> True | Some (_, b) \<Rightarrow> b < rate_of r)
        then Some (i, rate_of r) else chosen) rs"
  by (auto simp: qualifies_def rate_of_def Let_def split: option.splits prod.splits)

declare rank_loop.simps [simp del]

lemma rank_loop_inv:
  assumes "length pre = i"
    and "case chosen of None \<Rightarrow> \<forall>r \<in> set pre. \<not> qualifies best r
         | Some (j, b) \<Rightarrow> best_at best pre j \<and> b = rate_of (pre ! j)"
  shows "case rank_loop best i chosen rs of None \<Rightarrow> \<forall>r \<in> set (pre @ rs). \<not> qualifies best r
         | Some (j, b) \<Rightarrow> best_at best (pre @ rs) j \<and> b = rate_of ((pre @ rs) ! j)"
  using assms
proof (induction rs arbitrary: pre i chosen)
  case (Cons r rs)
  let ?c = "if qualifies best r \<and> (case chosen of None \<Rightarrow> True | Some (_, b) \<Rightarrow> b < rate_of r)
        then Some (i, rate_of r) else chosen"
  have "case ?c of None \<Rightarrow> \<forall>r \<in> set (pre @ [r]). \<not> qualifies best r
         | Some (j, b) \<Rightarrow> best_at best (pre @ [r]) j \<and> b = rate_of ((pre @ [r]) ! j)"
  proof (cases chosen)
    case None
    then have "\<forall>k < length pre. \<not> qualifies best (pre ! k)" using Cons.prems(2) by simp
    then show ?thesis using None Cons.prems
      by (auto simp: best_at_def nth_append less_Suc_eq)
  next
    case (Some jb)
    then obtain j b where jb: "chosen = Some (j, b)" by (cases jb) auto
    then have inv: "best_at best pre j" "b = rate_of (pre ! j)" using Cons.prems(2) by auto
    then have below: "\<forall>k < length pre. qualifies best (pre ! k) \<longrightarrow> rate_of (pre ! k) \<le> b"
      and "j < length pre" by (auto simp: best_at_def)
    then show ?thesis using inv jb Cons.prems(1)
      by (cases "qualifies best r \<and> b < rate_of r")
        (auto simp: best_at_def nth_append less_Suc_eq not_less intro: order.strict_trans1)
  qed
  from Cons.IH [OF _ this, of "i + 1"] Cons.prems(1) show ?case
    unfolding rank_loop_step by (simp only: append.assoc append.simps length_append list.size One_nat_def add_0_right add_Suc_right)
qed (simp only: rank_loop.simps append_Nil2)

lemma best_tip_qualifies:
  assumes "tips rs \<noteq> []" and "\<forall>t \<in> set (tips rs). t + TIP_FRESHNESS_SLACK \<le> u64_max"
  shows "\<exists>r \<in> set rs. qualifies (Max (set (tips rs))) r"
proof -
  have "Max (set (tips rs)) \<in> set (tips rs)" using assms(1) by simp
  then obtain r where r: "r \<in> set rs" "pr_tip r = Some (Max (set (tips rs)))"
    by (auto simp: tips_def List.map_filter_def)
  then have "Max (set (tips rs)) \<le> wrapping_add64 (Max (set (tips rs))) TIP_FRESHNESS_SLACK"
    using assms by (simp add: wrapping_add64_small)
  with r show ?thesis by (auto simp: qualifies_def)
qed

lemma rank_loop_spec:
  "case rank_loop best 0 None rs of None \<Rightarrow> \<forall>r \<in> set rs. \<not> qualifies best r
     | Some (j, b) \<Rightarrow> best_at best rs j \<and> b = rate_of (rs ! j)"
  using rank_loop_inv [where pre = "[]" and i = 0 and chosen = None and best = best and rs = rs]
  unfolding append_Nil by simp

lemma rank_less: "rs \<noteq> [] \<Longrightarrow> rank rs < length rs"
  using rank_loop_spec [where best = "Max (set (tips rs))" and rs = rs]
  by (auto simp: rank_def best_at_def split: option.splits prod.splits)

text \<open>
  The ranking picks, among the endpoints whose tip is fresh, the one with the best measured rate,
  the first in configured order on a tie; the preferred endpoint when none answered.
\<close>

theorem rank_picks_best:
  assumes "\<forall>t \<in> set (tips rs). t + TIP_FRESHNESS_SLACK \<le> u64_max"
  shows "if tips rs = [] then rank rs = 0 else best_at (Max (set (tips rs))) rs (rank rs)"
proof (cases "tips rs = []")
  case True
  then show ?thesis by (simp add: rank_def)
next
  case False
  then show ?thesis using best_tip_qualifies [OF False assms(1)] rank_loop_spec [where best = "Max (set (tips rs))" and rs = rs]
    by (auto simp: rank_def split: option.splits prod.splits)
qed

definition demo_endpoint :: endpoint where
  "demo_endpoint = \<lparr>ep_host = ''h'', ep_port = 1, ep_tls = True\<rparr>"

definition demo_results :: "probe_result list" where
  "demo_results = [\<lparr>pr_endpoint = demo_endpoint, pr_tip = Some 100, sample_mbps = Some 1\<rparr>,
     \<lparr>pr_endpoint = demo_endpoint, pr_tip = Some 95, sample_mbps = Some 4\<rparr>,
     \<lparr>pr_endpoint = demo_endpoint, pr_tip = Some 20, sample_mbps = Some 9\<rparr>]"

theorem rank_picks_best_witness:
  "tips demo_results = [100, 95, 20] \<and> best_at 100 demo_results (rank demo_results) \<and> rank demo_results = 1"
proof -
  have t: "tips demo_results = [100, 95, 20]"
    by (simp add: tips_def demo_results_def List.map_filter_simps)
  have "best_at 100 demo_results (rank demo_results)"
    using rank_picks_best [of demo_results] by (simp add: t u64_max_def TIP_FRESHNESS_SLACK_def)
  moreover have "rank demo_results = 1"
    by (simp add: rank_def t) (simp add: demo_results_def rank_loop.simps TIP_FRESHNESS_SLACK_def
        wrapping_add64_def u64_max_def)
  ultimately show ?thesis using t by blast
qed

text \<open>
  The endpoint committed for a pass is one of the configured ones: the selection always returns,
  changes nothing but the endpoint, and changes nothing at all on a Tor pass or without alternates.
\<close>

theorem selection_commits_configured_endpoint:
  "case with_selected_endpoint net via_tor c of
     None \<Rightarrow> False
   | Some c' \<Rightarrow> c' = c\<lparr>cfg_endpoint := cfg_endpoint c'\<rparr> \<and>
       (if via_tor \<or> alternate_endpoints c = [] then c' = c
        else cfg_endpoint c' \<in> set (cfg_endpoint c # alternate_endpoints c))"
proof -
  let ?es = "cfg_endpoint c # alternate_endpoints c"
  have "po_chosen (probe_endpoints net ?es) < length ?es"
    unfolding probe_endpoints_def Let_def
    by (metis (no_types, lifting) length_map list.discI list.map_disc_iff probe_outcome.select_convs(2) rank_less)
  moreover from this have "?es ! po_chosen (probe_endpoints net ?es) \<in> set ?es" by (rule nth_mem)
  ultimately show ?thesis by (simp add: with_selected_endpoint_def swap_remove_def Let_def)
qed

end
