(* ===== verification/Slip_Fence.thy ===== *)
theory Slip_Fence
  imports Slip_Prelude
begin

text \<open>
  The process-wide account of decryption fences (\<open>src/core/src/scan.rs\<close>, \<open>DecryptionFence\<close>).
  A stop for a wallet change leaves trial decryption queued, so the next scan of the process owes
  a wait.  The wait is asynchronous: any number of sessions may be inside \<open>wait_if_owed\<close> at once,
  requests arrive while they wait, and a wait may be aborted.  The inductive relation \<open>fence_run\<close>
  generates every interleaving as a trace of events, with the account and the waits in flight,
  each of which remembers the request count it read before it started.
\<close>

record decryption_fence =
  requests :: nat
  paid :: nat

definition fence_new :: decryption_fence where
  "fence_new = \<lparr>requests = 0, paid = 0\<rparr>"

definition owe :: "decryption_fence \<Rightarrow> decryption_fence" where
  "owe f = f\<lparr>requests := wrapping_add64 (requests f) 1\<rparr>"

definition owed :: "decryption_fence \<Rightarrow> nat option" where
  "owed f = (if requests f \<noteq> paid f then Some (requests f) else None)"

text \<open>
  \<open>wait_if_owed\<close> in its two atomic parts: the check before the wait, which is \<open>owed\<close>, and the
  payment after it.  An abort drops the future at the \<open>await\<close> between them.
\<close>

definition pay :: "nat \<Rightarrow> decryption_fence \<Rightarrow> decryption_fence" where
  "pay r f = f\<lparr>paid := max (paid f) r\<rparr>"

section \<open>Interleavings\<close>

datatype fence_event = FOwe | FStart nat | FDone nat | FAbort nat

text \<open>Traces are kept newest event first; a wait has a number of its own.\<close>

inductive fence_run :: "fence_event list \<Rightarrow> decryption_fence \<Rightarrow> (nat \<times> nat) list \<Rightarrow> bool" where
  fr_new: "fence_run [] fence_new []"
| fr_owe: "fence_run tr f ws \<Longrightarrow> requests f < u64_max \<Longrightarrow> fence_run (FOwe # tr) (owe f) ws"
| fr_start: "fence_run tr f ws \<Longrightarrow> owed f = Some r \<Longrightarrow> FStart w \<notin> set tr \<Longrightarrow>
    fence_run (FStart w # tr) f ((w, r) # ws)"
| fr_done: "fence_run tr f ws \<Longrightarrow> (w, r) \<in> set ws \<Longrightarrow>
    fence_run (FDone w # tr) (pay r f) (remove1 (w, r) ws)"
| fr_abort: "fence_run tr f ws \<Longrightarrow> (w, r) \<in> set ws \<Longrightarrow>
    fence_run (FAbort w # tr) f (remove1 (w, r) ws)"

text \<open>
  In the trace, wait \<open>w\<close> started when \<open>c\<close> requests had been made; and it then ran to completion.
\<close>

definition started_at :: "fence_event list \<Rightarrow> nat \<Rightarrow> nat \<Rightarrow> bool" where
  "started_at tr w c \<longleftrightarrow> (\<exists>p q. tr = p @ FStart w # q \<and> c = count_list q FOwe)"

definition completed :: "fence_event list \<Rightarrow> nat \<Rightarrow> nat \<Rightarrow> bool" where
  "completed tr w c \<longleftrightarrow> (\<exists>p q. tr = p @ FStart w # q \<and> c = count_list q FOwe \<and> FDone w \<in> set p)"

text \<open>
  The specification: there is a request after which no wait started and ran to completion.
\<close>

definition unanswered :: "fence_event list \<Rightarrow> bool" where
  "unanswered tr \<longleftrightarrow>
     (\<exists>later earlier. tr = later @ FOwe # earlier \<and> (\<nexists>w c. completed later w c))"

lemma started_at_Cons:
  "started_at (e # tr) w c \<longleftrightarrow> started_at tr w c \<or> (e = FStart w \<and> c = count_list tr FOwe)"
  unfolding started_at_def by (auto simp: Cons_eq_append_conv)

lemma completed_Cons:
  "completed (e # tr) w c \<longleftrightarrow> completed tr w c \<or> (e = FDone w \<and> started_at tr w c)"
  unfolding completed_def started_at_def by (auto simp: Cons_eq_append_conv) (metis list.set_intros)+

lemma started_at_mem: "started_at tr w c \<Longrightarrow> FStart w \<in> set tr"
  by (auto simp: started_at_def)

definition fence_inv :: "fence_event list \<Rightarrow> decryption_fence \<Rightarrow> (nat \<times> nat) list \<Rightarrow> bool" where
  "fence_inv tr f ws \<longleftrightarrow>
     requests f = count_list tr FOwe \<and> requests f \<le> u64_max \<and> paid f \<le> requests f \<and>
     (\<forall>w c c'. started_at tr w c \<longrightarrow> started_at tr w c' \<longrightarrow> c = c') \<and>
     (\<forall>w r. (w, r) \<in> set ws \<longrightarrow> started_at tr w r \<and> r \<le> requests f) \<and>
     (\<forall>w c. completed tr w c \<longrightarrow> c \<le> paid f) \<and>
     (paid f = 0 \<or> (\<exists>w. completed tr w (paid f)))"

lemmas fence_defs = owe_def owed_def pay_def started_at_Cons completed_Cons

lemma fence_run_inv: "fence_run tr f ws \<Longrightarrow> fence_inv tr f ws"
proof (induction rule: fence_run.induct)
  case fr_new
  show ?case
    by (simp add: fence_inv_def fence_new_def started_at_def completed_def u64_max_def)
next
  case (fr_owe tr f ws)
  then show ?case
    by (fastforce simp: fence_inv_def fence_defs wrapping_add64_small)
next
  case (fr_start tr f ws r w)
  then show ?case
    by (auto simp: fence_inv_def fence_defs split: if_splits dest: started_at_mem)
next
  case (fr_done tr f ws w r)
  then have inv: "fence_inv tr f ws" and w: "started_at tr w r" "r \<le> requests f"
    by (auto simp: fence_inv_def)
  have sub: "set (remove1 (w, r) ws) \<subseteq> set ws" by (rule set_remove1_subset)
  have done_le: "c \<le> max (paid f) r" if "completed (FDone w # tr) w' c" for w' c
    using that inv w by (fastforce simp: fence_inv_def completed_Cons le_max_iff_disj)
  have ex: "max (paid f) r = 0 \<or> (\<exists>w'. completed (FDone w # tr) w' (max (paid f) r))"
    using inv w by (auto simp: fence_inv_def completed_Cons max_def)
  show ?case
    unfolding fence_inv_def
    using inv w sub done_le ex by (auto simp: fence_inv_def pay_def started_at_Cons)
next
  case (fr_abort tr f ws w r)
  have "set (remove1 (w, r) ws) \<subseteq> set ws" by (rule set_remove1_subset)
  with fr_abort show ?case by (auto simp: fence_inv_def started_at_Cons completed_Cons)
qed

lemma paid_behind_unanswered:
  assumes inv: "fence_inv tr f ws" and less: "paid f < requests f"
  shows "unanswered tr"
proof -
  have "FOwe \<in> set tr" using inv less by (metis count_notin fence_inv_def not_less_zero)
  then obtain p q where tr: "tr = p @ FOwe # q" and p: "FOwe \<notin> set p" by (metis split_list_first)
  have "\<not> completed p w c" for w c
  proof
    assume "completed p w c"
    then obtain a b where ab: "p = a @ FStart w # b" "FDone w \<in> set a" by (auto simp: completed_def)
    have "tr = a @ FStart w # (b @ FOwe # q)" using tr ab by simp
    then have "completed tr w (count_list (b @ FOwe # q) FOwe)"
      using ab unfolding completed_def by blast
    moreover have "count_list (b @ FOwe # q) FOwe = requests f"
      using inv tr ab p by (simp add: fence_inv_def)
    ultimately have "requests f \<le> paid f" using inv by (metis fence_inv_def)
    then show False using less by simp
  qed
  then show ?thesis using tr by (auto simp: unanswered_def)
qed

lemma unanswered_paid_behind:
  assumes inv: "fence_inv tr f ws" and un: "unanswered tr"
  shows "paid f < requests f"
proof (rule ccontr)
  assume "\<not> paid f < requests f"
  then have eq: "paid f = requests f" using inv by (simp add: fence_inv_def)
  from un obtain l e where tr: "tr = l @ FOwe # e" and l: "\<nexists>w c. completed l w c"
    by (auto simp: unanswered_def)
  have "paid f \<noteq> 0" using eq inv tr by (simp add: fence_inv_def)
  then obtain w p q where w: "tr = p @ FStart w # q" "FDone w \<in> set p" "count_list q FOwe = requests f"
    using inv eq by (auto simp: fence_inv_def completed_def)
  have "count_list p FOwe = 0" using inv w by (simp add: fence_inv_def)
  then have p: "FOwe \<notin> set p" by (simp add: count_list_0_iff)
  from tr w have "l @ FOwe # e = p @ FStart w # q" by simp
  then obtain us where "l = p @ us \<and> us @ FOwe # e = FStart w # q \<or> l @ us = p \<and> FOwe # e = us @ FStart w # q"
    by (auto simp: append_eq_append_conv2)
  then show False
  proof
    assume "l = p @ us \<and> us @ FOwe # e = FStart w # q"
    then obtain us' where "l = p @ FStart w # us'" by (cases us) auto
    with w l show False by (auto simp: completed_def)
  next
    assume "l @ us = p \<and> FOwe # e = us @ FStart w # q"
    with p show False by (cases us) auto
  qed
qed

text \<open>
  C15.  No stop request is ever forgotten and no fence is owed without one.  After any
  interleaving of requests, waits starting, waits completing and waits being aborted, a fence is
  owed exactly when there is a request after which no wait started and ran to completion: a
  request made while a fence waits stays owed, an aborted fence pays nothing, and a wait that
  completes late never moves the payment back.
\<close>

theorem fence_owed_exactly:
  assumes "fence_run tr f ws"
  shows "owed f \<noteq> None \<longleftrightarrow> unanswered tr"
proof -
  note inv = fence_run_inv [OF assms]
  have "owed f \<noteq> None \<longleftrightarrow> paid f < requests f"
    using inv by (auto simp: fence_inv_def owed_def)
  then show ?thesis using paid_behind_unanswered [OF inv] unanswered_paid_behind [OF inv] by blast
qed

text \<open>Wait 7 read request 1, was overtaken by request 2, and completed: a fence is still owed.\<close>

lemma demo_fence_run:
  "fence_run [FDone 7, FOwe, FStart 7, FOwe] (pay 1 (owe (owe fence_new))) []"
proof -
  have 1: "fence_run [FOwe] (owe fence_new) []"
    by (intro fr_owe fr_new) (simp add: fence_new_def u64_max_def)
  have 2: "fence_run [FStart 7, FOwe] (owe fence_new) [(7, 1)]"
    by (rule fr_start [OF 1])
      (simp_all add: owed_def owe_def fence_new_def wrapping_add64_small u64_max_def)
  have 3: "fence_run [FOwe, FStart 7, FOwe] (owe (owe fence_new)) [(7, 1)]"
    by (rule fr_owe [OF 2]) (simp add: owe_def fence_new_def wrapping_add64_small u64_max_def)
  show ?thesis using fr_done [OF 3, of 7 1] by simp
qed

theorem fence_owed_exactly_witness:
  "owed (pay 1 (owe (owe fence_new))) \<noteq> None \<and> unanswered [FDone 7, FOwe, FStart 7, FOwe]"
proof -
  have "owed (pay 1 (owe (owe fence_new))) = Some 2"
    by (simp add: owed_def pay_def owe_def fence_new_def wrapping_add64_small u64_max_def)
  then show ?thesis using fence_owed_exactly [OF demo_fence_run] by simp
qed

end
