(* ===== verification/Slip_Progress.thy ===== *)
theory Slip_Progress
  imports Slip_Fence
begin

text \<open>
  The shared progress object (\<open>src/core/src/events.rs\<close>, \<open>Progress\<close>): the atomic counters that
  every part of the engine writes and the host polls, the runs of block-download give-ups that
  the stall clock is derived from, the wallet-change stop request and the wallet-writer count.

  Every atomic is a field of the record \<open>progress\<close>; one atomic operation is one update, a
  \<open>fetch_add\<close> wraps at 64 bits, and \<open>unix_now_secs\<close> is the argument \<open>now\<close>.  The getters of
  the source are the record's selectors.  The map of give-up runs is the ordered map of
  \<^theory_text>\<open>Slip_Prelude\<close>, since the eviction depends on its iteration order.
\<close>

section \<open>State\<close>

definition DOWNLOAD_FAILURE_STALL_STREAK :: nat where "DOWNLOAD_FAILURE_STALL_STREAK = 2"
definition DOWNLOAD_FAILURE_RUN_GAP_SECS :: nat where "DOWNLOAD_FAILURE_RUN_GAP_SECS = 600"
definition MAX_DOWNLOAD_FAILURE_RUNS :: nat where "MAX_DOWNLOAD_FAILURE_RUNS = 8"
definition FLOOR_REBASELINE_EPSILON_PERMILLE :: nat where "FLOOR_REBASELINE_EPSILON_PERMILLE = 50"

record download_failure =
  streak :: nat
  at_height :: nat
  since_unix :: nat
  last_unix :: nat

record progress =
  chain_tip :: nat
  fetched_blocks :: nat
  scanned_blocks :: nat
  enhanced_txs :: nat
  current_range_end :: nat
  reorgs_recovered :: nat
  pass_total_blocks :: nat
  spendable_hint :: nat
  ranges_completed :: nat
  recovering_flag :: nat
  last_progress_unix :: nat
  progress_permille_floor :: nat
  pass_start :: nat
  pass_base_fetched :: nat
  pass_base_scanned :: nat
  tip_refreshes :: nat
  tx_set_version :: nat
  wallet_writers :: nat
  download_failures :: "(nat \<times> download_failure) list"
  gave_up_this_attempt :: bool
  stop_requests :: nat
  session_stop_requests :: nat

definition progress_default :: progress where
  "progress_default =
     \<lparr> chain_tip = 0, fetched_blocks = 0, scanned_blocks = 0, enhanced_txs = 0,
       current_range_end = 0, reorgs_recovered = 0, pass_total_blocks = 0, spendable_hint = 0,
       ranges_completed = 0, recovering_flag = 0, last_progress_unix = 0,
       progress_permille_floor = 0, pass_start = u64_max, pass_base_fetched = 0,
       pass_base_scanned = 0, tip_refreshes = 0, tx_set_version = 0, wallet_writers = 0,
       download_failures = [], gave_up_this_attempt = False, stop_requests = 0,
       session_stop_requests = 0 \<rparr>"

section \<open>Counters and setters\<close>

definition touch :: "nat \<Rightarrow> progress \<Rightarrow> progress" where
  "touch now p = p\<lparr>last_progress_unix := now\<rparr>"

definition add_fetched :: "nat \<Rightarrow> nat \<Rightarrow> progress \<Rightarrow> progress" where
  "add_fetched n now p = touch now (p\<lparr>fetched_blocks := wrapping_add64 (fetched_blocks p) n\<rparr>)"

definition add_scanned :: "nat \<Rightarrow> nat \<Rightarrow> progress \<Rightarrow> progress" where
  "add_scanned n now p = touch now (p\<lparr>scanned_blocks := wrapping_add64 (scanned_blocks p) n\<rparr>)"

definition add_enhanced :: "nat \<Rightarrow> nat \<Rightarrow> progress \<Rightarrow> progress" where
  "add_enhanced n now p = touch now (p\<lparr>enhanced_txs := wrapping_add64 (enhanced_txs p) n\<rparr>)"

definition set_chain_tip :: "nat \<Rightarrow> progress \<Rightarrow> progress" where
  "set_chain_tip tip p = p\<lparr>chain_tip := tip\<rparr>"

definition note_tip_refreshed :: "progress \<Rightarrow> progress" where
  "note_tip_refreshed p = p\<lparr>tip_refreshes := wrapping_add64 (tip_refreshes p) 1\<rparr>"

definition bump_tx_set_version :: "nat \<Rightarrow> progress \<Rightarrow> progress" where
  "bump_tx_set_version now p =
     touch now (p\<lparr>tx_set_version := wrapping_add64 (tx_set_version p) 1\<rparr>)"

definition set_range_end :: "nat \<Rightarrow> progress \<Rightarrow> progress" where
  "set_range_end e p = p\<lparr>current_range_end := e\<rparr>"

definition add_reorg :: "progress \<Rightarrow> progress" where
  "add_reorg p = p\<lparr>reorgs_recovered := wrapping_add64 (reorgs_recovered p) 1\<rparr>"

definition set_pass_total :: "nat \<Rightarrow> progress \<Rightarrow> progress" where
  "set_pass_total n p = p\<lparr>pass_total_blocks := n\<rparr>"

definition add_pass_total :: "nat \<Rightarrow> progress \<Rightarrow> progress" where
  "add_pass_total n p = p\<lparr>pass_total_blocks := n\<rparr>"

definition set_spendable :: "progress \<Rightarrow> progress" where
  "set_spendable p = p\<lparr>spendable_hint := 1\<rparr>"

definition add_ranges_completed :: "nat \<Rightarrow> progress \<Rightarrow> progress" where
  "add_ranges_completed now p =
     touch now (p\<lparr>ranges_completed := wrapping_add64 (ranges_completed p) 1\<rparr>)"

definition set_recovering :: "bool \<Rightarrow> progress \<Rightarrow> progress" where
  "set_recovering b p = p\<lparr>recovering_flag := (if b then 1 else 0)\<rparr>"

definition recovering :: "progress \<Rightarrow> bool" where
  "recovering p \<longleftrightarrow> recovering_flag p \<noteq> 0"

definition begin_pass :: "nat \<Rightarrow> progress \<Rightarrow> progress" where
  "begin_pass now p =
     touch now (p\<lparr>scanned_blocks := 0, fetched_blocks := 0, pass_total_blocks := 0,
                  current_range_end := 0, spendable_hint := 0, pass_start := u64_max,
                  pass_base_fetched := 0, pass_base_scanned := 0\<rparr>)"

section \<open>The runs of download give-ups\<close>

text \<open>The first of the values with the least \<open>last_unix\<close>, as \<open>Iterator::min_by_key\<close> picks it.\<close>

fun least_recent :: "download_failure list \<Rightarrow> download_failure option" where
  "least_recent [] = None"
| "least_recent (r # rs) =
     (case least_recent rs of None \<Rightarrow> Some r
      | Some r' \<Rightarrow> if last_unix r \<le> last_unix r' then Some r else Some r')"

definition next_run :: "(nat \<times> download_failure) list \<Rightarrow> nat \<Rightarrow> nat \<Rightarrow> download_failure" where
  "next_run runs h now =
     (let fresh = \<lparr>streak = 1, at_height = h, since_unix = now, last_unix = now\<rparr> in
      case map_of runs h of
        Some run \<Rightarrow>
          if now - last_unix run \<le> DOWNLOAD_FAILURE_RUN_GAP_SECS
          then run\<lparr>streak := saturating_add32 (streak run) 1, last_unix := now\<rparr>
          else fresh
      | None \<Rightarrow> fresh)"

definition evict_run :: "nat \<Rightarrow> (nat \<times> download_failure) list \<Rightarrow> (nat \<times> download_failure) list" where
  "evict_run h runs =
     (if length runs > MAX_DOWNLOAD_FAILURE_RUNS
      then (case least_recent (filter (\<lambda>r. at_height r \<noteq> h) (map snd runs)) of
              Some r \<Rightarrow> bt_remove (at_height r) runs
            | None \<Rightarrow> runs)
      else runs)"

definition note_download_gave_up_at :: "nat \<Rightarrow> nat \<Rightarrow> progress \<Rightarrow> progress" where
  "note_download_gave_up_at h now p =
     (let run = next_run (download_failures p) h now;
          runs = evict_run h (bt_insert h run (download_failures p))
      in p\<lparr>download_failures := runs, gave_up_this_attempt := True\<rparr>)"

definition clear_download_failures :: "progress \<Rightarrow> progress" where
  "clear_download_failures p = p\<lparr>download_failures := []\<rparr>"

definition note_pass_completed :: "progress \<Rightarrow> progress" where
  "note_pass_completed p = clear_download_failures (p\<lparr>gave_up_this_attempt := False\<rparr>)"

definition note_attempt_failed :: "progress \<Rightarrow> progress" where
  "note_attempt_failed p =
     (let p' = p\<lparr>gave_up_this_attempt := False\<rparr>
      in if gave_up_this_attempt p then p' else clear_download_failures p')"

definition note_blocks_released :: "nat \<Rightarrow> nat \<Rightarrow> progress \<Rightarrow> progress" where
  "note_blocks_released a b p =
     (if a > b then p
      else (let covered = filter (\<lambda>h. a \<le> h \<and> h \<le> b) (map fst (download_failures p))
            in p\<lparr>download_failures := foldr bt_remove covered (download_failures p)\<rparr>))"

definition download_failure_secs :: "nat \<Rightarrow> progress \<Rightarrow> nat" where
  "download_failure_secs now p =
     foldr max
       (map (\<lambda>run. now - since_unix run)
         (filter (\<lambda>run. now - last_unix run \<le> DOWNLOAD_FAILURE_RUN_GAP_SECS)
           (filter (\<lambda>run. streak run \<ge> DOWNLOAD_FAILURE_STALL_STREAK)
             (map snd (download_failures p))))) 0"

definition stall_secs :: "nat \<Rightarrow> progress \<Rightarrow> nat" where
  "stall_secs now p =
     (let last = last_progress_unix p;
          since_progress = (if last = 0 then 0 else now - last)
      in max since_progress (download_failure_secs now p))"

section \<open>The session floor and the pass start\<close>

definition permille_floor :: "nat \<Rightarrow> progress \<Rightarrow> progress \<times> nat" where
  "permille_floor raw p =
     (let p' = p\<lparr>progress_permille_floor := max (progress_permille_floor p) (min raw 1000)\<rparr>
      in (p', progress_permille_floor p'))"

definition scope_expanded :: "nat \<Rightarrow> progress \<Rightarrow> bool" where
  "scope_expanded seed p \<longleftrightarrow>
     saturating_add64 seed FLOOR_REBASELINE_EPSILON_PERMILLE < progress_permille_floor p"

definition rebaseline_floor_if_scope_expanded :: "nat \<Rightarrow> progress \<Rightarrow> progress \<times> bool" where
  "rebaseline_floor_if_scope_expanded seed p =
     (if scope_expanded seed p then (p\<lparr>progress_permille_floor := min seed 1000\<rparr>, True)
      else (p, False))"

definition pass_start_permille :: "progress \<Rightarrow> nat option" where
  "pass_start_permille p = (if pass_start p = u64_max then None else Some (pass_start p))"

definition set_pass_start_permille_if_unset :: "nat \<Rightarrow> progress \<Rightarrow> progress" where
  "set_pass_start_permille_if_unset seed p =
     (if pass_start p = u64_max then p\<lparr>pass_start := min seed 1000\<rparr> else p)"

definition set_pass_start_permille :: "nat \<Rightarrow> progress \<Rightarrow> progress" where
  "set_pass_start_permille seed p = p\<lparr>pass_start := min seed 1000\<rparr>"

definition set_pass_baseline :: "nat \<Rightarrow> nat \<Rightarrow> progress \<Rightarrow> progress" where
  "set_pass_baseline f s p = p\<lparr>pass_base_fetched := f, pass_base_scanned := s\<rparr>"

section \<open>Stopping for a wallet change, and the wallet writers\<close>

definition begin_session :: "progress \<Rightarrow> progress" where
  "begin_session p =
     (let p' = clear_download_failures (p\<lparr>gave_up_this_attempt := False\<rparr>)
      in p'\<lparr>session_stop_requests := stop_requests p'\<rparr>)"

text \<open>The request also owes the process-wide decryption fence.\<close>

definition request_stop_for_wallet_change ::
  "progress \<times> decryption_fence \<Rightarrow> progress \<times> decryption_fence" where
  "request_stop_for_wallet_change s =
     (case s of (p, f) \<Rightarrow> (p\<lparr>stop_requests := wrapping_add64 (stop_requests p) 1\<rparr>, owe f))"

definition stop_requested :: "progress \<Rightarrow> bool" where
  "stop_requested p \<longleftrightarrow> stop_requests p \<noteq> session_stop_requests p"

definition gate_hold :: "progress \<Rightarrow> progress" where
  "gate_hold p = p\<lparr>wallet_writers := wrapping_add64 (wallet_writers p) 1\<rparr>"

definition gate_drop :: "progress \<Rightarrow> progress" where
  "gate_drop p = p\<lparr>wallet_writers := wrapping_sub64 (wallet_writers p) 1\<rparr>"

section \<open>Sequences of calls\<close>

text \<open>
  The object is shared: its history is a sequence of method calls, in the order in which their
  atomic updates take effect.
\<close>

datatype progress_call =
    CTouch nat | CFetched nat nat | CScanned nat nat | CEnhanced nat nat | CTip nat | CTipRefreshed
  | CTxSet nat | CRangeEnd nat | CReorg | CPassTotal nat | CAddPassTotal nat | CSpendable | CRangeDone nat
  | CRecovering bool | CBeginPass nat | CGaveUp nat nat | CPassCompleted | CAttemptFailed
  | CReleased nat nat | CFloor nat | CRebaseline nat | CPassStartIfUnset nat | CPassStart nat
  | CBaseline nat nat | CBeginSession | CRequestStop | CHold | CDrop

fun apply_call :: "progress_call \<Rightarrow> progress \<times> decryption_fence \<Rightarrow> progress \<times> decryption_fence" where
  "apply_call (CTouch now) (p, f) = (touch now p, f)"
| "apply_call (CFetched n now) (p, f) = (add_fetched n now p, f)"
| "apply_call (CScanned n now) (p, f) = (add_scanned n now p, f)"
| "apply_call (CEnhanced n now) (p, f) = (add_enhanced n now p, f)"
| "apply_call (CTip t) (p, f) = (set_chain_tip t p, f)"
| "apply_call CTipRefreshed (p, f) = (note_tip_refreshed p, f)"
| "apply_call (CTxSet now) (p, f) = (bump_tx_set_version now p, f)"
| "apply_call (CRangeEnd e) (p, f) = (set_range_end e p, f)"
| "apply_call CReorg (p, f) = (add_reorg p, f)"
| "apply_call (CPassTotal n) (p, f) = (set_pass_total n p, f)"
| "apply_call (CAddPassTotal n) (p, f) = (add_pass_total n p, f)"
| "apply_call CSpendable (p, f) = (set_spendable p, f)"
| "apply_call (CRangeDone now) (p, f) = (add_ranges_completed now p, f)"
| "apply_call (CRecovering b) (p, f) = (set_recovering b p, f)"
| "apply_call (CBeginPass now) (p, f) = (begin_pass now p, f)"
| "apply_call (CGaveUp h now) (p, f) = (note_download_gave_up_at h now p, f)"
| "apply_call CPassCompleted (p, f) = (note_pass_completed p, f)"
| "apply_call CAttemptFailed (p, f) = (note_attempt_failed p, f)"
| "apply_call (CReleased a b) (p, f) = (note_blocks_released a b p, f)"
| "apply_call (CFloor raw) (p, f) = (fst (permille_floor raw p), f)"
| "apply_call (CRebaseline s) (p, f) = (fst (rebaseline_floor_if_scope_expanded s p), f)"
| "apply_call (CPassStartIfUnset s) (p, f) = (set_pass_start_permille_if_unset s p, f)"
| "apply_call (CPassStart s) (p, f) = (set_pass_start_permille s p, f)"
| "apply_call (CBaseline a b) (p, f) = (set_pass_baseline a b p, f)"
| "apply_call CBeginSession (p, f) = (begin_session p, f)"
| "apply_call CRequestStop (p, f) = request_stop_for_wallet_change (p, f)"
| "apply_call CHold (p, f) = (gate_hold p, f)"
| "apply_call CDrop (p, f) = (gate_drop p, f)"

definition run_calls :: "progress_call list \<Rightarrow> progress \<times> decryption_fence \<Rightarrow> progress \<times> decryption_fence" where
  "run_calls cs s = fold apply_call cs s"

lemmas progress_defs =
  touch_def add_fetched_def add_scanned_def add_enhanced_def set_chain_tip_def note_tip_refreshed_def
  bump_tx_set_version_def set_range_end_def add_reorg_def set_pass_total_def add_pass_total_def set_spendable_def
  add_ranges_completed_def set_recovering_def begin_pass_def clear_download_failures_def
  note_pass_completed_def note_attempt_failed_def permille_floor_def scope_expanded_def
  rebaseline_floor_if_scope_expanded_def set_pass_start_permille_if_unset_def
  set_pass_start_permille_def set_pass_baseline_def begin_session_def
  request_stop_for_wallet_change_def gate_hold_def gate_drop_def

subsection \<open>The wallet-change stop\<close>

definition is_request :: "progress_call \<Rightarrow> bool" where "is_request c \<longleftrightarrow> c = CRequestStop"

lemma stop_counts_step:
  assumes "c \<noteq> CBeginSession"
  shows "session_stop_requests (fst (apply_call c s)) = session_stop_requests (fst s)"
    and "stop_requests (fst (apply_call c s)) =
           (if is_request c then wrapping_add64 (stop_requests (fst s)) 1 else stop_requests (fst s))"
  using assms
  by (cases s; cases c; simp add: progress_defs note_download_gave_up_at_def note_blocks_released_def
      is_request_def Let_def)+

lemma stop_counts_run:
  assumes "CBeginSession \<notin> set cs" and "stop_requests (fst s) \<le> u64_max"
  shows "session_stop_requests (fst (run_calls cs s)) = session_stop_requests (fst s) \<and>
         stop_requests (fst (run_calls cs s)) =
           (stop_requests (fst s) + length (filter is_request cs)) mod (u64_max + 1)"
  using assms
proof (induction cs arbitrary: s)
  case Nil
  then show ?case by (simp add: run_calls_def)
next
  case (Cons c cs)
  have "run_calls (c # cs) s = run_calls cs (apply_call c s)" by (simp add: run_calls_def)
  moreover have "stop_requests (fst (apply_call c s)) \<le> u64_max"
    using Cons.prems stop_counts_step(2) [of c s] by (auto simp: wrapping_add64_def mod_Suc_le_divisor)
  moreover have "c \<noteq> CBeginSession" "CBeginSession \<notin> set cs" using Cons.prems by auto
  ultimately show ?case
    using Cons.IH [of "apply_call c s"] stop_counts_step [of c s]
    by (simp add: wrapping_add64_def mod_simps add.assoc add.commute)
qed

lemma mod_add_eq_self_iff:
  fixes a k m :: nat
  assumes "a < m" and "k < m"
  shows "(a + k) mod m = a \<longleftrightarrow> k = 0"
  using assms by (cases "a + k < m") (simp_all add: le_mod_geq)

text \<open>
  A session is told to stop exactly for the requests made since it began.  After
  \<open>begin_session\<close>, and whatever other calls follow short of the next \<open>begin_session\<close>,
  \<open>stop_requested\<close> holds if and only if at least one wallet-change stop was requested; requests
  made for an earlier session never stop this one, and no pass start or completion forgets one.
  (The counter is 64 bits wide; the bound on the number of requests is the width of it.)
\<close>

theorem stop_requested_exactly:
  assumes "stop_requests p \<le> u64_max" and "CBeginSession \<notin> set cs"
    and "length (filter is_request cs) \<le> u64_max"
  shows "stop_requested (fst (run_calls (CBeginSession # cs) (p, f))) \<longleftrightarrow> CRequestStop \<in> set cs"
proof -
  let ?s = "apply_call CBeginSession (p, f)"
  have s: "stop_requests (fst ?s) = stop_requests p" "session_stop_requests (fst ?s) = stop_requests p"
    by (simp_all add: progress_defs Let_def)
  have "run_calls (CBeginSession # cs) (p, f) = run_calls cs ?s" by (simp add: run_calls_def)
  then have "stop_requested (fst (run_calls (CBeginSession # cs) (p, f))) \<longleftrightarrow>
      (stop_requests p + length (filter is_request cs)) mod (u64_max + 1) \<noteq> stop_requests p"
    using stop_counts_run [of cs ?s] assms s by (simp add: stop_requested_def)
  also have "\<dots> \<longleftrightarrow> length (filter is_request cs) \<noteq> 0"
    using assms by (subst mod_add_eq_self_iff) (simp_all del: length_0_conv)
  also have "\<dots> \<longleftrightarrow> CRequestStop \<in> set cs"
    by (auto simp: is_request_def filter_empty_conv)
  finally show ?thesis .
qed

theorem stop_requested_exactly_witness:
  "\<not> stop_requested (fst (run_calls [CBeginSession, CBeginPass 5, CPassCompleted]
       (progress_default\<lparr>stop_requests := 3\<rparr>, fence_new))) \<and>
   stop_requested (fst (run_calls [CBeginSession, CRequestStop, CBeginPass 5]
       (progress_default\<lparr>stop_requests := 3\<rparr>, fence_new)))"
  using stop_requested_exactly
      [of "progress_default\<lparr>stop_requests := 3\<rparr>" "[CBeginPass 5, CPassCompleted]" fence_new]
    stop_requested_exactly
      [of "progress_default\<lparr>stop_requests := 3\<rparr>" "[CRequestStop, CBeginPass 5]" fence_new]
  by (simp add: u64_max_def is_request_def)

subsection \<open>The runs of give-ups\<close>

definition runs_wf :: "(nat \<times> download_failure) list \<Rightarrow> bool" where
  "runs_wf runs \<longleftrightarrow> bt_sorted runs \<and> length runs \<le> MAX_DOWNLOAD_FAILURE_RUNS \<and>
     (\<forall>k r. map_of runs k = Some r \<longrightarrow> at_height r = k)"

lemma least_recent_None: "least_recent rs = None \<longleftrightarrow> rs = []"
  by (cases rs) (auto split: option.splits)

lemma least_recent_Some:
  "least_recent rs = Some r \<Longrightarrow> r \<in> set rs \<and> (\<forall>r' \<in> set rs. last_unix r \<le> last_unix r')"
  by (induction rs arbitrary: r) (fastforce simp: least_recent_None split: option.splits if_splits)+

lemma next_run_height:
  "\<forall>k r. map_of runs k = Some r \<longrightarrow> at_height r = k \<Longrightarrow> at_height (next_run runs h now) = h"
  by (auto simp: next_run_def Let_def split: option.splits)

text \<open>Recording one give-up: what the eviction can take, and that it takes it when it must.\<close>

lemma evict_run_spec:
  assumes sorted: "bt_sorted runs" and len: "length runs \<le> Suc MAX_DOWNLOAD_FAILURE_RUNS"
    and keys: "\<forall>k r. map_of runs k = Some r \<longrightarrow> at_height r = k"
  shows "runs_wf (evict_run h runs)"
    and "map_of (evict_run h runs) h = map_of runs h"
    and "map_of (evict_run h runs) k = map_of runs k \<or>
         (map_of (evict_run h runs) k = None \<and> length runs > MAX_DOWNLOAD_FAILURE_RUNS \<and>
          (\<exists>r. map_of runs k = Some r \<and>
            (\<forall>k' r'. k' \<noteq> h \<longrightarrow> map_of runs k' = Some r' \<longrightarrow> last_unix r \<le> last_unix r')))"
proof -
  let ?others = "filter (\<lambda>r. at_height r \<noteq> h) (map snd runs)"
  have mem: "r \<in> set ?others \<longleftrightarrow> (\<exists>k. k \<noteq> h \<and> map_of runs k = Some r)" for r
    using keys by (force simp: bt_map_of_iff [OF sorted])
  have "runs_wf (evict_run h runs) \<and> map_of (evict_run h runs) h = map_of runs h \<and>
     (map_of (evict_run h runs) k = map_of runs k \<or>
         (map_of (evict_run h runs) k = None \<and> length runs > MAX_DOWNLOAD_FAILURE_RUNS \<and>
          (\<exists>r. map_of runs k = Some r \<and>
            (\<forall>k' r'. k' \<noteq> h \<longrightarrow> map_of runs k' = Some r' \<longrightarrow> last_unix r \<le> last_unix r'))))"
  proof (cases "length runs > MAX_DOWNLOAD_FAILURE_RUNS")
    case False
    then show ?thesis using assms by (auto simp: evict_run_def runs_wf_def)
  next
    case True
    have "?others \<noteq> []"
    proof
      assume "?others = []"
      then have "dom (map_of runs) \<subseteq> {h}" using mem by (auto simp: dom_def)
      then have "length runs \<le> 1" using bt_length_card [OF sorted] card_mono [of "{h}"] by fastforce
      with True show False by (simp add: MAX_DOWNLOAD_FAILURE_RUNS_def)
    qed
    then obtain r where r: "least_recent ?others = Some r" by (metis least_recent_None not_None_eq)
    then have least: "r \<in> set ?others" "\<forall>r' \<in> set ?others. last_unix r \<le> last_unix r'"
      using least_recent_Some by blast+
    then obtain k0 where k0: "k0 \<noteq> h" "map_of runs k0 = Some r" "at_height r = k0"
      using mem keys by blast
    have ev: "evict_run h runs = bt_remove k0 runs" using True r k0 by (simp add: evict_run_def)
    have "length (bt_remove k0 runs) \<le> MAX_DOWNLOAD_FAILURE_RUNS"
      using bt.size_remove_member [OF sorted k0(2)] len by simp
    then show ?thesis
      using ev k0 True least mem keys sorted
      by (auto simp: runs_wf_def map_of_bt_remove bt_remove_sorted)
  qed
  then show "runs_wf (evict_run h runs)" "map_of (evict_run h runs) h = map_of runs h"
    "map_of (evict_run h runs) k = map_of runs k \<or>
         (map_of (evict_run h runs) k = None \<and> length runs > MAX_DOWNLOAD_FAILURE_RUNS \<and>
          (\<exists>r. map_of runs k = Some r \<and>
            (\<forall>k' r'. k' \<noteq> h \<longrightarrow> map_of runs k' = Some r' \<longrightarrow> last_unix r \<le> last_unix r')))"
    by blast+
qed

lemma inserted_run_ok:
  assumes "runs_wf runs" and "runs' = bt_insert h (next_run runs h now) runs"
  shows "bt_sorted runs'" "length runs' \<le> Suc MAX_DOWNLOAD_FAILURE_RUNS"
    "\<forall>k r. map_of runs' k = Some r \<longrightarrow> at_height r = k"
    "map_of runs' = (map_of runs)(h \<mapsto> next_run runs h now)"
  using assms bt.size_insert [of runs h "next_run runs h now"]
  by (auto simp: runs_wf_def bt_insert_sorted map_of_bt_insert next_run_height)

lemma gave_up_runs:
  "download_failures (note_download_gave_up_at h now p) =
     evict_run h (bt_insert h (next_run (download_failures p) h now) (download_failures p))"
  by (simp add: note_download_gave_up_at_def Let_def)

text \<open>
  Recording a give-up of the block download keeps the table of runs well-formed (one run per
  block, at most eight) and records the give-up in the run of its own block, which is never the
  one evicted.  Every other run is untouched, except that a ninth block evicts exactly a run that
  failed least recently.
\<close>

theorem give_up_recorded:
  assumes "runs_wf (download_failures p)"
  shows "runs_wf (download_failures (note_download_gave_up_at h now p)) \<and>
    map_of (download_failures (note_download_gave_up_at h now p)) h =
      Some (next_run (download_failures p) h now) \<and>
    (\<forall>k. k \<noteq> h \<longrightarrow>
      map_of (download_failures (note_download_gave_up_at h now p)) k = map_of (download_failures p) k \<or>
      (map_of (download_failures (note_download_gave_up_at h now p)) k = None \<and>
       map_of (download_failures p) h = None \<and>
       length (download_failures p) = MAX_DOWNLOAD_FAILURE_RUNS \<and>
       (\<exists>r. map_of (download_failures p) k = Some r \<and>
         (\<forall>k' r'. k' \<noteq> h \<longrightarrow> map_of (download_failures p) k' = Some r' \<longrightarrow>
            last_unix r \<le> last_unix r'))))"
proof -
  let ?runs = "download_failures p"
  let ?ins = "bt_insert h (next_run ?runs h now) ?runs"
  note ok = inserted_run_ok [OF assms refl, of h now]
  note spec = evict_run_spec [OF ok(1-3)]
  have len: "map_of ?runs h = None \<and> length ?runs = MAX_DOWNLOAD_FAILURE_RUNS"
    if "length ?ins > MAX_DOWNLOAD_FAILURE_RUNS"
  proof -
    have wf: "bt_sorted ?runs" "length ?runs \<le> MAX_DOWNLOAD_FAILURE_RUNS"
      using assms by (auto simp: runs_wf_def)
    have dom: "length ?ins = card (insert h (dom (map_of ?runs)))"
      using bt_length_card [OF ok(1)] ok(4) by simp
    have "finite (dom (map_of ?runs))" by (rule finite_dom_map_of)
    then show ?thesis
      using dom that wf bt_length_card [OF wf(1)]
      by (cases "h \<in> dom (map_of ?runs)") (auto simp: insert_absorb)
  qed
  have same: "map_of ?ins k' = map_of ?runs k'" if "k' \<noteq> h" for k' using that ok(4) by simp
  show ?thesis
    unfolding gave_up_runs
  proof (intro conjI allI impI)
    show "runs_wf (evict_run h ?ins)" by (rule spec(1))
    show "map_of (evict_run h ?ins) h = Some (next_run ?runs h now)" using spec(2) ok(4) by simp
    fix k assume "k \<noteq> h"
    then show "map_of (evict_run h ?ins) k = map_of ?runs k \<or>
      map_of (evict_run h ?ins) k = None \<and> map_of ?runs h = None \<and>
      length ?runs = MAX_DOWNLOAD_FAILURE_RUNS \<and>
      (\<exists>r. map_of ?runs k = Some r \<and>
        (\<forall>k' r'. k' \<noteq> h \<longrightarrow> map_of ?runs k' = Some r' \<longrightarrow> last_unix r \<le> last_unix r'))"
      using spec(3) [of h k] len same by (metis (no_types, lifting))
  qed
qed

definition demo_run :: "nat \<Rightarrow> download_failure" where
  "demo_run h = \<lparr>streak = 1, at_height = h, since_unix = 100 + h, last_unix = 100 + h\<rparr>"

definition demo_full :: progress where
  "demo_full = progress_default\<lparr>download_failures := map (\<lambda>h. (h, demo_run h)) [0, 1, 2, 3, 4, 5, 6, 7]\<rparr>"

theorem give_up_recorded_witness:
  "runs_wf (download_failures (note_download_gave_up_at 9 200 demo_full)) \<and>
   map_of (download_failures (note_download_gave_up_at 9 200 demo_full)) 9 \<noteq> None \<and>
   map_of (download_failures (note_download_gave_up_at 9 200 demo_full)) 0 = None"
proof -
  have wf: "runs_wf (download_failures demo_full)"
    by (simp add: runs_wf_def demo_full_def bt_sorted_def MAX_DOWNLOAD_FAILURE_RUNS_def
        demo_run_def)
  have "map_of (download_failures (note_download_gave_up_at 9 200 demo_full)) 0 = None"
    by (simp add: gave_up_runs evict_run_def demo_full_def next_run_def Let_def demo_run_def
        MAX_DOWNLOAD_FAILURE_RUNS_def bt_remove_def)
  then show ?thesis using give_up_recorded [OF wf, of 9 200] by simp
qed

subsection \<open>The stall clock\<close>

text \<open>
  The histories that do not end the run at block \<open>h\<close>: no completed pass, no new session, no
  release that covers \<open>h\<close>, and no attempt that failed without a give-up in it.  The flag is
  whether a give-up was recorded since the last attempt ended.
\<close>

fun keeps_run :: "nat \<Rightarrow> bool \<Rightarrow> progress_call list \<Rightarrow> bool" where
  "keeps_run h gave_up [] = True"
| "keeps_run h gave_up (c # cs) =
     (case c of
        CPassCompleted \<Rightarrow> False
      | CBeginSession \<Rightarrow> False
      | CReleased a b \<Rightarrow> \<not> (a \<le> h \<and> h \<le> b) \<and> keeps_run h gave_up cs
      | CAttemptFailed \<Rightarrow> gave_up \<and> keeps_run h False cs
      | CGaveUp h' now \<Rightarrow> keeps_run h True cs
      | _ \<Rightarrow> keeps_run h gave_up cs)"

definition gave_up_heights :: "progress_call list \<Rightarrow> nat set" where
  "gave_up_heights cs = {h. \<exists>now. CGaveUp h now \<in> set cs}"

text \<open>The times of the give-ups at \<open>h\<close>; and that no two in a row are too far apart.\<close>

fun gave_up_times :: "nat \<Rightarrow> progress_call list \<Rightarrow> nat list" where
  "gave_up_times h [] = []"
| "gave_up_times h (CGaveUp h' now # cs) =
     (if h' = h then now # gave_up_times h cs else gave_up_times h cs)"
| "gave_up_times h (_ # cs) = gave_up_times h cs"

fun gaps_ok :: "nat list \<Rightarrow> bool" where
  "gaps_ok (a # b # ts) = (b - a \<le> DOWNLOAD_FAILURE_RUN_GAP_SECS \<and> gaps_ok (b # ts))"
| "gaps_ok _ = True"

lemma map_of_foldr_remove:
  "map_of (foldr bt_remove ks m) k = (if k \<in> set ks then None else map_of m k)"
  by (induction ks) (auto simp: map_of_bt_remove)

lemma sorted_foldr_remove: "bt_sorted m \<Longrightarrow> bt_sorted (foldr bt_remove ks m)"
  by (induction ks) (auto simp: bt_remove_sorted)

lemma note_blocks_released_lookup:
  "map_of (download_failures (note_blocks_released a b p)) k =
     (if a \<le> k \<and> k \<le> b then None else map_of (download_failures p) k)"
proof (cases "a \<le> k \<and> k \<le> b")
  case True
  then have "map_of (download_failures p) k = None" if "k \<notin> fst ` set (download_failures p)"
    using that by (simp add: map_of_eq_None_iff)
  with True show ?thesis
    by (auto simp: note_blocks_released_def map_of_foldr_remove Let_def)
qed (auto simp: note_blocks_released_def map_of_foldr_remove Let_def)

text \<open>Runs at heights of \<open>H\<close> only, and \<open>H\<close> fits the table: nothing is ever evicted.\<close>

definition runs_in :: "nat set \<Rightarrow> progress \<Rightarrow> bool" where
  "runs_in H p \<longleftrightarrow> runs_wf (download_failures p) \<and> dom (map_of (download_failures p)) \<subseteq> H"

lemma gave_up_in:
  assumes "runs_in H p" and "h \<in> H" and "finite H" and "card H \<le> MAX_DOWNLOAD_FAILURE_RUNS"
  shows "runs_in H (note_download_gave_up_at h now p)"
    and "map_of (download_failures (note_download_gave_up_at h now p)) =
           (map_of (download_failures p))(h \<mapsto> next_run (download_failures p) h now)"
proof -
  let ?ins = "bt_insert h (next_run (download_failures p) h now) (download_failures p)"
  have wf: "runs_wf (download_failures p)" and dom: "dom (map_of (download_failures p)) \<subseteq> H"
    using assms(1) by (auto simp: runs_in_def)
  note ok = inserted_run_ok [OF wf refl, of h now]
  have "dom (map_of ?ins) \<subseteq> H" using dom assms(2) ok(4) by auto
  then have len: "length ?ins \<le> MAX_DOWNLOAD_FAILURE_RUNS"
    using bt_length_card [OF ok(1)] card_mono [OF assms(3)] assms(4) by (metis order_trans)
  then have ev: "download_failures (note_download_gave_up_at h now p) = ?ins"
    by (simp add: gave_up_runs evict_run_def)
  then show "map_of (download_failures (note_download_gave_up_at h now p)) =
           (map_of (download_failures p))(h \<mapsto> next_run (download_failures p) h now)"
    using ok(4) by simp
  have "runs_wf ?ins" using ok len unfolding runs_wf_def by blast
  then show "runs_in H (note_download_gave_up_at h now p)"
    unfolding runs_in_def ev using \<open>dom (map_of ?ins) \<subseteq> H\<close> by simp
qed

lemma length_foldr_remove: "length (foldr bt_remove ks m) \<le> length m"
proof (induction ks)
  case (Cons k ks)
  have "length (bt_remove k (foldr bt_remove ks m)) \<le> length (foldr bt_remove ks m)"
    by (simp add: bt_remove_def)
  with Cons show ?case by simp
qed simp

lemma released_runs:
  "\<exists>ks. download_failures (note_blocks_released a b p) = foldr bt_remove ks (download_failures p)"
proof (cases "a > b")
  case True
  then show ?thesis by (auto simp: note_blocks_released_def intro: exI [of _ "[]"])
next
  case False
  then show ?thesis by (auto simp: note_blocks_released_def Let_def)
qed

lemma released_in: "runs_in H p \<Longrightarrow> runs_in H (note_blocks_released a b p)"
proof -
  assume H: "runs_in H p"
  obtain ks where ks: "download_failures (note_blocks_released a b p) = foldr bt_remove ks (download_failures p)"
    using released_runs by blast
  have "\<forall>k r. map_of (foldr bt_remove ks (download_failures p)) k = Some r \<longrightarrow>
      map_of (download_failures p) k = Some r"
    by (simp add: map_of_foldr_remove)
  then show ?thesis
    using H ks length_foldr_remove [of ks "download_failures p"] le_trans
    unfolding runs_in_def runs_wf_def by (auto simp: sorted_foldr_remove dom_def)
qed

text \<open>
  What the history so far says of the run at \<open>h\<close>: with the give-ups so far at times
  \<open>ts\<close>, there is a run exactly if \<open>ts\<close> is not empty; it counts from the first of them.
\<close>

definition run_tracks :: "nat \<Rightarrow> nat list \<Rightarrow> progress \<Rightarrow> bool" where
  "run_tracks h ts p \<longleftrightarrow>
     (if ts = [] then map_of (download_failures p) h = None
      else \<exists>r. map_of (download_failures p) h = Some r \<and> since_unix r = hd ts \<and>
             last_unix r = last ts \<and> streak r = min u32_max (length ts))"

lemma gaps_ok_append:
  "gaps_ok (ts @ [t]) \<longleftrightarrow>
     gaps_ok ts \<and> (ts \<noteq> [] \<longrightarrow> t - last ts \<le> DOWNLOAD_FAILURE_RUN_GAP_SECS)"
  by (induction ts rule: gaps_ok.induct) auto

lemma gaps_ok_prefix: "gaps_ok (xs @ ys) \<Longrightarrow> gaps_ok xs"
  by (induction xs rule: gaps_ok.induct) auto

lemma next_run_tracks:
  assumes "run_tracks h ts p" and "gaps_ok (ts @ [t])"
  shows "since_unix (next_run (download_failures p) h t) = hd (ts @ [t])"
    "last_unix (next_run (download_failures p) h t) = t"
    "streak (next_run (download_failures p) h t) = min u32_max (length (ts @ [t]))"
  using assms
  by (auto simp: run_tracks_def next_run_def Let_def gaps_ok_append saturating_add32_def u32_max_def
      hd_append min_def split: if_splits)

lemma other_calls_keep_runs:
  assumes "\<And>h t. c \<noteq> CGaveUp h t" "\<And>a b. c \<noteq> CReleased a b" "c \<noteq> CPassCompleted"
    "c \<noteq> CBeginSession" "c \<noteq> CAttemptFailed"
  shows "download_failures (fst (apply_call c s)) = download_failures (fst s)"
    and "gave_up_this_attempt (fst (apply_call c s)) = gave_up_this_attempt (fst s)"
    and "keeps_run h b (c # cs) = keeps_run h b cs"
    and "gave_up_times h (c # cs) = gave_up_times h cs"
    and "gave_up_heights (c # cs) = gave_up_heights cs"
  using assms
  by (cases s; cases c; auto simp: progress_defs Let_def gave_up_heights_def)+

lemma stall_step:
  assumes H: "finite H" "card H \<le> MAX_DOWNLOAD_FAILURE_RUNS" "gave_up_heights (c # cs) \<subseteq> H"
    and inv: "runs_in H (fst s)" "run_tracks h ts (fst s)"
    and keep: "keeps_run h (gave_up_this_attempt (fst s)) (c # cs)"
    and gaps: "gaps_ok (ts @ gave_up_times h (c # cs))"
  shows "\<exists>ts'. ts @ gave_up_times h (c # cs) = ts' @ gave_up_times h cs \<and>
     runs_in H (fst (apply_call c s)) \<and> run_tracks h ts' (fst (apply_call c s)) \<and>
     keeps_run h (gave_up_this_attempt (fst (apply_call c s))) cs"
proof -
  obtain p f where s: "s = (p, f)" by (cases s)
  consider (gave) h' t where "c = CGaveUp h' t" | (rel) a b where "c = CReleased a b"
    | (failed) "c = CAttemptFailed"
    | (other) "\<And>h t. c \<noteq> CGaveUp h t" "\<And>a b. c \<noteq> CReleased a b" "c \<noteq> CPassCompleted"
      "c \<noteq> CBeginSession" "c \<noteq> CAttemptFailed"
    using keep by (cases c) auto
  then show ?thesis
  proof cases
    case gave
    then have "h' \<in> H" using H(3) by (auto simp: gave_up_heights_def)
    note g = gave_up_in [OF inv(1) this H(1,2), of t]
    have k: "keeps_run h True cs" using keep gave by simp
    have flag: "gave_up_this_attempt (note_download_gave_up_at h' t p)"
      by (simp add: note_download_gave_up_at_def Let_def)
    show ?thesis
    proof (cases "h' = h")
      case True
      then have "gaps_ok (ts @ [t])"
        using gaps gave gaps_ok_prefix [of "ts @ [t]" "gave_up_times h cs"] by simp
      from next_run_tracks [OF inv(2) this] have "run_tracks h (ts @ [t]) (note_download_gave_up_at h' t p)"
        using g(2) True s by (auto simp: run_tracks_def)
      then show ?thesis using g(1) k flag True gave s by (intro exI [of _ "ts @ [t]"]) simp
    next
      case False
      then have "run_tracks h ts (note_download_gave_up_at h' t p)"
        using g(2) inv(2) s by (auto simp: run_tracks_def)
      then show ?thesis using g(1) k flag False gave s by (intro exI [of _ ts]) simp
    qed
  next
    case rel
    then show ?thesis
      using inv keep s released_in [of H p a b]
      by (intro exI [of _ ts])
        (auto simp: run_tracks_def note_blocks_released_lookup,
         auto simp: note_blocks_released_def Let_def split: if_splits)
  next
    case failed
    then show ?thesis
      using inv keep s by (intro exI [of _ ts]) (auto simp: progress_defs Let_def runs_in_def run_tracks_def)
  next
    case other
    then show ?thesis
      using inv keep other_calls_keep_runs [OF other]
      by (intro exI [of _ ts]) (auto simp: runs_in_def run_tracks_def)
  qed
qed

lemma stall_run:
  assumes "finite H" "card H \<le> MAX_DOWNLOAD_FAILURE_RUNS" "gave_up_heights cs \<subseteq> H"
    and "runs_in H (fst s)" "run_tracks h ts (fst s)"
    and "keeps_run h (gave_up_this_attempt (fst s)) cs"
    and "gaps_ok (ts @ gave_up_times h cs)"
  shows "run_tracks h (ts @ gave_up_times h cs) (fst (run_calls cs s))"
  using assms
proof (induction cs arbitrary: s ts)
  case Nil
  then show ?case by (simp add: run_calls_def)
next
  case (Cons c cs)
  obtain ts' where ts': "ts @ gave_up_times h (c # cs) = ts' @ gave_up_times h cs"
    "runs_in H (fst (apply_call c s))" "run_tracks h ts' (fst (apply_call c s))"
    "keeps_run h (gave_up_this_attempt (fst (apply_call c s))) cs"
    using stall_step [OF Cons.prems] by blast
  have "gave_up_heights cs \<subseteq> H" using Cons.prems(3) by (auto simp: gave_up_heights_def)
  from Cons.IH [OF Cons.prems(1,2) this ts'(2,3,4)] show ?case
    using ts'(1) Cons.prems(7) by (simp add: run_calls_def)
qed

lemma foldr_max_ge: "x \<in> set xs \<Longrightarrow> x \<le> foldr max xs (0::nat)"
  by (induction xs) auto

lemma run_counts_as_stall:
  assumes "map_of (download_failures p) h = Some r"
    and "streak r \<ge> DOWNLOAD_FAILURE_STALL_STREAK"
    and "now - last_unix r \<le> DOWNLOAD_FAILURE_RUN_GAP_SECS"
  shows "now - since_unix r \<le> stall_secs now p"
proof -
  have "r \<in> set (map snd (download_failures p))" using map_of_SomeD [OF assms(1)] by force
  then have "now - since_unix r \<le> download_failure_secs now p"
    unfolding download_failure_secs_def using assms by (intro foldr_max_ge) auto
  then show ?thesis by (simp add: stall_secs_def Let_def)
qed

text \<open>
  A server that keeps failing one block cannot keep the stall clock fresh.  Take any history
  of calls after a new session began: passes starting, metadata arriving, other blocks being
  fetched, scanned and released, failed attempts, give-ups at up to seven other blocks.  If in it
  the download gave up at block \<open>h\<close> at least twice, never more than ten minutes apart and not
  more than ten minutes ago, and \<open>h\<close> was never released nor the pass completed, then the reported
  stall reaches back to the first of these give-ups, whatever signs of life came after it.
\<close>

theorem stall_counts_from_first_give_up:
  assumes "card (insert h (gave_up_heights cs)) \<le> MAX_DOWNLOAD_FAILURE_RUNS"
    and "keeps_run h False cs"
    and "gave_up_times h cs = t0 # ts" and "ts \<noteq> []" and "gaps_ok (t0 # ts)"
    and "now - last ts \<le> DOWNLOAD_FAILURE_RUN_GAP_SECS"
  shows "now - t0 \<le> stall_secs now (fst (run_calls (CBeginSession # cs) s))"
proof -
  let ?s = "apply_call CBeginSession s"
  let ?H = "insert h (gave_up_heights cs)"
  obtain p f where s: "s = (p, f)" by (cases s)
  have "gave_up_heights cs = (\<Union>c \<in> set cs. case c of CGaveUp h now \<Rightarrow> {h} | _ \<Rightarrow> {})"
    by (auto simp: gave_up_heights_def split: progress_call.splits)
  then have fin: "finite ?H" by (auto split: progress_call.splits)
  have start: "runs_in ?H (fst ?s)" "run_tracks h [] (fst ?s)" "\<not> gave_up_this_attempt (fst ?s)"
    by (simp_all add: s progress_defs Let_def runs_in_def runs_wf_def run_tracks_def bt_sorted_def)
  have "run_tracks h (t0 # ts) (fst (run_calls cs ?s))"
    using stall_run [OF fin assms(1) subset_insertI start(1,2)] assms(2,3,5) start(3) by simp
  then obtain r where "map_of (download_failures (fst (run_calls cs ?s))) h = Some r"
    "since_unix r = t0" "last_unix r = last ts" "streak r = min u32_max (length (t0 # ts))"
    using assms(4) by (auto simp: run_tracks_def)
  then have "now - t0 \<le> stall_secs now (fst (run_calls cs ?s))"
    using run_counts_as_stall [of "fst (run_calls cs ?s)" h r now] assms(4,6)
    by (cases ts) (auto simp: DOWNLOAD_FAILURE_STALL_STREAK_def u32_max_def min_def)
  then show ?thesis by (simp add: run_calls_def)
qed

definition demo_history :: "progress_call list" where
  "demo_history = [CBeginPass 1000, CGaveUp 70 1010, CAttemptFailed, CBeginPass 1300,
     CFetched 40 1310, CReleased 90 99, CGaveUp 70 1320, CAttemptFailed, CBeginPass 1400, CTouch 1500]"

theorem stall_counts_from_first_give_up_witness:
  "490 \<le> stall_secs 1500 (fst (run_calls (CBeginSession # demo_history) (progress_default, fence_new)))"
proof -
  have "gave_up_heights demo_history = {70}" by (auto simp: gave_up_heights_def demo_history_def)
  then show ?thesis
    using stall_counts_from_first_give_up
      [of 70 demo_history 1010 "[1320]" 1500 "(progress_default, fence_new)"]
    by (simp add: demo_history_def MAX_DOWNLOAD_FAILURE_RUNS_def DOWNLOAD_FAILURE_RUN_GAP_SECS_def)
qed

subsection \<open>The session floor\<close>

definition floor_ok :: "progress \<Rightarrow> bool" where
  "floor_ok p \<longleftrightarrow> progress_permille_floor p \<le> 1000 \<and>
     (pass_start p = u64_max \<or> pass_start p \<le> 1000)"

lemma floor_ok_default: "floor_ok progress_default"
  by (simp add: floor_ok_def progress_default_def)

lemma floor_ok_step: "floor_ok (fst s) \<Longrightarrow> floor_ok (fst (apply_call c s))"
  by (cases s; cases c)
    (auto simp: floor_ok_def progress_defs note_download_gave_up_at_def note_blocks_released_def Let_def)

lemma floor_mono_step:
  "(\<And>seed. c \<noteq> CRebaseline seed) \<Longrightarrow>
     progress_permille_floor (fst s) \<le> progress_permille_floor (fst (apply_call c s))"
  by (cases s; cases c)
    (auto simp: progress_defs note_download_gave_up_at_def note_blocks_released_def Let_def)

lemma floor_ok_run: "floor_ok (fst s) \<Longrightarrow> floor_ok (fst (run_calls cs s))"
  by (induction cs arbitrary: s) (auto simp: run_calls_def floor_ok_step)

lemma floor_mono_run:
  "(\<And>seed. CRebaseline seed \<notin> set cs) \<Longrightarrow>
     progress_permille_floor (fst s) \<le> progress_permille_floor (fst (run_calls cs s))"
proof (induction cs arbitrary: s)
  case (Cons c cs)
  have "progress_permille_floor (fst s) \<le> progress_permille_floor (fst (apply_call c s))"
    using Cons.prems by (intro floor_mono_step) auto
  also have "\<dots> \<le> progress_permille_floor (fst (run_calls cs (apply_call c s)))"
    using Cons.prems by (intro Cons.IH) auto
  finally show ?case by (simp add: run_calls_def)
qed (simp add: run_calls_def)

end
