(* ===== verification/Slip_Net.thy ===== *)
theory Slip_Net
  imports Slip_Config Slip_Progress
begin

text \<open>
  Connecting to lightwalletd and calling it (\<open>src/core/src/connector.rs\<close>, \<open>src/core/src/grpc.rs\<close>):
  the per-call Tor policy, the bounded connects, the deadlines on calls and streams, and the
  counters of channels and calls.

  The network's answers are inputs, one list element per attempt; a result \<^term>\<open>None\<close> means that
  the loop is still running when the answers end.  \<open>ns_dials\<close> records every dial the engine makes,
  in order; it is not part of the program's state.
\<close>

section \<open>Channel and call counters\<close>

datatype net_event = DirectChannel | TorChannel | GetLatestBlock | GetSubtreeRoots | GetBlockRange
  | GetTreeState | GetAddressUtxos | GetTaddressTxids | GetTransaction | GetMempoolStream

record net_totals =
  direct_channels :: nat
  tor_channels :: nat
  get_latest_block :: nat
  get_subtree_roots :: nat
  get_block_range :: nat
  get_tree_state_n :: nat
  get_address_utxos :: nat
  get_taddress_txids :: nat
  get_transaction_n :: nat
  get_mempool_stream :: nat

fun net_record :: "net_event \<Rightarrow> net_totals \<Rightarrow> net_totals" where
  "net_record DirectChannel t = t\<lparr>direct_channels := wrapping_add64 (direct_channels t) 1\<rparr>"
| "net_record TorChannel t = t\<lparr>tor_channels := wrapping_add64 (tor_channels t) 1\<rparr>"
| "net_record GetLatestBlock t = t\<lparr>get_latest_block := wrapping_add64 (get_latest_block t) 1\<rparr>"
| "net_record GetSubtreeRoots t = t\<lparr>get_subtree_roots := wrapping_add64 (get_subtree_roots t) 1\<rparr>"
| "net_record GetBlockRange t = t\<lparr>get_block_range := wrapping_add64 (get_block_range t) 1\<rparr>"
| "net_record GetTreeState t = t\<lparr>get_tree_state_n := wrapping_add64 (get_tree_state_n t) 1\<rparr>"
| "net_record GetAddressUtxos t = t\<lparr>get_address_utxos := wrapping_add64 (get_address_utxos t) 1\<rparr>"
| "net_record GetTaddressTxids t = t\<lparr>get_taddress_txids := wrapping_add64 (get_taddress_txids t) 1\<rparr>"
| "net_record GetTransaction t = t\<lparr>get_transaction_n := wrapping_add64 (get_transaction_n t) 1\<rparr>"
| "net_record GetMempoolStream t = t\<lparr>get_mempool_stream := wrapping_add64 (get_mempool_stream t) 1\<rparr>"

definition channels :: "net_totals \<Rightarrow> nat" where
  "channels t = saturating_add64 (direct_channels t) (tor_channels t)"

definition delta_since :: "net_totals \<Rightarrow> net_totals \<Rightarrow> net_totals" where
  "delta_since t start =
     \<lparr>direct_channels = direct_channels t - direct_channels start,
      tor_channels = tor_channels t - tor_channels start,
      get_latest_block = get_latest_block t - get_latest_block start,
      get_subtree_roots = get_subtree_roots t - get_subtree_roots start,
      get_block_range = get_block_range t - get_block_range start,
      get_tree_state_n = get_tree_state_n t - get_tree_state_n start,
      get_address_utxos = get_address_utxos t - get_address_utxos start,
      get_taddress_txids = get_taddress_txids t - get_taddress_txids start,
      get_transaction_n = get_transaction_n t - get_transaction_n start,
      get_mempool_stream = get_mempool_stream t - get_mempool_stream start\<rparr>"

section \<open>Connecting\<close>

datatype conn_purpose = BulkFetch | MetadataUnique | MetadataDefault

datatype tor_mode = TorIsolated | TorDefault

fun tor_mode_of :: "conn_purpose \<Rightarrow> tor_mode option" where
  "tor_mode_of BulkFetch = None"
| "tor_mode_of MetadataUnique = Some TorIsolated"
| "tor_mode_of MetadataDefault = Some TorDefault"

datatype dial = DirectDial endpoint | TorDial tor_mode endpoint

record net_state =
  ns_totals :: net_totals
  ns_dials :: "dial list"

definition dialled :: "dial \<Rightarrow> net_state \<Rightarrow> net_state" where
  "dialled d ns = ns\<lparr>ns_dials := ns_dials ns @ [d]\<rparr>"

definition counted :: "net_event \<Rightarrow> net_state \<Rightarrow> net_state" where
  "counted ev ns = ns\<lparr>ns_totals := net_record ev (ns_totals ns)\<rparr>"

definition transport_err :: "string \<Rightarrow> string \<Rightarrow> slipstream_error" where
  "transport_err ctx e = Transport (ctx @ '': '' @ e)"

text \<open>What a direct connect meets: a URI the transport rejects, a TLS setup that fails, or the dial.\<close>

record direct_answer =
  da_uri :: "string option"
  da_tls :: "string option"
  da_dial :: "string option"

definition grpc_connect :: "endpoint \<Rightarrow> direct_answer \<Rightarrow> net_state \<Rightarrow> net_state \<times> (slipstream_error + unit)" where
  "grpc_connect e a ns =
     (case da_uri a of
        Some m \<Rightarrow> (ns, Inl (transport_err ''endpoint uri'' m))
      | None \<Rightarrow>
          (case (if ep_tls e then da_tls a else None) of
             Some m \<Rightarrow> (ns, Inl (transport_err ''tls config'' m))
           | None \<Rightarrow>
               (case da_dial a of
                  Some m \<Rightarrow> (dialled (DirectDial e) ns, Inl (transport_err (''connect '' @ ep_host e) m))
                | None \<Rightarrow> (counted DirectChannel (dialled (DirectDial e) ns), Inr ()))))"

definition DIRECT_CONNECT_ATTEMPTS :: nat where "DIRECT_CONNECT_ATTEMPTS = 6"

definition direct_connect_backoff :: "nat \<Rightarrow> nat" where
  "direct_connect_backoff attempt = 2 ^ min (attempt - 1) 4"

text \<open>
  The generic retry: the operations to run in turn on a state, the number of the current attempt;
  the result, the state, and the seconds slept between attempts.
\<close>

fun retry_transient :: "nat \<Rightarrow> (nat \<Rightarrow> nat) \<Rightarrow> nat \<Rightarrow> ('s \<Rightarrow> 's \<times> (slipstream_error + 'a)) list \<Rightarrow> 's \<Rightarrow>
    (slipstream_error + 'a) option \<times> 's \<times> nat list" where
  "retry_transient attempts backoff attempt [] s = (None, s, [])"
| "retry_transient attempts backoff attempt (op # ops) s =
     (case op s of
        (s', Inr v) \<Rightarrow> (Some (Inr v), s', [])
      | (s', Inl e) \<Rightarrow>
          if \<not> is_transient e \<or> attempt \<ge> attempts then (Some (Inl e), s', [])
          else (let (r, s'', sleeps) = retry_transient attempts backoff (attempt + 1) ops s'
                in (r, s'', backoff attempt # sleeps)))"

definition connect_direct_with_retry where
  "connect_direct_with_retry e answers ns =
     retry_transient DIRECT_CONNECT_ATTEMPTS direct_connect_backoff 1 (map (grpc_connect e) answers) ns"

definition TOR_CONNECT_ATTEMPTS :: nat where "TOR_CONNECT_ATTEMPTS = 3"
definition TOR_CONNECT_TIMEOUT :: nat where "TOR_CONNECT_TIMEOUT = 15"

datatype tor_answer = TorUp | TorFailed string | TorTimedOut

text \<open>\<open>left\<close>: attempts still to make.\<close>

fun tor_attempts :: "tor_mode \<Rightarrow> endpoint \<Rightarrow> nat \<Rightarrow> string option \<Rightarrow> tor_answer list \<Rightarrow> net_state \<Rightarrow>
    (slipstream_error + unit) option \<times> net_state" where
  "tor_attempts mode e 0 last_err answers ns =
     (Some (Inl (Transport (case last_err of Some m \<Rightarrow> m
        | None \<Rightarrow> ''tor connect: failed to obtain a circuit''))), ns)"
| "tor_attempts mode e (Suc left) last_err [] ns = (None, ns)"
| "tor_attempts mode e (Suc left) last_err (a # answers) ns =
     (let ns' = dialled (TorDial mode e) ns
      in case a of
           TorUp \<Rightarrow> (Some (Inr ()), counted TorChannel ns')
         | TorFailed m \<Rightarrow> tor_attempts mode e left (Some (''tor connect: '' @ m)) answers ns'
         | TorTimedOut \<Rightarrow>
             tor_attempts mode e left
               (Some (''tor connect: circuit build exceeded '' @ nat_str TOR_CONNECT_TIMEOUT @ ''s''))
               answers ns')"

text \<open>\<open>bad_uri\<close>: what the URI parser of the HTTP library says against the endpoint's text, if anything.\<close>

definition tor_connect where
  "tor_connect mode e bad_uri answers ns =
     (case bad_uri of
        Some m \<Rightarrow> (Some (Inl (Config (''bad endpoint uri for tor: '' @ m))), ns)
      | None \<Rightarrow> tor_attempts mode e TOR_CONNECT_ATTEMPTS None answers ns)"

definition connect_via :: "endpoint \<Rightarrow> bool \<Rightarrow> conn_purpose \<Rightarrow> string option \<Rightarrow> direct_answer list \<Rightarrow>
    tor_answer list \<Rightarrow> net_state \<Rightarrow> (slipstream_error + unit) option \<times> net_state" where
  "connect_via e tor purpose bad_uri direct_answers tor_answers ns =
     (case (tor, tor_mode_of purpose) of
        (True, Some mode) \<Rightarrow> tor_connect mode e bad_uri tor_answers ns
      | _ \<Rightarrow> (let (r, ns', _) = connect_direct_with_retry e direct_answers ns in (r, ns')))"

text \<open>
  A connection opened on first use: \<open>None\<close> is an unopened or failed one.  \<open>outcome\<close> is what
  connecting would give now.
\<close>

definition lazy_get :: "'c option \<Rightarrow> (slipstream_error + 'c) \<Rightarrow> 'c option \<times> (slipstream_error + 'c)" where
  "lazy_get client outcome =
     (case client of
        Some c \<Rightarrow> (Some c, Inr c)
      | None \<Rightarrow> (case outcome of Inl e \<Rightarrow> (None, Inl e) | Inr c \<Rightarrow> (Some c, Inr c)))"

section \<open>Calls and streams\<close>

definition UNARY_TIMEOUT :: nat where "UNARY_TIMEOUT = 30"
definition STREAM_IDLE_TIMEOUT :: nat where "STREAM_IDLE_TIMEOUT = 30"

definition idle_error :: "string \<Rightarrow> slipstream_error" where
  "idle_error ctx = Transport (ctx @ '': stream idle timeout ('' @ nat_str STREAM_IDLE_TIMEOUT @
     ''s without a message)'')"

datatype 'a call_answer = CallOk 'a | CallStatus string | CallTimedOut

definition with_unary_timeout :: "string \<Rightarrow> 'a call_answer \<Rightarrow> slipstream_error + 'a" where
  "with_unary_timeout ctx a =
     (case a of
        CallOk v \<Rightarrow> Inr v
      | CallStatus m \<Rightarrow> Inl (transport_err ctx m)
      | CallTimedOut \<Rightarrow> Inl (Transport (ctx @ '': timed out after '' @ nat_str UNARY_TIMEOUT @ ''s'')))"

definition get_latest_block_height where
  "get_latest_block_height a ns = (counted GetLatestBlock ns, with_unary_timeout ''get_latest_block'' a)"

definition get_tree_state where
  "get_tree_state a ns = (counted GetTreeState ns, with_unary_timeout ''get_tree_state'' a)"

text \<open>A message of a stream with the clock at its arrival; an error item; the idle timeout.\<close>

datatype 'a message = Message 'a nat | MessageStatus string | MessageIdle

fun collect_stream :: "string \<Rightarrow> string \<Rightarrow> ('a \<Rightarrow> slipstream_error + 'b) \<Rightarrow> progress option \<Rightarrow> 'b list \<Rightarrow>
    'a message list \<Rightarrow> progress option \<times> (slipstream_error + 'b list)" where
  "collect_stream ctx label f p collected [] = (p, Inr collected)"
| "collect_stream ctx label f p collected (MessageIdle # items) =
     (p, Inl (idle_error ctx))"
| "collect_stream ctx label f p collected (MessageStatus m # items) =
     (p, Inl (Transport (label @ '': '' @ m)))"
| "collect_stream ctx label f p collected (Message x now # items) =
     (let p' = map_option (touch now) p
      in case f x of
           Inl e \<Rightarrow> (p', Inl e)
         | Inr y \<Rightarrow> collect_stream ctx label f p' (collected @ [y]) items)"

text \<open>
  One pool's subtree roots.  \<open>parse\<close> reads a root's bytes (another crate's code): a node, or its
  complaint.  A root carries the height of the block that completes its subtree, cut to 32 bits.
\<close>

definition collect_subtree_roots :: "('r \<Rightarrow> string + 'n) \<Rightarrow> nat \<Rightarrow> string \<Rightarrow> ('r \<times> nat) message list call_answer \<Rightarrow>
    progress option \<Rightarrow> net_state \<Rightarrow> net_state \<times> progress option \<times> (slipstream_error + (nat \<times> 'n) list)" where
  "collect_subtree_roots parse start label a p ns =
     (if start > u32_max
      then (ns, p, Inl (Wallet (label @ '' subtree index '' @ nat_str start @ '' exceeds u32'')))
      else (let ctx = ''get_subtree_roots('' @ label @ '' from '' @ nat_str start @ '')'';
                ns' = counted GetSubtreeRoots ns
            in case with_unary_timeout ctx a of
                 Inl e \<Rightarrow> (ns', p, Inl e)
               | Inr items \<Rightarrow>
                   (ns', collect_stream ctx ''subtree root stream''
                      (\<lambda>(r, h). case parse r of
                                  Inl m \<Rightarrow> Inl (Transport (label @ '' root: '' @ m))
                                | Inr n \<Rightarrow> Inr (h mod 4294967296, n)) p [] items)))"

record subtree_root_start =
  rs_sapling :: nat
  rs_orchard :: nat
  rs_ironwood :: nat

text \<open>The three pools in turn, the first failure ending the call.\<close>

definition get_subtree_roots_from where
  "get_subtree_roots_from parse_s parse_o start a1 a2 a3 p ns =
     (case collect_subtree_roots parse_s (rs_sapling start) ''sapling'' a1 p ns of
        (ns1, p1, Inl e) \<Rightarrow> (ns1, p1, Inl e)
      | (ns1, p1, Inr s) \<Rightarrow>
          (case collect_subtree_roots parse_o (rs_orchard start) ''orchard'' a2 p1 ns1 of
             (ns2, p2, Inl e) \<Rightarrow> (ns2, p2, Inl e)
           | (ns2, p2, Inr o') \<Rightarrow>
               (case collect_subtree_roots parse_o (rs_ironwood start) ''ironwood'' a3 p2 ns2 of
                  (ns3, p3, Inl e) \<Rightarrow> (ns3, p3, Inl e)
                | (ns3, p3, Inr i) \<Rightarrow> (ns3, p3, Inr (s, o', i)))))"

text \<open>A status of the server: its code, its message, and its text form.\<close>

datatype status_code = CodeNotFound | CodeUnknown | CodeInternal | CodeOther

record status =
  st_code :: status_code
  st_message :: string
  st_text :: string

definition to_lower :: "char \<Rightarrow> char" where
  "to_lower c = (let n = of_char c :: nat in if 65 \<le> n \<and> n \<le> 90 then char_of (n + 32) else c)"

fun contains :: "string \<Rightarrow> string \<Rightarrow> bool" where
  "contains pat [] = (pat = [])"
| "contains pat (c # s) = (take (length pat) (c # s) = pat \<or> contains pat s)"

definition is_not_found :: "status \<Rightarrow> bool" where
  "is_not_found st \<longleftrightarrow>
     (let msg = map to_lower (st_message st)
      in st_code st = CodeNotFound \<or>
         ((st_code st = CodeUnknown \<or> st_code st = CodeInternal) \<and>
          (contains ''not found'' msg \<or> contains ''no such transaction'' msg)))"

text \<open>\<open>None\<close> as the answer: the deadline passed.\<close>

definition transaction_result :: "(status + 'tx) option \<Rightarrow> slipstream_error + 'tx option" where
  "transaction_result a =
     (case a of
        None \<Rightarrow> Inl (Transport (''get_transaction: timed out after '' @ nat_str UNARY_TIMEOUT @ ''s''))
      | Some (Inr tx) \<Rightarrow> Inr (Some tx)
      | Some (Inl st) \<Rightarrow>
          if is_not_found st then Inr None else Inl (transport_err ''get_transaction'' (st_text st)))"

definition get_transaction :: "(status + 'tx) option \<Rightarrow> net_state \<Rightarrow> net_state \<times> (slipstream_error + 'tx option)" where
  "get_transaction a ns = (counted GetTransaction ns, transaction_result a)"

definition taddress_txids :: "'tx message list call_answer \<Rightarrow> progress option \<Rightarrow>
    progress option \<times> (slipstream_error + 'tx list)" where
  "taddress_txids a p =
     (case with_unary_timeout ''get_taddress_txids'' a of
        Inl e \<Rightarrow> (p, Inl e)
      | Inr items \<Rightarrow> collect_stream ''get_taddress_txids'' ''taddress txid stream'' Inr p [] items)"

definition get_taddress_txids where
  "get_taddress_txids a p ns = (counted GetTaddressTxids ns, taddress_txids a p)"

definition open_mempool_stream where
  "open_mempool_stream a ns =
     (counted GetMempoolStream ns,
      (case a of Inr s \<Rightarrow> Inr s | Inl m \<Rightarrow> Inl (Transport (''get_mempool_stream: '' @ m))))"

definition address_utxos :: "'r message list call_answer \<Rightarrow> progress option \<Rightarrow>
    progress option \<times> (slipstream_error + 'r list)" where
  "address_utxos a p =
     (case with_unary_timeout ''get_address_utxos'' a of
        Inl e \<Rightarrow> (p, Inl e)
      | Inr items \<Rightarrow> collect_stream ''get_address_utxos'' ''utxo stream'' Inr p [] items)"

definition get_utxos where
  "get_utxos a p ns = (counted GetAddressUtxos ns, address_utxos a p)"

definition TREESTATE_RETRY_MAX :: nat where "TREESTATE_RETRY_MAX = 2"

definition treestate_retry_backoff :: "nat \<Rightarrow> nat" where
  "treestate_retry_backoff attempt = (if attempt = 1 then 1 else 3)"

text \<open>
  One attempt: what connecting meets, the server's answer to the call, and the clock.  The result
  carries the attempts that failed and were retried.
\<close>

fun retry_get_tree_state :: "endpoint \<Rightarrow> bool \<Rightarrow> nat \<Rightarrow>
    ((string option \<times> direct_answer list \<times> tor_answer list) \<times> 't call_answer \<times> nat) list \<Rightarrow>
    progress option \<Rightarrow> net_state \<Rightarrow> (slipstream_error + 't) option \<times> progress option \<times> net_state" where
  "retry_get_tree_state e tor attempt [] p ns = (None, p, ns)"
| "retry_get_tree_state e tor attempt (((bad_uri, das, tas), a, now) # env) p ns =
     (case connect_via e tor MetadataUnique bad_uri das tas ns of
        (None, ns1) \<Rightarrow> (None, p, ns1)
      | (Some (Inl err), ns1) \<Rightarrow> (Some (Inl err), p, ns1)
      | (Some (Inr _), ns1) \<Rightarrow>
          (case get_tree_state a ns1 of
             (ns2, Inr ts) \<Rightarrow> (Some (Inr ts), map_option (touch now) p, ns2)
           | (ns2, Inl err) \<Rightarrow>
               if is_transient err \<and> attempt < TREESTATE_RETRY_MAX
               then retry_get_tree_state e tor (attempt + 1) env p ns2
               else (Some (Inl err), p, ns2)))"

section \<open>The bounded connects\<close>

text \<open>The outcomes of a list of operations run one after the other.\<close>

fun run_ops :: "('s \<Rightarrow> 's \<times> (slipstream_error + 'a)) list \<Rightarrow> 's \<Rightarrow> (slipstream_error + 'a) list" where
  "run_ops [] s = []"
| "run_ops (op # ops) s = (let (s', r) = op s in r # run_ops ops s')"

definition direct_decide :: "nat \<Rightarrow> slipstream_error \<Rightarrow> nat \<Rightarrow> bool" where
  "direct_decide attempts e k \<longleftrightarrow> is_transient e \<and> k < attempts"

interpretation direct_ladder: retry_ladder "direct_decide attempts" attempts
  by unfold_locales (simp_all add: direct_decide_def)

lemma length_run_ops [simp]: "length (run_ops ops s) = length ops"
  by (induction ops arbitrary: s) (auto simp: case_prod_unfold Let_def)

text \<open>The stateful retry is the pure one on the outcomes its operations produce.\<close>

lemma retry_transient_run:
  "fst (retry_transient attempts backoff (n + 1) ops s) =
     map_option fst (retry_run (direct_decide attempts) n (run_ops ops s))"
proof (induction ops arbitrary: n s)
  case (Cons op ops)
  obtain s' r where op: "op s = (s', r)" by (cases "op s")
  show ?case
  proof (cases r)
    case (Inl e)
    then show ?thesis using Cons.IH [of "n + 1" s'] op
      by (auto simp: direct_decide_def case_prod_unfold Let_def)
  qed (simp add: op)
qed simp

lemma retry_transient_sleeps:
  "snd (snd (retry_transient attempts backoff n ops s)) = map backoff [n..<n + length (snd (snd (retry_transient attempts backoff n ops s)))] \<and>
   n + length (snd (snd (retry_transient attempts backoff n ops s))) \<le> max n attempts"
proof (induction ops arbitrary: n s)
  case (Cons op ops)
  obtain s' r where op: "op s = (s', r)" by (cases "op s")
  show ?case
  proof (cases "\<exists>e. r = Inl e \<and> is_transient e \<and> n < attempts")
    case True
    then obtain e where e: "r = Inl e" "is_transient e" "n < attempts" by blast
    define sl where "sl = snd (snd (retry_transient attempts backoff (n + 1) ops s'))"
    have eq: "snd (snd (retry_transient attempts backoff n (op # ops) s)) = backoff n # sl"
      using op e by (simp add: case_prod_unfold Let_def sl_def)
    have IH: "map backoff [n + 1..<n + 1 + length sl] = sl" "n + 1 + length sl \<le> max (n + 1) attempts"
      using Cons.IH [of "n + 1" s'] unfolding sl_def [symmetric] by simp_all
    have "map backoff [n..<n + length (backoff n # sl)] = backoff n # map backoff [n + 1..<n + 1 + length sl]"
      by (simp add: upt_conv_Cons del: upt_Suc)
    then show ?thesis using IH e(3) unfolding eq by simp
  next
    case False
    then have "snd (snd (retry_transient attempts backoff n (op # ops) s)) = []"
      using op by (cases r) auto
    then show ?thesis by simp
  qed
qed simp

lemma direct_backoffs: "sum_list (map direct_connect_backoff [1..<1 + k]) \<le> 31" if "1 + k \<le> 6"
proof -
  have "[1..<6] = [1..<1 + k] @ [1 + k..<6]" using upt_add_eq_append [of 1 "1 + k" "5 - k"] that by simp
  then have "sum_list (map direct_connect_backoff [1..<1 + k]) \<le> sum_list (map direct_connect_backoff [1..<6])"
    by (simp del: upt_Suc)
  also have "\<dots> = 31" by code_simp
  finally show ?thesis .
qed

text \<open>
  A direct connect ends: after at most six attempts it has a result, which is the first attempt
  that succeeded, or the first error not worth retrying, or the last error; and it slept 31 seconds
  in all at most.
\<close>

theorem direct_connect_ends:
  assumes "6 \<le> length answers"
  shows "\<exists>r ns' sleeps k. connect_direct_with_retry e answers ns = (Some r, ns', sleeps) \<and>
    k < 6 \<and> r = run_ops (map (grpc_connect e) answers) ns ! k \<and>
    (\<forall>i < k. \<exists>err. run_ops (map (grpc_connect e) answers) ns ! i = Inl err \<and> is_transient err) \<and>
    (\<forall>err. r = Inl err \<longrightarrow> is_transient err \<longrightarrow> k = 5) \<and>
    sum_list sleeps \<le> 31"
proof -
  let ?os = "run_ops (map (grpc_connect e) answers) ns"
  obtain r k where run: "retry_run (direct_decide 6) 0 ?os = Some (r, k)"
    using direct_ladder.terminates [of 0 6 ?os] assms by auto
  obtain ro ns' sleeps where res: "connect_direct_with_retry e answers ns = (ro, ns', sleeps)"
    by (cases "connect_direct_with_retry e answers ns")
  have "ro = Some r"
    using retry_transient_run [of 6 direct_connect_backoff 0 "map (grpc_connect e) answers" ns] run res
    by (simp add: connect_direct_with_retry_def DIRECT_CONNECT_ATTEMPTS_def)
  moreover have "sum_list sleeps \<le> 31"
  proof -
    have "sleeps = snd (snd (retry_transient 6 direct_connect_backoff 1 (map (grpc_connect e) answers) ns))"
      using res by (simp add: connect_direct_with_retry_def DIRECT_CONNECT_ATTEMPTS_def)
    then have "map direct_connect_backoff [1..<1 + length sleeps] = sleeps" "1 + length sleeps \<le> 6"
      using retry_transient_sleeps [of 6 direct_connect_backoff 1 "map (grpc_connect e) answers" ns]
      by simp_all
    then show ?thesis using direct_backoffs [of "length sleeps"] by simp
  qed
  moreover have "0 < k" "k \<le> 6" "?os ! (k - 1) = r"
    and pre: "\<forall>i < k - 1. \<exists>err. ?os ! i = Inl err \<and> direct_decide 6 err (i + 1)"
    and fin: "\<forall>err. r = Inl err \<longrightarrow> \<not> direct_decide 6 err k"
    using retry_run_prefix [OF run] direct_ladder.attempts_bounded [OF run] by auto
  moreover have "\<forall>i < k - 1. \<exists>err. ?os ! i = Inl err \<and> is_transient err"
    using pre by (auto simp: direct_decide_def)
  moreover have "\<forall>err. r = Inl err \<longrightarrow> is_transient err \<longrightarrow> k - 1 = 5"
    using fin \<open>k \<le> 6\<close> by (auto simp: direct_decide_def)
  ultimately show ?thesis using res
    by (intro exI [of _ r] exI [of _ ns'] exI [of _ sleeps] exI [of _ "k - 1"]) (simp add: less_le_trans)
qed

definition net_start :: net_state where
  "net_start = \<lparr>ns_totals = \<lparr>direct_channels = 0, tor_channels = 0, get_latest_block = 0, get_subtree_roots = 0,
     get_block_range = 0, get_tree_state_n = 0, get_address_utxos = 0, get_taddress_txids = 0,
     get_transaction_n = 0, get_mempool_stream = 0\<rparr>, ns_dials = []\<rparr>"

definition dead_answer :: direct_answer where
  "dead_answer = \<lparr>da_uri = None, da_tls = None, da_dial = Some ''refused''\<rparr>"

theorem direct_connect_ends_witness:
  "\<exists>r ns' sleeps. connect_direct_with_retry demo_endpoint (replicate 6 dead_answer) net_start = (Some r, ns', sleeps) \<and>
     sum_list sleeps \<le> 31"
  using direct_connect_ends [of "replicate 6 dead_answer" demo_endpoint net_start] by fastforce

section \<open>The Tor policy\<close>

lemma grpc_connect_dials:
  "grpc_connect e a ns = (ns', r) \<Longrightarrow> \<exists>k \<le> 1. ns_dials ns' = ns_dials ns @ replicate k (DirectDial e)"
  by (auto simp: grpc_connect_def dialled_def counted_def split: option.splits
      intro: exI [of _ 0] exI [of _ "1::nat"])

lemma retry_dials:
  assumes "retry_transient attempts backoff n (map (grpc_connect e) answers) ns = (r, ns', sleeps)"
  shows "\<exists>k. ns_dials ns' = ns_dials ns @ replicate k (DirectDial e) \<and> k \<le> 1 + (attempts - n)"
  using assms
proof (induction answers arbitrary: n ns r sleeps)
  case (Cons a answers)
  obtain ns1 r1 where g: "grpc_connect e a ns = (ns1, r1)" by (cases "grpc_connect e a ns")
  obtain k1 where k1: "k1 \<le> 1" "ns_dials ns1 = ns_dials ns @ replicate k1 (DirectDial e)"
    using grpc_connect_dials [OF g] by blast
  show ?case
  proof (cases "\<exists>err. r1 = Inl err \<and> is_transient err \<and> n < attempts")
    case True
    then obtain r2 sl where "retry_transient attempts backoff (n + 1) (map (grpc_connect e) answers) ns1 = (r2, ns', sl)"
      using Cons.prems g by (auto split: prod.splits)
    from Cons.IH [OF this] obtain k where "ns_dials ns' = ns_dials ns1 @ replicate k (DirectDial e)"
      "k \<le> 1 + (attempts - (n + 1))" by blast
    then show ?thesis using k1 True by (intro exI [of _ "k1 + k"]) (auto simp: replicate_add)
  next
    case False
    then have "ns' = ns1" using Cons.prems g by (cases r1) auto
    then show ?thesis using k1 by (intro exI [of _ k1]) simp
  qed
qed simp

lemma tor_dials:
  "tor_attempts mode e left m answers ns = (r, ns') \<Longrightarrow>
     \<exists>k \<le> left. ns_dials ns' = ns_dials ns @ replicate k (TorDial mode e)"
proof (induction mode e left m answers ns rule: tor_attempts.induct)
  case (3 mode e left m a answers ns)
  let ?ns = "dialled (TorDial mode e) ns"
  show ?case
  proof (cases a)
    case TorUp
    then show ?thesis using "3.prems" by (intro exI [of _ 1]) (auto simp: dialled_def counted_def)
  next
    case (TorFailed m')
    then obtain k where "k \<le> left" "ns_dials ns' = ns_dials ?ns @ replicate k (TorDial mode e)"
      using 3 by auto
    then show ?thesis by (intro exI [of _ "Suc k"]) (simp add: dialled_def)
  next
    case TorTimedOut
    then obtain k where "k \<le> left" "ns_dials ns' = ns_dials ?ns @ replicate k (TorDial mode e)"
      using 3 by auto
    then show ?thesis by (intro exI [of _ "Suc k"]) (simp add: dialled_def)
  qed
qed auto

text \<open>
  The Tor policy: with Tor on, a metadata connection makes at most three dials and every one of
  them is over Tor, on the circuit its purpose asks for, whatever fails; a bulk connection always
  dials directly, and so does every connection with Tor off, six times at most.
\<close>

theorem tor_policy:
  assumes "connect_via e tor purpose bad_uri das tas ns = (r, ns')"
  shows "\<exists>k. ns_dials ns' = ns_dials ns @
    (if tor \<and> purpose \<noteq> BulkFetch
     then replicate k (TorDial (if purpose = MetadataUnique then TorIsolated else TorDefault) e)
     else replicate k (DirectDial e)) \<and> k \<le> (if tor \<and> purpose \<noteq> BulkFetch then 3 else 6)"
proof (cases "tor \<and> purpose \<noteq> BulkFetch")
  case True
  then obtain mode where mode: "tor_mode_of purpose = Some mode"
      "mode = (if purpose = MetadataUnique then TorIsolated else TorDefault)"
    by (cases purpose) auto
  then have "tor_connect mode e bad_uri tas ns = (r, ns')" using assms True by (simp add: connect_via_def)
  then have "\<exists>k \<le> 3. ns_dials ns' = ns_dials ns @ replicate k (TorDial mode e)"
    using tor_dials by (auto simp: tor_connect_def TOR_CONNECT_ATTEMPTS_def split: option.splits)
  then show ?thesis using True mode(2) by auto
next
  case False
  then obtain sl where "connect_direct_with_retry e das ns = (r, ns', sl)"
    using assms by (cases purpose) (auto simp: connect_via_def split: bool.splits prod.splits)
  from retry_dials [OF this [unfolded connect_direct_with_retry_def DIRECT_CONNECT_ATTEMPTS_def]] False
  show ?thesis by auto
qed

theorem tor_policy_witness:
  "\<exists>k. ns_dials (snd (connect_via demo_endpoint True MetadataUnique None [] [TorTimedOut, TorUp] net_start)) =
     replicate k (TorDial TorIsolated demo_endpoint) \<and> k \<le> 3"
proof -
  obtain r ns' where c: "connect_via demo_endpoint True MetadataUnique None [] [TorTimedOut, TorUp] net_start = (r, ns')"
    by (cases "connect_via demo_endpoint True MetadataUnique None [] [TorTimedOut, TorUp] net_start")
  have "ns_dials net_start = []" by (simp add: net_start_def)
  with tor_policy [OF c] c show ?thesis by simp
qed

section \<open>Collecting a stream\<close>

fun messages_ok :: "('a \<Rightarrow> slipstream_error + 'b) \<Rightarrow> 'a message list \<Rightarrow> 'b list option" where
  "messages_ok f [] = Some []"
| "messages_ok f (Message x now # items) =
     (case f x of Inl _ \<Rightarrow> None | Inr y \<Rightarrow> map_option ((#) y) (messages_ok f items))"
| "messages_ok f (_ # items) = None"

fun last_stamp :: "nat \<Rightarrow> 'a message list \<Rightarrow> ('a \<Rightarrow> slipstream_error + 'b) \<Rightarrow> nat" where
  "last_stamp t (Message x now # items) f = (case f x of Inl _ \<Rightarrow> now | Inr _ \<Rightarrow> last_stamp now items f)"
| "last_stamp t _ f = t"

text \<open>
  Collecting a stream gives every message, mapped, in order, exactly when no item of it is an
  error, silent or unreadable; and the liveness stamp is that of the last message that arrived.
\<close>

theorem collect_stream_exactly:
  "(case snd (collect_stream ctx label f (Some p) collected items) of
      Inr ys \<Rightarrow> (\<exists>zs. messages_ok f items = Some zs \<and> ys = collected @ zs)
    | Inl _ \<Rightarrow> messages_ok f items = None) \<and>
   fst (collect_stream ctx label f (Some p) collected items) =
     Some (p\<lparr>last_progress_unix := last_stamp (last_progress_unix p) items f\<rparr>)"
proof (induction items arbitrary: p collected)
  case (Cons item items)
  show ?case
  proof (cases item)
    case (Message x now)
    show ?thesis
    proof (cases "f x")
      case (Inr y)
      then show ?thesis
        using Cons.IH [where p = "touch now p" and collected = "collected @ [y]"] Message
        by (auto simp: touch_def split: sum.splits)
    qed (use Message in \<open>simp add: touch_def\<close>)
  qed (simp_all)
qed simp

end
