(* ===== verification/Slip_Pump.thy ===== *)
theory Slip_Pump
  imports Slip_Splitter Slip_Gate Slip_Plan Slip_Net
begin

text \<open>
  The worker side of the download (\<open>src/core/src/fetch.rs\<close>): the cursor of a plan chunk, the
  emission of sub-chunks, the pump that turns one block stream into sub-chunks, and the worker's
  retry loop.

  What the outside does is an argument.  A stream is the list of its items, each with the clock
  readings its handling makes; the end of the list is the clean end of the stream.  The ahead gate
  answers through \<open>adm\<close> (the permit a plan index and size get, \<^term>\<open>None\<close> for the floor).  The
  channel to the release stage records what was sent and how many more sends the receiver takes
  before it hangs up.  One attempt of the worker is the server's answer to a block-range request
  and the outcome of the reconnect after it.
\<close>

section \<open>Sub-chunks, cursor, channel\<close>

record sub_chunk =
  sc_plan_index :: nat
  sc_sub_index :: nat
  sc_is_last :: bool
  sc_bytes :: nat
  sc_blocks :: "compact_block list"
  sc_permit :: "nat option"

record plan_chunk_cursor =
  pc_plan_index :: nat
  pc_end :: nat
  resume_from :: nat
  next_sub_index :: nat
  emitted_this_attempt :: bool

record out_chan =
  sent :: "sub_chunk list"
  accepts :: "nat option"

datatype pump_outcome = Completed | ConsumerGone

type_synonym gate_answer = "nat \<Rightarrow> nat \<Rightarrow> nat option"

definition chan_send :: "out_chan \<Rightarrow> sub_chunk \<Rightarrow> out_chan \<times> bool" where
  "chan_send ch sub =
     (case accepts ch of
        Some 0 \<Rightarrow> (ch, False)
      | Some (Suc n) \<Rightarrow> (ch\<lparr>sent := sent ch @ [sub], accepts := Some n\<rparr>, True)
      | None \<Rightarrow> (ch\<lparr>sent := sent ch @ [sub]\<rparr>, True))"

definition emit_sub_chunk :: "gate_answer \<Rightarrow> plan_chunk_cursor \<Rightarrow> compact_block list \<Rightarrow> nat \<Rightarrow> bool \<Rightarrow>
    out_chan \<Rightarrow> plan_chunk_cursor \<times> out_chan \<times> bool" where
  "emit_sub_chunk adm cur bs bytes is_last ch =
     (let last_height = (if bs = [] then None else Some (height (last bs)));
          permit = adm (pc_plan_index cur) bytes;
          sub = \<lparr>sc_plan_index = pc_plan_index cur, sc_sub_index = next_sub_index cur,
                 sc_is_last = is_last, sc_bytes = bytes, sc_blocks = bs, sc_permit = permit\<rparr>;
          (ch', ok) = chan_send ch sub
      in if \<not> ok then (cur, ch', False)
         else (let cur1 = (case last_height of
                             Some h \<Rightarrow> cur\<lparr>resume_from := wrapping_add64 h 1\<rparr> | None \<Rightarrow> cur)
               in (cur1\<lparr>next_sub_index := next_sub_index cur1 + 1, emitted_this_attempt := True\<rparr>,
                   ch', True)))"

definition flush_then_fail :: "gate_answer \<Rightarrow> (compact_block list \<times> nat) option \<Rightarrow> plan_chunk_cursor \<Rightarrow>
    out_chan \<Rightarrow> slipstream_error \<Rightarrow>
    (slipstream_error + pump_outcome) \<times> plan_chunk_cursor \<times> out_chan" where
  "flush_then_fail adm tail cur ch err =
     (case tail of
        Some (bs, bytes) \<Rightarrow>
          if (if bs = [] then None else Some (height (last bs))) \<noteq> Some (pc_end cur)
          then (let (cur', ch', ok) = emit_sub_chunk adm cur bs bytes False ch
                in if \<not> ok then (Inr ConsumerGone, cur', ch') else (Inl err, cur', ch'))
          else (Inl err, cur, ch)
      | None \<Rightarrow> (Inl err, cur, ch))"

section \<open>The pump\<close>

text \<open>
  \<open>SBlock b t t' u\<close>: a block; the deadline is checked at clock \<open>t\<close>, an emission it causes is done
  at clock \<open>t'\<close>, and the wall clock reads \<open>u\<close>.  \<open>SStatus\<close> is an error item, \<open>SIdle\<close> the idle
  timeout.
\<close>

datatype stream_item = SBlock compact_block nat nat nat | SStatus string | SIdle

definition pump_ctx :: "plan_chunk_cursor \<Rightarrow> string" where
  "pump_ctx cur = ''block stream '' @ nat_str (resume_from cur) @ ''..'' @ nat_str (pc_end cur) @
     '' (plan chunk '' @ nat_str (pc_plan_index cur) @ '')''"

text \<open>The clean end of the stream.\<close>

definition pump_end :: "gate_answer \<Rightarrow> string \<Rightarrow> chunk_splitter \<Rightarrow> plan_chunk_cursor \<Rightarrow> out_chan \<Rightarrow>
    (slipstream_error + pump_outcome) \<times> plan_chunk_cursor \<times> out_chan" where
  "pump_end adm ctx sp cur ch =
     (let tail = finish sp;
          tail_height = (case tail of Some (bs, n) \<Rightarrow> if bs = [] then None else Some (height (last bs))
                         | None \<Rightarrow> None)
      in if tail_height = Some (pc_end cur)
         then (let (cur', ch', ok) = emit_sub_chunk adm cur (fst (the tail)) (snd (the tail)) True ch
               in (Inr (if ok then Completed else ConsumerGone), cur', ch'))
         else (let got = (case tail_height of Some h \<Rightarrow> h | None \<Rightarrow> resume_from cur - 1);
                   err = Transport (ctx @ '': stream ended short at '' @ nat_str got @ '', expected '' @
                           nat_str (pc_end cur))
               in flush_then_fail adm tail cur ch err))"

fun pump_loop :: "(compact_block \<Rightarrow> nat) \<Rightarrow> gate_answer \<Rightarrow> nat \<Rightarrow> string \<Rightarrow> chunk_splitter \<Rightarrow> nat \<Rightarrow>
    plan_chunk_cursor \<Rightarrow> out_chan \<Rightarrow> progress option \<Rightarrow> stream_item list \<Rightarrow>
    (slipstream_error + pump_outcome) \<times> plan_chunk_cursor \<times> out_chan \<times> progress option" where
  "pump_loop enc adm deadline ctx sp last_emit cur ch p [] =
     (let (r, cur', ch') = pump_end adm ctx sp cur ch in (r, cur', ch', p))"
| "pump_loop enc adm deadline ctx sp last_emit cur ch p (SIdle # items) =
     (let (r, cur', ch') = flush_then_fail adm (finish sp) cur ch (idle_error ctx)
      in (r, cur', ch', p))"
| "pump_loop enc adm deadline ctx sp last_emit cur ch p (SStatus st # items) =
     (let (r, cur', ch') = flush_then_fail adm (finish sp) cur ch (Transport (ctx @ '': '' @ st))
      in (r, cur', ch', p))"
| "pump_loop enc adm deadline ctx sp last_emit cur ch p (SBlock b t t' u # items) =
     (let p = map_option (touch u) p;
          (sp1, completed) = push enc sp b
      in case completed of
           Some (bs, bytes) \<Rightarrow>
             (let (cur', ch', ok) = emit_sub_chunk adm cur bs bytes False ch
              in if \<not> ok then (Inr ConsumerGone, cur', ch', p)
                 else pump_loop enc adm deadline ctx sp1 t' cur' ch' p items)
         | None \<Rightarrow>
             if t - last_emit \<ge> deadline \<and> buffered_height sp1 \<noteq> Some (pc_end cur)
             then (case take_partial sp1 of
                     (sp2, Some (bs, bytes)) \<Rightarrow>
                       (let (cur', ch', ok) = emit_sub_chunk adm cur bs bytes False ch
                        in if \<not> ok then (Inr ConsumerGone, cur', ch', p)
                           else pump_loop enc adm deadline ctx sp2 t' cur' ch' p items)
                   | (sp2, None) \<Rightarrow> pump_loop enc adm deadline ctx sp2 last_emit cur ch p items)
             else pump_loop enc adm deadline ctx sp1 last_emit cur ch p items)"

definition pump_block_stream where
  "pump_block_stream enc adm split deadline t0 cur ch p items =
     pump_loop enc adm deadline (pump_ctx cur) (splitter_new split) t0 cur ch p items"

section \<open>The worker\<close>

text \<open>
  What opening the stream gives: a timeout, a status, or a stream opened at a clock reading.  A
  server is what it answers to the request for a first and a last height.
\<close>

datatype open_result = OpenTimeout | OpenStatus string | Opened nat "stream_item list"

type_synonym server = "nat \<Rightarrow> nat \<Rightarrow> open_result"

definition open_and_pump :: "(compact_block \<Rightarrow> nat) \<Rightarrow> gate_answer \<Rightarrow> fetch_plan \<Rightarrow> server \<Rightarrow>
    plan_chunk_cursor \<Rightarrow> out_chan \<Rightarrow> progress option \<Rightarrow>
    (slipstream_error + pump_outcome) \<times> plan_chunk_cursor \<times> out_chan \<times> progress option" where
  "open_and_pump enc adm plan srv cur ch p =
     (let range = ''get_block_range '' @ nat_str (resume_from cur) @ ''..'' @ nat_str (pc_end cur)
      in case srv (resume_from cur) (pc_end cur) of
           OpenTimeout \<Rightarrow>
             (Inl (Transport (range @ '': timed out after '' @ nat_str UNARY_TIMEOUT @ ''s'')), cur, ch, p)
         | OpenStatus st \<Rightarrow> (Inl (Transport (range @ '': '' @ st)), cur, ch, p)
         | Opened t0 items \<Rightarrow>
             pump_block_stream enc adm (split_bytes plan) (chunk_timeout plan) t0 cur ch p items)"

text \<open>Milliseconds slept before the retry that follows failed attempt \<open>n\<close>.\<close>

definition worker_backoff_ms :: "nat \<Rightarrow> nat" where
  "worker_backoff_ms n = saturating_mul64 250 (2 ^ min (n - 1) 10)"

datatype chunk_end = ChunkDone | ChunkGone | ChunkFailed slipstream_error | ChunkPending

text \<open>
  The retry loop for one claimed plan chunk: \<open>attempt\<close> is the counter before the attempt, each
  element of the list is one attempt (the server, and the reconnect that follows a failure).
  \<open>ChunkPending\<close>: the loop is still running when the list ends.
\<close>

fun worker_chunk :: "(compact_block \<Rightarrow> nat) \<Rightarrow> gate_answer \<Rightarrow> fetch_plan \<Rightarrow> nat \<times> nat \<times> nat \<Rightarrow> nat \<Rightarrow>
    (server \<times> (slipstream_error + unit)) list \<Rightarrow> plan_chunk_cursor \<Rightarrow> out_chan \<Rightarrow> progress option \<Rightarrow>
    chunk_end \<times> plan_chunk_cursor \<times> out_chan \<times> progress option" where
  "worker_chunk enc adm plan claim attempt [] cur ch p = (ChunkPending, cur, ch, p)"
| "worker_chunk enc adm plan claim attempt ((srv, reconnect) # env) cur ch p =
     (let (index, s, e) = claim;
          attempt = attempt + 1;
          (r, cur1, ch1, p1) = open_and_pump enc adm plan srv (cur\<lparr>emitted_this_attempt := False\<rparr>) ch p
      in case r of
           Inr Completed \<Rightarrow> (ChunkDone, cur1, ch1, p1)
         | Inr ConsumerGone \<Rightarrow> (ChunkGone, cur1, ch1, p1)
         | Inl err \<Rightarrow>
             (let attempt = (if emitted_this_attempt cur1 then 0 else attempt)
              in if attempt > retries_per_chunk plan
                 then (ChunkFailed (Transport (''plan chunk '' @ nat_str index @ '' ('' @ nat_str s @ ''..'' @
                         nat_str e @ '') failed after '' @ nat_str attempt @
                         '' zero-progress attempts: '' @ display_error err)), cur1, ch1, p1)
                 else (case reconnect of
                         Inl ce \<Rightarrow> (ChunkFailed ce, cur1, ch1, p1)
                       | Inr _ \<Rightarrow> worker_chunk enc adm plan claim attempt env cur1 ch1 p1)))"

definition cursor_new :: "nat \<times> nat \<times> nat \<Rightarrow> plan_chunk_cursor" where
  "cursor_new claim = (case claim of (index, s, e) \<Rightarrow>
     \<lparr>pc_plan_index = index, pc_end = e, resume_from = s, next_sub_index = 0,
      emitted_this_attempt = False\<rparr>)"

text \<open>
  The worker: connect, then fetch the chunks it claims one after the other until the plan is used
  up.  \<open>claims\<close> are the claims it makes on the shared cursor, each with the attempts on it;
  \<^term>\<open>None\<close> as a result: still running.
\<close>

fun worker_loop :: "(compact_block \<Rightarrow> nat) \<Rightarrow> gate_answer \<Rightarrow> fetch_plan \<Rightarrow>
    ((nat \<times> nat \<times> nat) option \<times> (server \<times> (slipstream_error + unit)) list) list \<Rightarrow>
    out_chan \<Rightarrow> progress option \<Rightarrow> (slipstream_error + unit) option \<times> out_chan \<times> progress option" where
  "worker_loop enc adm plan [] ch p = (None, ch, p)"
| "worker_loop enc adm plan ((None, env) # claims) ch p = (Some (Inr ()), ch, p)"
| "worker_loop enc adm plan ((Some claim, env) # claims) ch p =
     (let (r, cur, ch1, p1) = worker_chunk enc adm plan claim 0 env (cursor_new claim) ch p
      in case r of
           ChunkDone \<Rightarrow> worker_loop enc adm plan claims ch1 p1
         | ChunkGone \<Rightarrow> (Some (Inr ()), ch1, p1)
         | ChunkFailed err \<Rightarrow> (Some (Inl err), ch1, p1)
         | ChunkPending \<Rightarrow> (None, ch1, p1))"

definition worker where
  "worker enc adm plan conn claims ch p =
     (case conn of Inl ce \<Rightarrow> (Some (Inl ce), ch, p)
      | Inr _ \<Rightarrow> worker_loop enc adm plan claims ch p)"

section \<open>What the pump emits\<close>

text \<open>
  \<open>canon\<close> is the chain a server serves, by height.  A run of sub-chunks delivers the heights from
  \<open>r\<close> up to (excluding) \<open>r'\<close> under the sub-indices from \<open>k\<close> up to \<open>k'\<close>.
\<close>

definition sub_run :: "(nat \<Rightarrow> compact_block) \<Rightarrow> (compact_block \<Rightarrow> nat) \<Rightarrow> nat \<Rightarrow> nat \<Rightarrow> nat \<Rightarrow>
    sub_chunk list \<Rightarrow> nat \<Rightarrow> nat \<Rightarrow> bool" where
  "sub_run canon enc i r k subs r' k' \<longleftrightarrow>
     r \<le> r' \<and> k \<le> k' \<and>
     concat (map sc_blocks subs) = map canon [r..<r'] \<and> map sc_sub_index subs = [k..<k'] \<and>
     (\<forall>sub \<in> set subs. sc_plan_index sub = i \<and> sc_blocks sub \<noteq> [] \<and>
        sc_bytes sub = sum_list (map enc (sc_blocks sub)))"

lemma sub_run_Nil [simp]: "sub_run canon enc i r k [] r k"
  by (simp add: sub_run_def)

lemma sub_run_append:
  "sub_run canon enc i r k xs r' k' \<Longrightarrow> sub_run canon enc i r' k' ys r'' k'' \<Longrightarrow>
     sub_run canon enc i r k (xs @ ys) r'' k''"
  using upt_split [of r r' r''] upt_split [of k k' k''] by (auto simp: sub_run_def)

lemma sub_run_length: "sub_run canon enc i r k subs r' k' \<Longrightarrow> length subs = k' - k"
  unfolding sub_run_def by (metis length_map length_upt)

lemma sub_run_progress: "sub_run canon enc i r k subs r' k' \<Longrightarrow> subs \<noteq> [] \<Longrightarrow> r < r'"
proof -
  assume run: "sub_run canon enc i r k subs r' k'" and ne: "subs \<noteq> []"
  have "\<forall>sub \<in> set subs. sc_blocks sub \<noteq> []" using run by (simp add: sub_run_def)
  with ne have "concat (map sc_blocks subs) \<noteq> []" by (cases subs) auto
  then have "map canon [r..<r'] \<noteq> []" using run unfolding sub_run_def by metis
  then show "r < r'" by simp
qed

definition heights_ok :: "(nat \<Rightarrow> compact_block) \<Rightarrow> bool" where
  "heights_ok canon \<longleftrightarrow> (\<forall>h. height (canon h) = h)"

lemma last_height_canon:
  "heights_ok canon \<Longrightarrow> r < r' \<Longrightarrow> height (last (map canon [r..<r'])) = r' - 1"
  by (simp add: heights_ok_def last_map)

lemma emit_ok:
  assumes "emit_sub_chunk adm cur bs bytes lst ch = (cur', ch', True)"
    and "heights_ok canon" and "bs = map canon [resume_from cur..<r']" and "resume_from cur < r'"
    and "bytes = sum_list (map enc bs)" and "r' \<le> u64_max"
  shows "\<exists>sub. sent ch' = sent ch @ [sub] \<and> sc_is_last sub = lst \<and>
      sub_run canon enc (pc_plan_index cur) (resume_from cur) (next_sub_index cur) [sub] r'
        (next_sub_index cur') \<and>
      resume_from cur' = r' \<and> pc_end cur' = pc_end cur \<and> pc_plan_index cur' = pc_plan_index cur \<and>
      emitted_this_attempt cur' \<and> (accepts ch = None \<longrightarrow> accepts ch' = None)"
proof -
  have "height (last bs) = r' - 1" "bs \<noteq> []"
    using last_height_canon [OF assms(2,4)] assms(3,4) by auto
  moreover have "wrapping_add64 (r' - 1) 1 = r'"
    using assms(4,6) by (subst wrapping_add64_small) auto
  ultimately show ?thesis
    using assms
    by (auto simp: emit_sub_chunk_def chan_send_def Let_def sub_run_def split: option.splits nat.splits)
qed

lemma emit_gone:
  "emit_sub_chunk adm cur bs bytes lst ch = (cur', ch', False) \<Longrightarrow>
     cur' = cur \<and> ch' = ch \<and> accepts ch = Some 0"
  by (auto simp: emit_sub_chunk_def chan_send_def Let_def split: option.splits nat.splits if_splits)

text \<open>The blocks of a stream up to its first error, and whether it ends cleanly.\<close>

fun item_blocks :: "stream_item list \<Rightarrow> compact_block list" where
  "item_blocks (SBlock b t t' u # items) = b # item_blocks items"
| "item_blocks _ = []"

fun ends_cleanly :: "stream_item list \<Rightarrow> bool" where
  "ends_cleanly [] = True"
| "ends_cleanly (SBlock b t t' u # items) = ends_cleanly items"
| "ends_cleanly (_ # items) = False"

text \<open>
  The outcome of pumping a stream that serves the heights up to (excluding) \<open>n\<close> into a plan chunk
  that ends at \<open>pc_end cur\<close>, and the sub-chunks it sent.
\<close>

definition last_marked :: "sub_chunk list \<Rightarrow> bool" where
  "last_marked subs \<longleftrightarrow> subs \<noteq> [] \<and> sc_is_last (last subs) \<and> (\<forall>s \<in> set (butlast subs). \<not> sc_is_last s)"

definition none_marked :: "sub_chunk list \<Rightarrow> bool" where
  "none_marked subs \<longleftrightarrow> (\<forall>s \<in> set subs. \<not> sc_is_last s)"

lemma marked_Cons:
  "\<not> sc_is_last s \<Longrightarrow> last_marked subs \<Longrightarrow> last_marked (s # subs)"
  "\<not> sc_is_last s \<Longrightarrow> none_marked subs \<Longrightarrow> none_marked (s # subs)"
  by (auto simp: last_marked_def none_marked_def)

lemma marked_append:
  "none_marked xs \<Longrightarrow> last_marked ys \<Longrightarrow> last_marked (xs @ ys)"
  "none_marked xs \<Longrightarrow> none_marked ys \<Longrightarrow> none_marked (xs @ ys)"
  by (auto simp: last_marked_def none_marked_def butlast_append)

definition pump_good where
  "pump_good canon enc n clean cur ch res cur' ch' subs \<longleftrightarrow>
     sent ch' = sent ch @ subs \<and>
     sub_run canon enc (pc_plan_index cur) (resume_from cur) (next_sub_index cur) subs
       (resume_from cur') (next_sub_index cur') \<and>
     pc_end cur' = pc_end cur \<and> pc_plan_index cur' = pc_plan_index cur \<and>
     (emitted_this_attempt cur' \<longleftrightarrow> emitted_this_attempt cur \<or> subs \<noteq> []) \<and>
     (accepts ch = None \<longrightarrow> accepts ch' = None) \<and>
     (case res of
        Inr Completed \<Rightarrow>
          resume_from cur' = Suc (pc_end cur) \<and> n = Suc (pc_end cur) \<and> clean \<and> last_marked subs
      | Inr ConsumerGone \<Rightarrow>
          accepts ch \<noteq> None \<and> resume_from cur' \<le> pc_end cur \<and> none_marked subs
      | Inl err \<Rightarrow>
          is_transient err \<and> \<not> (clean \<and> n = Suc (pc_end cur)) \<and>
          (n \<le> pc_end cur \<longrightarrow> resume_from cur' = n) \<and> resume_from cur' \<le> pc_end cur \<and> none_marked subs)"

lemma pump_good_after_emit:
  assumes emit: "sent ch1 = sent ch @ [sub]" "\<not> sc_is_last sub"
    "sub_run canon enc (pc_plan_index cur) (resume_from cur) (next_sub_index cur) [sub]
       (resume_from cur1) (next_sub_index cur1)"
    "pc_end cur1 = pc_end cur" "pc_plan_index cur1 = pc_plan_index cur" "emitted_this_attempt cur1"
    "accepts ch = None \<longrightarrow> accepts ch1 = None"
    and good: "pump_good canon enc n clean cur1 ch1 res cur' ch' subs"
  shows "pump_good canon enc n clean cur ch res cur' ch' (sub # subs)"
proof -
  note g = good [unfolded pump_good_def emit(4,5)]
  have "sub_run canon enc (pc_plan_index cur) (resume_from cur) (next_sub_index cur) ([sub] @ subs)
         (resume_from cur') (next_sub_index cur')"
    by (rule sub_run_append [OF emit(3)]) (rule g [THEN conjunct2, THEN conjunct1])
  moreover have "last_marked subs \<Longrightarrow> last_marked (sub # subs)" "none_marked subs \<Longrightarrow> none_marked (sub # subs)"
    using marked_Cons [OF emit(2)] by blast+
  ultimately show ?thesis
    unfolding pump_good_def using g emit(1,6,7)
    by (auto split: sum.splits pump_outcome.splits)
qed

text \<open>
  Handing on the blocks received so far and carrying on, which the pump does when a piece
  completes, at the deadline and before a failure.
\<close>

lemma emit_then_good:
  assumes e: "emit_sub_chunk adm cur bs bytes False ch = (c1, h1, ok)"
    and ok: "heights_ok canon" "bs = map canon [resume_from cur..<m]" "resume_from cur < m"
      "bytes = sum_list (map enc bs)" "m \<le> pc_end cur" "pc_end cur < u64_max"
    and gone: "\<not> ok \<Longrightarrow> res = Inr ConsumerGone \<and> cur' = c1 \<and> ch' = h1"
    and cont: "ok \<Longrightarrow> resume_from c1 = m \<Longrightarrow> pc_end c1 = pc_end cur \<Longrightarrow>
      \<exists>subs. pump_good canon enc n clean c1 h1 res cur' ch' subs"
  shows "\<exists>subs. pump_good canon enc n clean cur ch res cur' ch' subs"
proof (cases ok)
  case False
  with e gone emit_gone [of adm cur bs bytes False ch c1 h1] ok(3,5) show ?thesis
    by (intro exI [of _ "[]"]) (auto simp: pump_good_def none_marked_def)
next
  case True
  then have e': "emit_sub_chunk adm cur bs bytes False ch = (c1, h1, True)" using e by simp
  from emit_ok [OF e' ok(1-4)] ok(5,6)
  obtain sub where sub: "sent h1 = sent ch @ [sub]" "\<not> sc_is_last sub"
    "sub_run canon enc (pc_plan_index cur) (resume_from cur) (next_sub_index cur) [sub]
      (resume_from c1) (next_sub_index c1)" "pc_end c1 = pc_end cur"
    "pc_plan_index c1 = pc_plan_index cur" "emitted_this_attempt c1"
    "accepts ch = None \<longrightarrow> accepts h1 = None" and c1: "resume_from c1 = m"
    by auto
  from cont [OF True c1 sub(4)] show ?thesis using pump_good_after_emit [OF sub] by blast
qed

text \<open>The two ways out of the loop: a failing attempt, and the clean end.\<close>

lemma flush_good:
  assumes "flush_then_fail adm (finish sp) cur ch err = (res, cur', ch')"
    and "heights_ok canon" and "is_transient err"
    and "acc sp = map canon [resume_from cur..<n]" and "splitter_ok enc sp"
    and "resume_from cur \<le> n" and "n \<le> Suc (pc_end cur)" and "resume_from cur \<le> pc_end cur"
    and "pc_end cur < u64_max" and "\<not> clean \<or> n \<le> pc_end cur"
  shows "\<exists>subs. pump_good canon enc n clean cur ch res cur' ch' subs"
proof (cases "resume_from cur < n \<and> n \<le> pc_end cur")
  case True
  then have acc: "acc sp \<noteq> []" "height (last (acc sp)) = n - 1"
    using last_height_canon [OF assms(2)] assms(4) by auto
  have ne: "n - 1 \<noteq> pc_end cur" using True by linarith
  obtain c1 h1 ok where e: "emit_sub_chunk adm cur (acc sp) (acc_bytes sp) False ch = (c1, h1, ok)"
    by (cases "emit_sub_chunk adm cur (acc sp) (acc_bytes sp) False ch")
  have res: "res = (if ok then Inl err else Inr ConsumerGone)" "cur' = c1" "ch' = h1"
    using assms(1) e acc ne by (auto simp: flush_then_fail_def finish_def split: if_splits)
  show ?thesis
  proof (rule emit_then_good [OF e assms(2,4)])
    show "acc_bytes sp = sum_list (map enc (acc sp))" using assms(5) by (simp add: splitter_ok_def)
    assume "ok" "resume_from c1 = n" "pc_end c1 = pc_end cur"
    then show "\<exists>subs. pump_good canon enc n clean c1 h1 res cur' ch' subs"
      using res assms(3) True by (intro exI [of _ "[]"]) (auto simp: pump_good_def none_marked_def)
  qed (use True res assms(9) in auto)
next
  case False
  have "cur' = cur \<and> ch' = ch \<and> res = Inl err"
  proof (cases "resume_from cur < n")
    case True
    then have "acc sp \<noteq> []" "height (last (acc sp)) = pc_end cur"
      using last_height_canon [OF assms(2) True] assms(4,7) False by auto
    then show ?thesis using assms(1) by (simp add: flush_then_fail_def finish_def)
  next
    case False
    then show ?thesis using assms(1,4) by (simp add: flush_then_fail_def finish_def)
  qed
  moreover have "n \<le> pc_end cur \<Longrightarrow> resume_from cur = n" using False assms(6) by auto
  ultimately show ?thesis
    using assms(3,8,10) by (intro exI [of _ "[]"]) (auto simp: pump_good_def none_marked_def)
qed

lemma pump_end_good:
  assumes "pump_end adm ctx sp cur ch = (res, cur', ch')"
    and "heights_ok canon"
    and "acc sp = map canon [resume_from cur..<n]" and "splitter_ok enc sp"
    and "resume_from cur \<le> n" and "n \<le> Suc (pc_end cur)" and "resume_from cur \<le> pc_end cur"
    and "pc_end cur < u64_max"
  shows "\<exists>subs. pump_good canon enc n True cur ch res cur' ch' subs"
proof (cases "n = Suc (pc_end cur)")
  case True
  then have lt: "resume_from cur < n" using assms(7) by simp
  have acc: "acc sp \<noteq> []" "height (last (acc sp)) = pc_end cur"
    using last_height_canon [OF assms(2) lt] assms(3) True lt by auto
  obtain c1 h1 ok where e: "emit_sub_chunk adm cur (acc sp) (acc_bytes sp) True ch = (c1, h1, ok)"
    by (cases "emit_sub_chunk adm cur (acc sp) (acc_bytes sp) True ch")
  then have res: "res = Inr (if ok then Completed else ConsumerGone)" "cur' = c1" "ch' = h1"
    using assms(1) acc by (simp_all add: pump_end_def finish_def)
  show ?thesis
  proof (cases ok)
    case gone: False
    with e res emit_gone [of adm cur "acc sp" "acc_bytes sp" True ch c1 h1] assms(7) show ?thesis
      by (intro exI [of _ "[]"]) (simp add: pump_good_def none_marked_def)
  next
    case ok: True
    have "acc_bytes sp = sum_list (map enc (acc sp))" using assms(4) by (simp add: splitter_ok_def)
    moreover have "emit_sub_chunk adm cur (acc sp) (acc_bytes sp) True ch = (c1, h1, True)"
      using e ok by simp
    ultimately
    obtain sub where "sent h1 = sent ch @ [sub]" "sc_is_last sub"
      "sub_run canon enc (pc_plan_index cur) (resume_from cur) (next_sub_index cur) [sub] n
        (next_sub_index c1)" "resume_from c1 = n" "pc_end c1 = pc_end cur"
      "pc_plan_index c1 = pc_plan_index cur" "emitted_this_attempt c1"
      "accepts ch = None \<longrightarrow> accepts h1 = None"
      using emit_ok [OF _ assms(2,3) lt, of adm "acc_bytes sp" True ch c1 h1 enc] assms(8) True by auto
    then show ?thesis
      using res ok True by (intro exI [of _ "[sub]"]) (simp add: pump_good_def last_marked_def)
  qed
next
  case False
  have "(case finish sp of Some (bs, n) \<Rightarrow> if bs = [] then None else Some (height (last bs)) | None \<Rightarrow> None)
      \<noteq> Some (pc_end cur)"
    using last_height_canon [OF assms(2), of "resume_from cur" n] assms(3,6) False
    by (auto simp: finish_def)
  then obtain msg where "flush_then_fail adm (finish sp) cur ch (Transport msg) = (res, cur', ch')"
    using assms(1) by (auto simp: pump_end_def Let_def)
  with assms False show ?thesis
    by (intro flush_good [of adm sp cur ch "Transport msg"]) auto
qed

lemma pump_loop_hold:
  assumes "push enc sp b = (sp1, None)"
    and "\<not> (t - last_emit \<ge> deadline \<and> buffered_height sp1 \<noteq> Some (pc_end cur))"
  shows "pump_loop enc adm deadline ctx sp last_emit cur ch p (SBlock b t t' u # items) =
    pump_loop enc adm deadline ctx sp1 last_emit cur ch (map_option (touch u) p) items"
  unfolding pump_loop.simps Let_def assms(1) prod.case option.case if_not_P [OF assms(2)] ..

lemma pump_loop_good:
  assumes "pump_loop enc adm deadline ctx sp last_emit cur ch p items = (res, cur', ch', p')"
    and "heights_ok canon" and "acc sp = map canon [resume_from cur..<m]"
    and "item_blocks items = map canon [m..<n]" and "splitter_ok enc sp"
    and "resume_from cur \<le> m" and "m \<le> n" and "n \<le> Suc (pc_end cur)"
    and "resume_from cur \<le> pc_end cur" and "pc_end cur < u64_max"
  shows "\<exists>subs. pump_good canon enc n (ends_cleanly items) cur ch res cur' ch' subs"
  using assms
proof (induction items arbitrary: sp last_emit cur ch p m)
  case Nil
  then have "m = n" by auto
  with Nil show ?case by (auto split: prod.splits intro: pump_end_good)
next
  case (Cons item items)
  show ?case
  proof (cases item)
    case SIdle
    with Cons.prems have "m = n" by auto
    with Cons.prems SIdle show ?thesis
      by (auto split: prod.splits simp: idle_error_def intro!: flush_good)
  next
    case (SStatus st)
    with Cons.prems have "m = n" by auto
    with Cons.prems SStatus show ?thesis
      by (auto split: prod.splits intro!: flush_good)
  next
    case (SBlock b t t' u)
    from Cons.prems(4) SBlock have m: "m < n" "b = canon m" "item_blocks items = map canon [Suc m..<n]"
      by (auto simp: Cons_eq_map_conv upt_eq_Cons_conv)
    obtain sp1 completed where pu: "push enc sp b = (sp1, completed)" by (cases "push enc sp b")
    have ok1: "splitter_ok enc sp1" using spl.put_invar [OF Cons.prems(5) pu] .
    have m': "Suc m \<le> n" "resume_from cur \<le> Suc m" using m(1) Cons.prems(6) by auto
    show ?thesis
    proof (cases completed)
      case (Some piece)
      obtain bs bytes where piece: "piece = (bs, bytes)" by (cases piece)
      have y: "bs = acc sp" "acc sp1 = [b]" "bs \<noteq> []" "bytes = sum_list (map enc bs)"
        using spl.put_yields [OF Cons.prems(5)] spl.put_fits [OF Cons.prems(5)] pu Some piece
        by (auto simp: piece_fits_def)
      obtain c1 h1 ok where e: "emit_sub_chunk adm cur bs bytes False ch = (c1, h1, ok)"
        by (cases "emit_sub_chunk adm cur bs bytes False ch")
      show ?thesis
      proof (rule emit_then_good [OF e Cons.prems(2) _ _ y(4) _ Cons.prems(10)])
        show "bs = map canon [resume_from cur..<m]" using y(1) Cons.prems(3) by simp
        then show "resume_from cur < m" using y(3) by auto
        show "m \<le> pc_end cur" using m(1) Cons.prems(8) by simp
        show "res = Inr ConsumerGone \<and> cur' = c1 \<and> ch' = h1" if "\<not> ok"
          using that Cons.prems(1) SBlock pu Some piece e by simp
        assume ok: ok and c1: "resume_from c1 = m" "pc_end c1 = pc_end cur"
        have run: "pump_loop enc adm deadline ctx sp1 t' c1 h1 (map_option (touch u) p) items =
            (res, cur', ch', p')"
          using Cons.prems(1) SBlock pu Some piece e ok by simp
        have "acc sp1 = map canon [resume_from c1..<Suc m]" using y(2) m(2) c1 by simp
        from Cons.IH [OF run Cons.prems(2) this m(3) ok1 _ m'(1)] Cons.prems(8,10) c1 m(1) SBlock
        show "\<exists>subs. pump_good canon enc n (ends_cleanly (item # items)) c1 h1 res cur' ch' subs"
          by auto
      qed
    next
      case None
      have y: "acc sp1 = map canon [resume_from cur..<Suc m]"
        using spl.put_keeps [OF Cons.prems(5)] pu None Cons.prems(3,6) m(2) by simp
      show ?thesis
      proof (cases "t - last_emit \<ge> deadline \<and> buffered_height sp1 \<noteq> Some (pc_end cur)")
        case False
        then have run: "pump_loop enc adm deadline ctx sp1 last_emit cur ch (map_option (touch u) p) items =
            (res, cur', ch', p')"
          using Cons.prems(1) SBlock pu None pump_loop_hold by metis
        from Cons.IH [OF run Cons.prems(2) y m(3) ok1 m'(2,1) Cons.prems(8-10)] SBlock
        show ?thesis by simp
      next
        case True
        have lt: "resume_from cur < Suc m" using Cons.prems(6) by simp
        then have ne: "acc sp1 \<noteq> []" using y by simp
        then obtain sp2 where tp: "take_partial sp1 = (sp2, Some (acc sp1, acc_bytes sp1))" "acc sp2 = []"
          by (simp add: take_partial_def)
        have ok2: "splitter_ok enc sp2" using spl.out_invar [OF ok1 tp(1)] .
        obtain c1 h1 ok where e: "emit_sub_chunk adm cur (acc sp1) (acc_bytes sp1) False ch = (c1, h1, ok)"
          by (cases "emit_sub_chunk adm cur (acc sp1) (acc_bytes sp1) False ch")
        have below: "Suc m \<le> pc_end cur"
          using last_height_canon [OF Cons.prems(2) lt] y True ne m(1) Cons.prems(8)
          by (simp add: buffered_height_def)
        show ?thesis
        proof (rule emit_then_good [OF e Cons.prems(2) y lt _ below Cons.prems(10)])
          show "acc_bytes sp1 = sum_list (map enc (acc sp1))" using ok1 by (simp add: splitter_ok_def)
          show "res = Inr ConsumerGone \<and> cur' = c1 \<and> ch' = h1" if "\<not> ok"
            using that Cons.prems(1) SBlock pu None True tp e by simp
          assume ok: ok and c1: "resume_from c1 = Suc m" "pc_end c1 = pc_end cur"
          have run: "pump_loop enc adm deadline ctx sp2 t' c1 h1 (map_option (touch u) p) items =
              (res, cur', ch', p')"
            using Cons.prems(1) SBlock pu None True tp e ok by simp
          have "acc sp2 = map canon [resume_from c1..<Suc m]" using tp(2) c1 by simp
          from Cons.IH [OF run Cons.prems(2) this m(3) ok2 _ m'(1)] Cons.prems(8,10) c1 below SBlock
          show "\<exists>subs. pump_good canon enc n (ends_cleanly (item # items)) c1 h1 res cur' ch' subs"
            by auto
        qed
      qed
    qed
  qed
qed

text \<open>
  A stream serves the chain from \<open>s\<close> on: its blocks are the chain's blocks from \<open>s\<close>, in order,
  none of them past \<open>e\<close>; it may stop anywhere, cleanly or with an error.
\<close>

definition serves :: "(nat \<Rightarrow> compact_block) \<Rightarrow> nat \<Rightarrow> nat \<Rightarrow> stream_item list \<Rightarrow> bool" where
  "serves canon s e items \<longleftrightarrow>
     item_blocks items = map canon [s..<s + length (item_blocks items)] \<and>
     s + length (item_blocks items) \<le> Suc e"

lemma pump_block_stream_good:
  assumes "pump_block_stream enc adm split deadline t0 cur ch p items = (res, cur', ch', p')"
    and "heights_ok canon" and "serves canon (resume_from cur) (pc_end cur) items"
    and "resume_from cur \<le> pc_end cur" and "pc_end cur < u64_max"
  shows "\<exists>subs. pump_good canon enc (resume_from cur + length (item_blocks items)) (ends_cleanly items)
    cur ch res cur' ch' subs"
  using assms unfolding pump_block_stream_def serves_def
  by (intro pump_loop_good [where m = "resume_from cur"]) auto

text \<open>
  One attempt on a plan chunk loses nothing and repeats nothing.  Whatever prefix of the
  requested blocks the server streams, and however the stream ends (cleanly, with an error, or by
  going silent), the sub-chunks the pump sends carry exactly the blocks from the old resume height
  to the new one, in order, under consecutive sub-indices.  The chunk is reported complete exactly
  with its final block, and only then is a sub-chunk marked last; a failed attempt has handed on
  every block it received (the chunk's final block apart) and fails with a retryable error.
\<close>

theorem pump_hands_on_everything:
  assumes "pump_block_stream enc adm split deadline t0 cur ch p items = (res, cur', ch', p')"
    and "heights_ok canon" and "serves canon (resume_from cur) (pc_end cur) items"
    and "resume_from cur \<le> pc_end cur" and "pc_end cur < u64_max" and "accepts ch = None"
  shows "\<exists>subs. sent ch' = sent ch @ subs \<and>
     concat (map sc_blocks subs) = map canon [resume_from cur..<resume_from cur'] \<and>
     map sc_sub_index subs = [next_sub_index cur..<next_sub_index cur'] \<and>
     (case res of
        Inr outcome \<Rightarrow> outcome = Completed \<and> resume_from cur' = Suc (pc_end cur) \<and> last_marked subs
      | Inl err \<Rightarrow> is_transient err \<and> none_marked subs \<and>
          (resume_from cur + length (item_blocks items) \<le> pc_end cur \<longrightarrow>
             resume_from cur' = resume_from cur + length (item_blocks items)) \<and>
          resume_from cur' \<le> pc_end cur) \<and>
     (ends_cleanly items \<and> resume_from cur + length (item_blocks items) = Suc (pc_end cur) \<longleftrightarrow>
        res = Inr Completed)"
proof -
  from pump_block_stream_good [OF assms(1-5)] obtain subs where
    good: "pump_good canon enc (resume_from cur + length (item_blocks items)) (ends_cleanly items)
      cur ch res cur' ch' subs" ..
  then show ?thesis
    using assms(6)
    by (intro exI [of _ subs])
      (auto simp: pump_good_def sub_run_def split: sum.splits pump_outcome.splits)
qed

section \<open>What the worker delivers\<close>

definition honest :: "(nat \<Rightarrow> compact_block) \<Rightarrow> server \<Rightarrow> bool" where
  "honest canon srv \<longleftrightarrow>
     (\<forall>s e. s \<le> e \<longrightarrow> (case srv s e of Opened t0 items \<Rightarrow> serves canon s e items | _ \<Rightarrow> True))"

lemma open_and_pump_good:
  assumes run: "open_and_pump enc adm plan srv (cur\<lparr>emitted_this_attempt := False\<rparr>) ch p = (res, cur', ch', p')"
    and ok: "heights_ok canon" "honest canon srv" "resume_from cur \<le> pc_end cur" "pc_end cur < u64_max"
  shows "\<exists>n clean subs. pump_good canon enc n clean (cur\<lparr>emitted_this_attempt := False\<rparr>) ch res cur' ch' subs"
proof (cases "srv (resume_from cur) (pc_end cur)")
  case (Opened t0 items)
  let ?cur = "cur\<lparr>emitted_this_attempt := False\<rparr>"
  have "pump_block_stream enc adm (split_bytes plan) (chunk_timeout plan) t0 ?cur ch p items = (res, cur', ch', p')"
    using run Opened by (simp add: open_and_pump_def)
  moreover have "serves canon (resume_from ?cur) (pc_end ?cur) items"
    using ok(2) [unfolded honest_def, rule_format, OF ok(3)] Opened by simp
  ultimately have "\<exists>subs. pump_good canon enc (resume_from ?cur + length (item_blocks items))
      (ends_cleanly items) ?cur ch res cur' ch' subs"
    using ok by (intro pump_block_stream_good) auto
  then show ?thesis by blast
qed (use run ok in \<open>auto simp: open_and_pump_def pump_good_def none_marked_def
      intro!: exI [of _ "resume_from cur"] exI [of _ False] exI [of _ "[]"]\<close>)

definition chunk_good where
  "chunk_good canon enc cur ch r cur' ch' subs \<longleftrightarrow>
     sent ch' = sent ch @ subs \<and>
     sub_run canon enc (pc_plan_index cur) (resume_from cur) (next_sub_index cur) subs
       (resume_from cur') (next_sub_index cur') \<and>
     (case r of
        ChunkDone \<Rightarrow> resume_from cur' = Suc (pc_end cur) \<and> last_marked subs
      | ChunkGone \<Rightarrow> accepts ch \<noteq> None \<and> resume_from cur' \<le> pc_end cur \<and> none_marked subs
      | _ \<Rightarrow> resume_from cur' \<le> pc_end cur \<and> none_marked subs)"

lemma chunk_good_append:
  assumes "sent ch1 = sent ch @ subs1" "none_marked subs1"
    "sub_run canon enc (pc_plan_index cur) (resume_from cur) (next_sub_index cur) subs1
       (resume_from cur1) (next_sub_index cur1)"
    "pc_end cur1 = pc_end cur" "pc_plan_index cur1 = pc_plan_index cur"
    "accepts ch = None \<longrightarrow> accepts ch1 = None"
    and good: "chunk_good canon enc cur1 ch1 r cur' ch' subs"
  shows "chunk_good canon enc cur ch r cur' ch' (subs1 @ subs)"
proof -
  note g = good [unfolded chunk_good_def assms(4,5)]
  have "sub_run canon enc (pc_plan_index cur) (resume_from cur) (next_sub_index cur) (subs1 @ subs)
         (resume_from cur') (next_sub_index cur')"
    by (rule sub_run_append [OF assms(3)]) (rule g [THEN conjunct2, THEN conjunct1])
  then show ?thesis
    unfolding chunk_good_def using g assms(1,6) marked_append [OF assms(2), of subs]
    by (auto split: chunk_end.splits)
qed

text \<open>The number of attempts a chunk can still take.\<close>

definition attempts_left :: "fetch_plan \<Rightarrow> nat \<Rightarrow> plan_chunk_cursor \<Rightarrow> nat" where
  "attempts_left plan attempt cur =
     (Suc (pc_end cur) - resume_from cur) * (retries_per_chunk plan + 1) + (retries_per_chunk plan - attempt)"

lemma worker_chunk_good:
  assumes "worker_chunk enc adm plan claim attempt env cur ch p = (r, cur', ch', p')"
    and "heights_ok canon" "\<forall>a \<in> set env. honest canon (fst a)"
    and "resume_from cur \<le> pc_end cur" "pc_end cur < u64_max" "attempt \<le> retries_per_chunk plan"
  shows "(\<exists>subs. chunk_good canon enc cur ch r cur' ch' subs) \<and>
    (attempts_left plan attempt cur < length env \<longrightarrow> r \<noteq> ChunkPending)"
  using assms
proof (induction env arbitrary: attempt cur ch p)
  case Nil
  then show ?case by (auto simp: chunk_good_def none_marked_def intro!: exI [of _ "[]"])
next
  case (Cons a env)
  obtain srv rc where a: "a = (srv, rc)" by (cases a)
  obtain index s e where claim: "claim = (index, s, e)" by (cases claim)
  let ?cur = "cur\<lparr>emitted_this_attempt := False\<rparr>"
  obtain res cur1 ch1 p1 where o: "open_and_pump enc adm plan srv ?cur ch p = (res, cur1, ch1, p1)"
    by (cases "open_and_pump enc adm plan srv ?cur ch p")
  obtain n clean subs1 where g: "pump_good canon enc n clean ?cur ch res cur1 ch1 subs1"
    using open_and_pump_good [OF o Cons.prems(2) _ Cons.prems(4,5)] Cons.prems(3) a by auto
  define att where "att = (if emitted_this_attempt cur1 then 0 else attempt + 1)"
  show ?case
  proof (cases "\<exists>err. res = Inl err \<and> att \<le> retries_per_chunk plan \<and> rc = Inr ()")
    case False
    have "chunk_good canon enc cur ch r cur' ch' subs1 \<and> r \<noteq> ChunkPending"
      using g Cons.prems(1) a claim o False
      by (auto simp: pump_good_def chunk_good_def Let_def att_def
          split: sum.splits pump_outcome.splits if_splits)
    then show ?thesis by blast
  next
    case True
    then have err: "sent ch1 = sent ch @ subs1" "none_marked subs1"
      "sub_run canon enc (pc_plan_index cur) (resume_from cur) (next_sub_index cur) subs1
         (resume_from cur1) (next_sub_index cur1)"
      "pc_end cur1 = pc_end cur" "pc_plan_index cur1 = pc_plan_index cur"
      "accepts ch = None \<longrightarrow> accepts ch1 = None"
      and cur1: "resume_from cur1 \<le> pc_end cur" "emitted_this_attempt cur1 \<longleftrightarrow> subs1 \<noteq> []"
      using g by (auto simp: pump_good_def)
    have run: "worker_chunk enc adm plan claim att env cur1 ch1 p1 = (r, cur', ch', p')"
      using Cons.prems(1) a claim o True
      by (auto simp: Let_def att_def split: if_splits)
    have IH: "(\<exists>subs. chunk_good canon enc cur1 ch1 r cur' ch' subs) \<and>
        (attempts_left plan att cur1 < length env \<longrightarrow> r \<noteq> ChunkPending)"
      using Cons.IH [OF run Cons.prems(2)] Cons.prems(3,5) cur1 err(4) True by auto
    have "attempts_left plan att cur1 < attempts_left plan attempt cur"
    proof (cases "subs1 = []")
      case True
      then have "resume_from cur1 = resume_from cur"
        using err(3) by (auto simp: sub_run_def)
      then show ?thesis
        using True cur1(2) err(4) \<open>\<exists>err. _\<close> Cons.prems(6) by (auto simp: attempts_left_def att_def)
    next
      case False
      then have "resume_from cur < resume_from cur1" using sub_run_progress [OF err(3)] by blast
      then have "Suc (Suc (pc_end cur) - resume_from cur1) \<le> Suc (pc_end cur) - resume_from cur"
        using cur1(1) by linarith
      then have "Suc (Suc (pc_end cur) - resume_from cur1) * (retries_per_chunk plan + 1)
          \<le> (Suc (pc_end cur) - resume_from cur) * (retries_per_chunk plan + 1)"
        by (rule mult_le_mono1)
      then show ?thesis
        using False cur1(2) err(4) by (simp add: attempts_left_def att_def)
    qed
    moreover have "\<exists>subs. chunk_good canon enc cur ch r cur' ch' subs"
      using IH chunk_good_append [OF err] by blast
    ultimately show ?thesis using IH by auto
  qed
qed

text \<open>
  C8.  A worker delivers a plan chunk without gap, repetition or reordering across all its
  retries.  Let the servers it reaches serve the chain faithfully but unreliably: each attempt may
  fail to open, break off, time out or end short at any point.  Then all sub-chunks the worker
  sends for the chunk, over all attempts together, carry exactly the blocks from the chunk's start
  up to the resume height, under the sub-indices 0, 1, 2, \<dots>; when the worker finishes the chunk
  they are the whole chunk and exactly the last is marked so, otherwise none is marked and the
  chunk's final block was not sent.
\<close>

theorem worker_delivers_chunk:
  assumes "worker_chunk enc adm plan (i, s, e) 0 env (cursor_new (i, s, e)) ch p = (r, cur, ch', p')"
    and "heights_ok canon" and "\<forall>a \<in> set env. honest canon (fst a)" and "s \<le> e" and "e < u64_max"
  shows "\<exists>subs. sent ch' = sent ch @ subs \<and>
     concat (map sc_blocks subs) = map canon [s..<resume_from cur] \<and>
     map sc_sub_index subs = [0..<length subs] \<and>
     (\<forall>sub \<in> set subs. sc_plan_index sub = i \<and> sc_blocks sub \<noteq> []) \<and>
     (if r = ChunkDone then resume_from cur = Suc e \<and> last_marked subs
      else resume_from cur \<le> e \<and> none_marked subs)"
proof -
  have "\<exists>subs. chunk_good canon enc (cursor_new (i, s, e)) ch r cur ch' subs"
    using worker_chunk_good [OF assms(1-3)] assms(4,5) by (simp add: cursor_new_def)
  then obtain subs where "chunk_good canon enc (cursor_new (i, s, e)) ch r cur ch' subs" ..
  then have g: "sent ch' = sent ch @ subs" "sub_run canon enc i s 0 subs (resume_from cur) (next_sub_index cur)"
    "if r = ChunkDone then resume_from cur = Suc e \<and> last_marked subs
     else resume_from cur \<le> e \<and> none_marked subs"
    by (auto simp: chunk_good_def cursor_new_def split: chunk_end.splits)
  then show ?thesis
    using sub_run_length [OF g(2)] by (intro exI [of _ subs]) (simp add: sub_run_def)
qed


text \<open>
  A server that answers with the first two blocks of what it is asked for and then breaks off,
  and one that refuses; the worker gets through a chunk of three blocks with the first.
\<close>

definition flaky :: server where
  "flaky s e = Opened 0 (map (\<lambda>h. SBlock (demo_block h) 0 0 0) [s..<min (s + 2) (Suc e)] @
     (if s + 2 \<le> e then [SStatus ''reset''] else []))"

definition demo_plan :: fetch_plan where
  "demo_plan = \<lparr>plan_start = 5, plan_end = 7, chunk_blocks = 3, streams = 1, retries_per_chunk = 3,
     chunk_timeout = 120, split_bytes = 100, failover = None\<rparr>"

definition demo_chan :: out_chan where "demo_chan = \<lparr>sent = [], accepts = None\<rparr>"

lemma item_blocks_map_SBlock:
  "item_blocks (map (\<lambda>h. SBlock (f h) 0 0 0) xs @ (if c then [SStatus m] else [])) = map f xs"
  by (induction xs) auto

lemma flaky_honest: "honest demo_block flaky"
  by (auto simp: honest_def flaky_def serves_def item_blocks_map_SBlock simp del: upt_Suc)

lemma demo_heights: "heights_ok demo_block"
  by (simp add: heights_ok_def demo_block_def)

definition demo_worker_run where
  "demo_worker_run n =
     worker_chunk (\<lambda>b. 10) (\<lambda>i n. None) demo_plan (0, 5, 7) 0 (replicate n (flaky, Inr ()))
       (cursor_new (0, 5, 7)) demo_chan None"

lemmas demo_worker_eval =
  demo_worker_run_def demo_plan_def demo_chan_def cursor_new_def open_and_pump_def flaky_def
  pump_block_stream_def emit_sub_chunk_def chan_send_def flush_then_fail_def finish_def pump_end_def
  push_cases splitter_new_def demo_block_def Let_def wrapping_add64_def u64_max_def upt_conv_Cons
  buffered_height_def

lemma demo_worker_run_result:
  "fst (demo_worker_run 2) = ChunkDone \<and> map sc_is_last (sent (fst (snd (snd (demo_worker_run 2))))) = [False, True]"
  by (simp add: demo_worker_eval numeral_2_eq_2)

theorem worker_delivers_chunk_witness:
  "fst (demo_worker_run 2) = ChunkDone \<and>
   concat (map sc_blocks (sent (fst (snd (snd (demo_worker_run 2)))))) = map demo_block [5..<8]"
proof -
  obtain r cur ch' p' where run: "demo_worker_run 2 = (r, cur, ch', p')" by (cases "demo_worker_run 2")
  have r: "r = ChunkDone" using demo_worker_run_result run by simp
  have "\<forall>a \<in> set (replicate 2 (flaky, Inr ())). honest demo_block (fst a)" by (simp add: flaky_honest)
  from worker_delivers_chunk [OF run [unfolded demo_worker_run_def] demo_heights this]
  show ?thesis using run r by (auto simp: demo_chan_def u64_max_def)
qed


definition demo_stream :: "stream_item list" where
  "demo_stream = [SBlock (demo_block 5) 0 0 0, SBlock (demo_block 6) 200 210 0, SStatus ''reset'']"

theorem pump_hands_on_everything_witness:
  "\<exists>subs. sent (fst (snd (snd (pump_block_stream (\<lambda>b. 10) (\<lambda>i n. None) 100 120 0 (cursor_new (0, 5, 7))
      demo_chan None demo_stream)))) = subs \<and> concat (map sc_blocks subs) = map demo_block [5..<7]"
proof -
  obtain res cur' ch' p' where run: "pump_block_stream (\<lambda>b. 10) (\<lambda>i n. None) 100 120 0
      (cursor_new (0, 5, 7)) demo_chan None demo_stream = (res, cur', ch', p')"
    by (metis prod_cases4)
  have "serves demo_block (resume_from (cursor_new (0, 5, 7))) (pc_end (cursor_new (0, 5, 7))) demo_stream"
    by (simp add: serves_def demo_stream_def cursor_new_def upt_conv_Cons)
  from pump_hands_on_everything [OF run demo_heights this] show ?thesis
    using run by (auto simp: cursor_new_def demo_chan_def demo_stream_def u64_max_def split: sum.splits)
qed

end
