(* ===== verification/Slip_Wire.thy ===== *)
theory Slip_Wire
  imports Slip_Plan
begin

text \<open>
  Wire health (\<open>src/core/src/fetch.rs\<close>): the throughput figures of \<open>FetchStats\<close> and the
  wire-collapse detector of the release stage.  Rates and times are exact rationals where the
  source has \<open>f64\<close>; the clock readings are arguments, as they are in the source.
\<close>

section \<open>Throughput of a finished fetch\<close>

record fetch_stats =
  fs_blocks :: nat
  fs_bytes :: nat
  fs_elapsed :: rat
  fs_wire_samples :: "(rat \<times> nat) list"

definition mib :: rat where "mib = 1024 * 1024"

definition blocks_per_sec :: "fetch_stats \<Rightarrow> rat" where
  "blocks_per_sec s = (if fs_elapsed s > 0 then of_nat (fs_blocks s) / fs_elapsed s else 0)"

definition megabytes_per_sec :: "fetch_stats \<Rightarrow> rat" where
  "megabytes_per_sec s = (if fs_elapsed s > 0 then of_nat (fs_bytes s) / mib / fs_elapsed s else 0)"

text \<open>The inner loop of \<open>worst_window_mbps\<close>: the first index from \<open>j\<close> on a full window after \<open>i\<close>.\<close>

function window_end :: "(rat \<times> nat) list \<Rightarrow> rat \<Rightarrow> nat \<Rightarrow> nat \<Rightarrow> nat" where
  "window_end xs w i j =
     (if j < length xs \<and> fst (xs ! j) - fst (xs ! i) < w then window_end xs w i (Suc j) else j)"
  by auto
termination by (relation "measure (\<lambda>(xs, w, i, j). length xs - j)") auto

declare window_end.simps [simp del]

definition window_rate :: "(rat \<times> nat) list \<Rightarrow> nat \<Rightarrow> nat \<Rightarrow> rat" where
  "window_rate xs i j =
     of_nat (snd (xs ! j) - snd (xs ! i)) / mib / (fst (xs ! j) - fst (xs ! i))"

text \<open>The outer loop; \<^term>\<open>None\<close> stands for the initial infinity.\<close>

definition min_opt :: "rat option \<Rightarrow> rat \<Rightarrow> rat option" where
  "min_opt m r = (case m of None \<Rightarrow> Some r | Some x \<Rightarrow> Some (min x r))"

fun worst_loop :: "(rat \<times> nat) list \<Rightarrow> rat \<Rightarrow> nat list \<Rightarrow> nat \<Rightarrow> rat option \<Rightarrow> rat option" where
  "worst_loop xs w [] j worst = worst"
| "worst_loop xs w (i # is) j worst =
     (let j = (if j \<le> i then i + 1 else j);
          j = window_end xs w i j
      in if j = length xs then worst
         else worst_loop xs w is j (min_opt worst (window_rate xs i j)))"

definition worst_window_mbps :: "fetch_stats \<Rightarrow> rat \<Rightarrow> rat" where
  "worst_window_mbps s w =
     (let xs = (0, 0) # fs_wire_samples s in
      if length xs < 2 then megabytes_per_sec s
      else case worst_loop xs w [0..<length xs - 1] 1 None of
             Some r \<Rightarrow> r | None \<Rightarrow> megabytes_per_sec s)"

section \<open>The detector\<close>

definition DETECT_WINDOW_S :: rat where "DETECT_WINDOW_S = 10"
definition DETECT_WARMUP_S :: rat where "DETECT_WARMUP_S = 15"
definition DETECT_WARMUP_BYTES :: nat where "DETECT_WARMUP_BYTES = 4 * 1024 * 1024"

record wire_detector =
  wd_arm :: wire_failover_arm
  wd_samples :: "(rat \<times> nat) list"
  wd_cum_bytes :: nat
  wd_starve_secs :: nat
  wd_best_window_mbps :: rat

definition detector_new :: "wire_failover_arm \<Rightarrow> wire_detector" where
  "detector_new a = \<lparr>wd_arm = a, wd_samples = [], wd_cum_bytes = 0, wd_starve_secs = 0,
     wd_best_window_mbps = 0\<rparr>"

definition warmed_up :: "wire_detector \<Rightarrow> rat \<Rightarrow> bool" where
  "warmed_up d now_s \<longleftrightarrow> now_s > DETECT_WARMUP_S \<and> wd_cum_bytes d > DETECT_WARMUP_BYTES"

definition window_mbps :: "wire_detector \<Rightarrow> rat \<Rightarrow> rat option" where
  "window_mbps d now_s =
     (let cut = now_s - DETECT_WINDOW_S in
      if cut \<le> 0 then None
      else (let base = (case List.find (\<lambda>(t, b). t \<le> cut) (rev (wd_samples d)) of
                          Some (t, b) \<Rightarrow> b | None \<Rightarrow> 0)
            in Some (of_nat (wd_cum_bytes d - base) / mib / DETECT_WINDOW_S)))"

definition arrival :: "wire_detector \<Rightarrow> nat \<Rightarrow> rat \<Rightarrow> wire_detector \<times> (slipstream_error + unit)" where
  "arrival d bytes now_s =
     (let cum = wd_cum_bytes d + bytes;
          d1 = d\<lparr>wd_starve_secs := 0, wd_cum_bytes := cum, wd_samples := wd_samples d @ [(now_s, cum)]\<rparr>
      in case window_mbps d1 now_s of
           None \<Rightarrow> (d1, Inr ())
         | Some rate \<Rightarrow>
             (let d2 = (if rate > wd_best_window_mbps d1 then d1\<lparr>wd_best_window_mbps := rate\<rparr> else d1)
              in if \<not> warmed_up d2 now_s then (d2, Inr ())
                 else (let a = wd_arm d2;
                           relative_floor = collapse_fraction a * wd_best_window_mbps d2;
                           collapsed = (rate < relative_floor \<and> rate < painful_mbps a) \<or> rate < floor_mbps a
                       in if collapsed
                          then (d2, Inl (WireCollapse rate
                                  (max (min relative_floor (painful_mbps a)) (floor_mbps a))))
                          else (d2, Inr ()))))"

definition starve_tick :: "wire_detector \<Rightarrow> rat \<Rightarrow> wire_detector \<times> (slipstream_error + unit)" where
  "starve_tick d now_s =
     (let d1 = d\<lparr>wd_starve_secs := wd_starve_secs d + 1\<rparr>
      in if warmed_up d1 now_s \<and> wd_starve_secs d1 \<ge> arm_stall_secs (wd_arm d1)
         then (d1, Inl (WireCollapse 0 (floor_mbps (wd_arm d1))))
         else (d1, Inr ()))"

section \<open>The two-pointer scan computes the worst window\<close>

definition times_sorted :: "(rat \<times> nat) list \<Rightarrow> bool" where
  "times_sorted xs \<longleftrightarrow> (\<forall>i j. i \<le> j \<longrightarrow> j < length xs \<longrightarrow> fst (xs ! i) \<le> fst (xs ! j))"

lemma window_end_spec:
  assumes "j \<le> length xs"
  shows "j \<le> window_end xs w i j \<and> window_end xs w i j \<le> length xs \<and>
    (\<forall>k. j \<le> k \<and> k < window_end xs w i j \<longrightarrow> fst (xs ! k) - fst (xs ! i) < w) \<and>
    (window_end xs w i j < length xs \<longrightarrow> w \<le> fst (xs ! window_end xs w i j) - fst (xs ! i))"
  using assms
proof (induction xs w i j rule: window_end.induct)
  case (1 xs w i j)
  show ?case
  proof (cases "j < length xs \<and> fst (xs ! j) - fst (xs ! i) < w")
    case True
    then have eq: "window_end xs w i j = window_end xs w i (Suc j)" by (simp add: window_end.simps [of _ _ _ j])
    have "fst (xs ! k) - fst (xs ! i) < w" if "j \<le> k" "k < window_end xs w i (Suc j)" for k
      using 1(1) True that by (cases "k = j") auto
    then show ?thesis using 1(1) True eq by auto
  next
    case False
    then have "window_end xs w i j = j" by (subst window_end.simps) (rule if_not_P)
    then show ?thesis using False 1(2) by auto
  qed
qed

text \<open>
  The reference: for each start, the first sample a full window later, and the least rate of
  these windows.
\<close>

definition first_full :: "(rat \<times> nat) list \<Rightarrow> rat \<Rightarrow> nat \<Rightarrow> nat option" where
  "first_full xs w i = List.find (\<lambda>k. w \<le> fst (xs ! k) - fst (xs ! i)) [Suc i..<length xs]"

definition full_windows :: "(rat \<times> nat) list \<Rightarrow> rat \<Rightarrow> nat list \<Rightarrow> rat list" where
  "full_windows xs w is =
     map (\<lambda>i. window_rate xs i (the (first_full xs w i))) (filter (\<lambda>i. first_full xs w i \<noteq> None) is)"

lemma first_full_eq:
  assumes "Suc i \<le> j" "j < length xs" "w \<le> fst (xs ! j) - fst (xs ! i)"
    and "\<And>k. Suc i \<le> k \<Longrightarrow> k < j \<Longrightarrow> fst (xs ! k) - fst (xs ! i) < w"
  shows "first_full xs w i = Some j"
proof -
  have "\<not> w \<le> fst (xs ! ([Suc i..<length xs] ! m)) - fst (xs ! i)" if "m < j - Suc i" for m
  proof -
    have "Suc i + m < j" using that by arith
    then show ?thesis using assms(4) [of "Suc i + m"] assms(1,2) by (simp add: not_le)
  qed
  then show ?thesis
    unfolding first_full_def find_Some_iff
    using assms(1-3) by (intro exI [of _ "j - Suc i"]) simp
qed

lemma first_full_None:
  "first_full xs w i = None \<longleftrightarrow> (\<forall>k. Suc i \<le> k \<and> k < length xs \<longrightarrow> fst (xs ! k) - fst (xs ! i) < w)"
  unfolding first_full_def find_None_iff set_upt atLeastLessThan_iff by (meson leD leI)

lemma worst_loop_reference:
  assumes "times_sorted xs" "0 < w" "j \<le> length xs" "i0 + n < length xs"
    and "\<forall>k. Suc i0 \<le> k \<and> k < j \<longrightarrow> fst (xs ! k) - fst (xs ! i0) < w"
  shows "worst_loop xs w [i0..<i0 + n] j worst = fold (\<lambda>r m. min_opt m r) (full_windows xs w [i0..<i0 + n]) worst"
  using assms(3-5)
proof (induction n arbitrary: i0 j worst)
  case 0
  then show ?case by (simp add: full_windows_def)
next
  case (Suc n)
  define j0 where "j0 = (if j \<le> i0 then i0 + 1 else j)"
  define e where "e = window_end xs w i0 j0"
  have j0: "Suc i0 \<le> j0" "j0 \<le> length xs" using Suc.prems(1,2) by (auto simp: j0_def)
  have below: "fst (xs ! k) - fst (xs ! i0) < w" if "Suc i0 \<le> k" "k < j0" for k
    using that Suc.prems(3) by (auto simp: j0_def split: if_splits)
  note spec = window_end_spec [OF j0(2), of w i0, folded e_def]
  have before_e: "fst (xs ! k) - fst (xs ! i0) < w" if "Suc i0 \<le> k" "k < e" for k
    using that below spec by (cases "k < j0") auto
  have upt: "[i0..<i0 + Suc n] = i0 # [Suc i0..<Suc i0 + n]" by (simp add: upt_conv_Cons del: upt_Suc)
  show ?case
  proof (cases "e = length xs")
    case True
    have "first_full xs w i = None" if "i0 \<le> i" "i < length xs" for i
      unfolding first_full_None
    proof (intro allI impI)
      fix k assume k: "Suc i \<le> k \<and> k < length xs"
      have "fst (xs ! i0) \<le> fst (xs ! i)" using assms(1) that by (auto simp: times_sorted_def)
      then show "fst (xs ! k) - fst (xs ! i) < w" using before_e [of k] k that True by auto
    qed
    then have none: "full_windows xs w [i0..<i0 + Suc n] = []"
      using Suc.prems(2) by (auto simp: full_windows_def filter_empty_conv)
    have "worst_loop xs w [i0..<i0 + Suc n] j worst = worst"
      unfolding upt using True by (simp add: Let_def j0_def [symmetric] e_def [symmetric] del: upt_Suc)
    with none show ?thesis by simp
  next
    case False
    then have lt: "e < length xs" and ge: "w \<le> fst (xs ! e) - fst (xs ! i0)" using spec by auto
    have e1: "Suc i0 \<le> e" using spec j0 by simp
    have ff: "first_full xs w i0 = Some e" using first_full_eq [OF e1 lt ge] before_e by blast
    have "fst (xs ! k) - fst (xs ! Suc i0) < w" if "Suc (Suc i0) \<le> k" "k < e" for k
    proof -
      have "fst (xs ! i0) \<le> fst (xs ! Suc i0)" using assms(1) e1 lt by (auto simp: times_sorted_def)
      then show ?thesis using before_e [of k] that by auto
    qed
    then have "worst_loop xs w [Suc i0..<Suc i0 + n] e (min_opt worst (window_rate xs i0 e)) =
        fold (\<lambda>r m. min_opt m r) (full_windows xs w [Suc i0..<Suc i0 + n]) (min_opt worst (window_rate xs i0 e))"
      using Suc.IH [of e "Suc i0"] Suc.prems(2) lt by auto
    moreover have "worst_loop xs w [i0..<i0 + Suc n] j worst =
        worst_loop xs w [Suc i0..<Suc i0 + n] e (min_opt worst (window_rate xs i0 e))"
      unfolding upt using False by (simp add: Let_def j0_def [symmetric] e_def [symmetric] del: upt_Suc)
    moreover have "full_windows xs w [i0..<i0 + Suc n] =
        window_rate xs i0 e # full_windows xs w [Suc i0..<Suc i0 + n]"
      unfolding upt using ff by (simp add: full_windows_def del: upt_Suc)
    ultimately show ?thesis by simp
  qed
qed

lemma fold_min_opt:
  "fold (\<lambda>r m. min_opt m r) rs m =
     (if rs = [] then m else Some (case m of None \<Rightarrow> Min (set rs) | Some x \<Rightarrow> min x (Min (set rs))))"
proof (induction rs arbitrary: m)
  case (Cons r rs)
  then show ?case by (cases rs) (auto simp: min_opt_def min.assoc split: option.splits)
qed simp

text \<open>
  The linear two-pointer scan of \<open>worst_window_mbps\<close> computes what its documentation
  promises: over arrival samples in time order, the least throughput of any window that starts at
  a sample and ends at the first sample at least \<open>w\<close> seconds later, or the throughput of the whole
  fetch if no such window exists.
\<close>

theorem worst_window_is_minimum:
  assumes "times_sorted ((0, 0) # fs_wire_samples s)" and "0 < w"
  shows "worst_window_mbps s w =
    (let xs = (0, 0) # fs_wire_samples s; rates = full_windows xs w [0..<length xs - 1]
     in if rates = [] then megabytes_per_sec s else Min (set rates))"
proof (cases "fs_wire_samples s = []")
  case True
  then show ?thesis by (simp add: worst_window_mbps_def full_windows_def)
next
  case False
  let ?xs = "(0, 0) # fs_wire_samples s"
  have "worst_loop ?xs w [0..<0 + (length ?xs - 1)] 1 None =
      fold (\<lambda>r m. min_opt m r) (full_windows ?xs w [0..<0 + (length ?xs - 1)]) None"
    using False assms by (intro worst_loop_reference) auto
  then show ?thesis
    using False by (simp add: worst_window_mbps_def fold_min_opt Let_def Suc_le_eq)
qed

definition demo_stats :: fetch_stats where
  "demo_stats = \<lparr>fs_blocks = 9, fs_bytes = 9 * 1048576, fs_elapsed = 9,
     fs_wire_samples = [(3, 6 * 1048576), (6, 7 * 1048576), (9, 9 * 1048576)]\<rparr>"

lemma times_sortedI: "sorted (map fst xs) \<Longrightarrow> times_sorted xs"
  by (auto simp: times_sorted_def dest: sorted_nth_mono)

lemma demo_times: "times_sorted ((0, 0) # fs_wire_samples demo_stats)"
  by (rule times_sortedI) (simp add: demo_stats_def)

lemma demo_windows: "full_windows ((0, 0) # fs_wire_samples demo_stats) 5 [0..<3] = [7 / 6, 1 / 2]"
  by (simp add: full_windows_def first_full_def demo_stats_def window_rate_def mib_def upt_conv_Cons)

theorem worst_window_is_minimum_witness: "worst_window_mbps demo_stats 5 = 1 / 2"
proof -
  have "length ((0::rat, 0::nat) # fs_wire_samples demo_stats) - 1 = 3" by (simp add: demo_stats_def)
  then show ?thesis
    using worst_window_is_minimum [OF demo_times, of 5] demo_windows by (simp only: Let_def) simp
qed

section \<open>When the detector fires\<close>

text \<open>
  A history of arrivals: bytes and time of each.  \<open>rate_at\<close> is the rate the detector sees at the
  last arrival, \<open>best_rate\<close> the best it has seen so far.
\<close>

definition feed :: "wire_detector \<Rightarrow> (nat \<times> rat) list \<Rightarrow> wire_detector" where
  "feed d as = fold (\<lambda>(bytes, now) d. fst (arrival d bytes now)) as d"

definition rate_at :: "wire_failover_arm \<Rightarrow> (nat \<times> rat) list \<Rightarrow> rat option" where
  "rate_at a as = (if as = [] then None else window_mbps (feed (detector_new a) as) (snd (last as)))"

definition best_rate :: "wire_failover_arm \<Rightarrow> (nat \<times> rat) list \<Rightarrow> rat" where
  "best_rate a as = foldr max (List.map_filter (\<lambda>k. rate_at a (take k as)) [0..<Suc (length as)]) 0"

lemma detector_new_arm [simp]: "wd_arm (detector_new a) = a" "wd_cum_bytes (detector_new a) = 0"
  by (simp_all add: detector_new_def)

lemma feed_snoc: "feed d (as @ [(b, t)]) = fst (arrival (feed d as) b t)"
  by (simp add: feed_def)

lemma window_mbps_best [simp]: "window_mbps (d\<lparr>wd_best_window_mbps := r\<rparr>) now = window_mbps d now"
  by (simp add: window_mbps_def)

lemma warmed_up_best [simp]: "warmed_up (d\<lparr>wd_best_window_mbps := r\<rparr>) now = warmed_up d now"
  by (simp add: warmed_up_def)

definition arrived :: "wire_detector \<Rightarrow> nat \<Rightarrow> rat \<Rightarrow> wire_detector" where
  "arrived d b t = d\<lparr>wd_starve_secs := 0, wd_cum_bytes := wd_cum_bytes d + b,
     wd_samples := wd_samples d @ [(t, wd_cum_bytes d + b)]\<rparr>"

lemma arrived_sel [simp]:
  "wd_arm (arrived d b t) = wd_arm d" "wd_cum_bytes (arrived d b t) = wd_cum_bytes d + b"
  "wd_best_window_mbps (arrived d b t) = wd_best_window_mbps d"
  by (simp_all add: arrived_def)

definition collapse_floor :: "wire_detector \<Rightarrow> rat" where
  "collapse_floor d = max (min (collapse_fraction (wd_arm d) * wd_best_window_mbps d) (painful_mbps (wd_arm d)))
     (floor_mbps (wd_arm d))"

lemma arrival_None: "window_mbps (arrived d b t) t = None \<Longrightarrow> arrival d b t = (arrived d b t, Inr ())"
  by (simp add: arrival_def arrived_def Let_def)

lemma arrival_Some:
  assumes "window_mbps (arrived d b t) t = Some r"
  defines "d2 \<equiv> (arrived d b t)\<lparr>wd_best_window_mbps := max r (wd_best_window_mbps d)\<rparr>"
  shows "arrival d b t =
    (d2, if warmed_up d2 t \<and> r < collapse_floor d2 then Inl (WireCollapse r (collapse_floor d2)) else Inr ())"
proof -
  have "(if r > wd_best_window_mbps (arrived d b t) then (arrived d b t)\<lparr>wd_best_window_mbps := r\<rparr> else arrived d b t) = d2"
    by (simp add: d2_def max_def)
  then show ?thesis
    using assms(1) unfolding arrival_def arrived_def [symmetric] Let_def collapse_floor_def
    by (auto simp: less_max_iff_disj)
qed

lemma arrival_state:
  "wd_arm (fst (arrival d b t)) = wd_arm d"
  "wd_cum_bytes (fst (arrival d b t)) = wd_cum_bytes d + b"
  "wd_best_window_mbps (fst (arrival d b t)) =
     (case window_mbps (fst (arrival d b t)) t of
        None \<Rightarrow> wd_best_window_mbps d | Some r \<Rightarrow> max r (wd_best_window_mbps d))"
  by (cases "window_mbps (arrived d b t) t"; simp add: arrival_None arrival_Some)+

lemma arrival_result:
  "snd (arrival d b t) =
     (case window_mbps (fst (arrival d b t)) t of
        None \<Rightarrow> Inr ()
      | Some r \<Rightarrow>
          if warmed_up (fst (arrival d b t)) t \<and> r < collapse_floor (fst (arrival d b t))
          then Inl (WireCollapse r (collapse_floor (fst (arrival d b t)))) else Inr ())"
  by (cases "window_mbps (arrived d b t) t"; simp add: arrival_None arrival_Some)

lemma feed_arm: "wd_arm (feed d as) = wd_arm d"
  by (induction as rule: rev_induct) (auto simp: feed_snoc arrival_state, simp add: feed_def)

lemma feed_bytes: "wd_cum_bytes (feed d as) = wd_cum_bytes d + sum_list (map fst as)"
  by (induction as rule: rev_induct) (auto simp: feed_snoc arrival_state, simp add: feed_def)

lemma foldr_max_init: "foldr max xs (max x y) = max x (foldr max xs (y::rat))"
  by (induction xs) (auto simp: max.left_commute)

lemma map_filter_eq:
  "(\<And>x. x \<in> set xs \<Longrightarrow> f x = g x) \<Longrightarrow> List.map_filter f xs = List.map_filter g xs"
  by (induction xs) (auto simp: map_filter_simps split: option.splits)

lemma map_filter_append: "List.map_filter f (xs @ ys) = List.map_filter f xs @ List.map_filter f ys"
  by (simp add: List.map_filter_def)

lemma feed_best: "wd_best_window_mbps (feed (detector_new a) as) = best_rate a as"
proof (induction as rule: rev_induct)
  case Nil
  show ?case by (simp add: feed_def detector_new_def best_rate_def rate_at_def map_filter_simps)
next
  case (snoc x as)
  obtain b t where x: "x = (b, t)" by (cases x)
  have "List.map_filter (\<lambda>k. rate_at a (take k (as @ [x]))) [0..<Suc (length as)] =
        List.map_filter (\<lambda>k. rate_at a (take k as)) [0..<Suc (length as)]"
    by (rule map_filter_eq) auto
  then have "best_rate a (as @ [x]) =
      (case rate_at a (as @ [x]) of None \<Rightarrow> best_rate a as | Some r \<Rightarrow> max r (best_rate a as))"
    by (auto simp: best_rate_def map_filter_append map_filter_simps foldr_max_init max.left_commute split: option.splits)
  then show ?case
    using snoc by (auto simp: x feed_snoc arrival_state rate_at_def split: option.splits)
qed

text \<open>
  The wire-collapse detector fires exactly when it should.  After any history of arrivals, the
  next arrival raises \<open>WireCollapse\<close> if and only if the pass is older than 15 seconds, more than
  4 MiB have arrived, and the rate over the trailing window lies below the reported floor: the given
  fraction of the best window of the whole history, capped at the painful rate, and never less than
  the unconditional floor.
\<close>

theorem detector_fires_exactly:
  "snd (arrival (feed (detector_new a) as) bytes now) = Inl e \<longleftrightarrow>
     (\<exists>rate. rate_at a (as @ [(bytes, now)]) = Some rate \<and> 15 < now \<and>
        4 * 1024 * 1024 < sum_list (map fst as) + bytes \<and>
        (let flo = max (min (collapse_fraction a * best_rate a (as @ [(bytes, now)])) (painful_mbps a)) (floor_mbps a)
         in rate < flo \<and> e = WireCollapse rate flo))"
proof -
  let ?d = "feed (detector_new a) as"
  have "fst (arrival ?d bytes now) = feed (detector_new a) (as @ [(bytes, now)])" by (simp add: feed_snoc)
  moreover have "warmed_up (feed (detector_new a) (as @ [(bytes, now)])) now \<longleftrightarrow>
      15 < now \<and> 4 * 1024 * 1024 < sum_list (map fst as) + bytes"
    by (simp add: warmed_up_def feed_bytes DETECT_WARMUP_S_def DETECT_WARMUP_BYTES_def)
  moreover have "collapse_floor (feed (detector_new a) (as @ [(bytes, now)])) =
      max (min (collapse_fraction a * best_rate a (as @ [(bytes, now)])) (painful_mbps a)) (floor_mbps a)"
    by (simp add: collapse_floor_def feed_arm feed_best)
  ultimately show ?thesis
    by (simp add: arrival_result rate_at_def Let_def split: option.splits) auto
qed

end
