(* ===== verification/Slip_Reorder.thy ===== *)
theory Slip_Reorder
  imports Slip_Pump Slip_Wire
begin

text \<open>
  The release stage of the download (\<open>src/core/src/fetch.rs\<close>): sub-chunks arrive from the workers
  in any order and are released to the chunk queue strictly in order, checked for continuity; the
  workers are supervised meanwhile; \<open>run_fetch\<close> puts the stages together.

  The stage's life is its list of events: an arrival with its two clock readings, a second without
  one, and the end of the list when every sender is gone.  \<open>clk n\<close> is the wall clock when chunk \<open>n\<close>
  is released.  The queue takes \<open>rl_accepts\<close> more chunks before its receiver hangs up.  The split
  accounting of the source feeds a log line only and is left out.
\<close>

section \<open>State\<close>

record release_summary =
  rs_blocks :: nat
  rs_bytes :: nat
  plans_released :: nat
  rs_wire_samples :: "(rat \<times> nat) list"

record release_state =
  rl_summary :: release_summary
  rl_continuity :: continuity
  rl_pending :: "((nat \<times> nat) \<times> sub_chunk) list"
  rl_next :: "nat \<times> nat"
  rl_emitted :: nat
  rl_wire_cum :: nat
  rl_detector :: "wire_detector option"
  rl_out :: "chunk list"
  rl_accepts :: "nat option"
  rl_progress :: "progress option"
  rl_floor :: nat
  rl_unreleased :: nat

definition release_start ::
  "nat option \<Rightarrow> progress option \<Rightarrow> nat \<Rightarrow> wire_failover_arm option \<Rightarrow> release_state" where
  "release_start room p start fo =
     \<lparr>rl_summary = \<lparr>rs_blocks = 0, rs_bytes = 0, plans_released = 0, rs_wire_samples = []\<rparr>,
      rl_continuity = continuity_default, rl_pending = [], rl_next = (0, 0), rl_emitted = 0,
      rl_wire_cum = 0, rl_detector = map_option detector_new fo, rl_out = [], rl_accepts = room,
      rl_progress = p, rl_floor = 0, rl_unreleased = start\<rparr>"

datatype release_event = RArrive sub_chunk rat rat | RSecond rat

definition sub_key :: "sub_chunk \<Rightarrow> nat \<times> nat" where
  "sub_key s = (sc_plan_index s, sc_sub_index s)"

section \<open>Releasing\<close>

definition queue_send :: "release_state \<Rightarrow> chunk \<Rightarrow> release_state \<times> (slipstream_error + unit)" where
  "queue_send st c =
     (case rl_accepts st of
        Some 0 \<Rightarrow> (st, Inl Stopped)
      | Some (Suc n) \<Rightarrow> (st\<lparr>rl_out := rl_out st @ [c], rl_accepts := Some n\<rparr>, Inr ())
      | None \<Rightarrow> (st\<lparr>rl_out := rl_out st @ [c]\<rparr>, Inr ()))"

text \<open>
  One turn of the inner loop, for the sub-chunk taken out of \<open>pending\<close>: what is counted before the
  queue takes the chunk, and what is recorded after it did.
\<close>

definition before_send :: "(nat \<Rightarrow> nat) \<Rightarrow> release_state \<Rightarrow> continuity \<Rightarrow> chunk \<Rightarrow> release_state" where
  "before_send clk st c ck =
     (let count = length (chunk_blocks_of ck); s = rl_summary st
      in st\<lparr>rl_continuity := c,
            rl_summary := s\<lparr>rs_blocks := rs_blocks s + count, rs_bytes := rs_bytes s + estimated_bytes ck\<rparr>,
            rl_progress := map_option (add_fetched count (clk (rl_emitted st))) (rl_progress st)\<rparr>)"

definition after_send :: "release_state \<Rightarrow> sub_chunk \<Rightarrow> release_state" where
  "after_send st sub =
     (let released_from = (case sc_blocks sub of [] \<Rightarrow> None | b # _ \<Rightarrow> Some (height b));
          released_through = (if sc_blocks sub = [] then None else Some (height (last (sc_blocks sub))));
          st1 = (case released_through of
                   Some h \<Rightarrow> st\<lparr>rl_unreleased := wrapping_add64 h 1\<rparr> | None \<Rightarrow> st);
          st2 = (case (released_from, released_through) of
                   (Some a, Some b) \<Rightarrow>
                     st1\<lparr>rl_progress := map_option (note_blocks_released a b) (rl_progress st1)\<rparr>
                 | _ \<Rightarrow> st1);
          st3 = st2\<lparr>rl_emitted := rl_emitted st2 + 1\<rparr>
      in if sc_is_last sub
         then st3\<lparr>rl_summary := (rl_summary st3)\<lparr>plans_released := plans_released (rl_summary st3) + 1\<rparr>,
                   rl_next := (sc_plan_index sub + 1, 0),
                   rl_floor := sc_plan_index sub + 1\<rparr>
         else st3\<lparr>rl_next := (fst (rl_next st3), snd (rl_next st3) + 1)\<rparr>)"

definition release_one :: "(compact_block \<Rightarrow> nat) \<Rightarrow> (nat \<Rightarrow> nat) \<Rightarrow> release_state \<Rightarrow> sub_chunk \<Rightarrow>
    release_state \<times> (slipstream_error + unit)" where
  "release_one enc clk st sub =
     (case verify_blocks (rl_continuity st) (sc_blocks sub) of
        (c, Inl e) \<Rightarrow> (st\<lparr>rl_continuity := c\<rparr>, Inl e)
      | (c, Inr _) \<Rightarrow>
          (let ck = from_blocks enc (rl_emitted st) (sc_blocks sub)
           in case queue_send (before_send clk st c ck) ck of
                (st', Inl e) \<Rightarrow> (st', Inl e)
              | (st', Inr _) \<Rightarrow> (after_send st' sub, Inr ())))"

lemma before_send_sel [simp]:
  "rl_pending (before_send clk st c ck) = rl_pending st" "rl_out (before_send clk st c ck) = rl_out st"
  "rl_continuity (before_send clk st c ck) = c" "rl_emitted (before_send clk st c ck) = rl_emitted st"
  "rl_next (before_send clk st c ck) = rl_next st" "rl_accepts (before_send clk st c ck) = rl_accepts st"
  "rl_detector (before_send clk st c ck) = rl_detector st" "rl_unreleased (before_send clk st c ck) = rl_unreleased st"
  "rs_blocks (rl_summary (before_send clk st c ck)) = rs_blocks (rl_summary st) + length (chunk_blocks_of ck)"
  "plans_released (rl_summary (before_send clk st c ck)) = plans_released (rl_summary st)"
  by (simp_all add: before_send_def Let_def)

lemma after_send_sel [simp]:
  "rl_pending (after_send st sub) = rl_pending st" "rl_out (after_send st sub) = rl_out st"
  "rl_continuity (after_send st sub) = rl_continuity st" "rl_emitted (after_send st sub) = rl_emitted st + 1"
  "rl_accepts (after_send st sub) = rl_accepts st" "rl_detector (after_send st sub) = rl_detector st"
  "rs_blocks (rl_summary (after_send st sub)) = rs_blocks (rl_summary st)"
  "plans_released (rl_summary (after_send st sub)) = plans_released (rl_summary st) + (if sc_is_last sub then 1 else 0)"
  "rl_next (after_send st sub) =
     (if sc_is_last sub then (sc_plan_index sub + 1, 0) else (fst (rl_next st), snd (rl_next st) + 1))"
  "sc_blocks sub \<noteq> [] \<Longrightarrow> rl_unreleased (after_send st sub) = wrapping_add64 (height (last (sc_blocks sub))) 1"
  by (cases "sc_blocks sub"; simp add: after_send_def Let_def)+

lemma queue_send_sel:
  "queue_send st ck = (st', r) \<Longrightarrow>
     \<exists>q a. st' = st\<lparr>rl_out := q, rl_accepts := a\<rparr> \<and> q = (if r = Inr () then rl_out st @ [ck] else rl_out st) \<and>
       (rl_accepts st = None \<longrightarrow> r = Inr () \<and> a = None)"
  by (auto simp: queue_send_def split: option.splits nat.splits)
    (metis release_state.surjective release_state.update_convs(8) release_state.update_convs(9))+

lemma release_one_cases:
  obtains (bad) c e where "release_one enc clk st sub = (st\<lparr>rl_continuity := c\<rparr>, Inl e)"
      "\<not> linked (rl_continuity st) (sc_blocks sub)"
  | (closed) st' e where "release_one enc clk st sub = (st', Inl e)" "rl_out st' = rl_out st"
      "rl_pending st' = rl_pending st" "rl_accepts st \<noteq> None"
  | (released) st' where "release_one enc clk st sub = (after_send st' sub, Inr ())"
      "linked (rl_continuity st) (sc_blocks sub)"
      "rl_out st' = rl_out st @ [from_blocks enc (rl_emitted st) (sc_blocks sub)]"
      "rl_continuity st' = cont_after (rl_continuity st) (sc_blocks sub)"
      "rl_emitted st' = rl_emitted st" "rl_pending st' = rl_pending st" "rl_next st' = rl_next st"
      "rl_detector st' = rl_detector st"
      "rs_blocks (rl_summary st') = rs_blocks (rl_summary st) + length (sc_blocks sub)"
      "plans_released (rl_summary st') = plans_released (rl_summary st)"
      "rl_accepts st = None \<longrightarrow> rl_accepts st' = None"
proof -
  obtain c r where v: "verify_blocks (rl_continuity st) (sc_blocks sub) = (c, r)"
    by (cases "verify_blocks (rl_continuity st) (sc_blocks sub)")
  show ?thesis
  proof (cases r)
    case (Inl e)
    then have "\<not> linked (rl_continuity st) (sc_blocks sub)"
      using v verify_blocks_linked [of "rl_continuity st" "sc_blocks sub"] by auto
    with Inl v show ?thesis by (intro bad) (auto simp: release_one_def)
  next
    case (Inr u)
    then have l: "linked (rl_continuity st) (sc_blocks sub)" "c = cont_after (rl_continuity st) (sc_blocks sub)"
      using v verify_blocks_Inr by auto
    let ?ck = "from_blocks enc (rl_emitted st) (sc_blocks sub)"
    obtain st' r' where q: "queue_send (before_send clk st c ?ck) ?ck = (st', r')"
      by (cases "queue_send (before_send clk st c ?ck) ?ck")
    obtain o' a' where qs: "st' = (before_send clk st c ?ck)\<lparr>rl_out := o', rl_accepts := a'\<rparr>"
      "o' = (if r' = Inr () then rl_out st @ [?ck] else rl_out st)"
      "rl_accepts st = None \<longrightarrow> r' = Inr () \<and> a' = None"
      using queue_send_sel [OF q] unfolding before_send_sel by (elim exE conjE) (rule that)
    show ?thesis
    proof (cases r')
      case e: (Inl e)
      then show ?thesis using v Inr q qs by (intro closed [of st' e]) (auto simp: release_one_def)
    next
      case ok: (Inr u')
      then have "release_one enc clk st sub = (after_send st' sub, Inr ())"
        using v Inr q by (simp add: release_one_def Let_def)
      then show ?thesis using l ok qs by (intro released [of st']) simp_all
    qed
  qed
qed

lemma release_one_pending [simp]: "rl_pending (fst (release_one enc clk st sub)) = rl_pending st"
  by (rule release_one_cases [of enc clk st sub]) simp_all

text \<open>The inner loop: release while the next sub-chunk is there.\<close>

function drain :: "(compact_block \<Rightarrow> nat) \<Rightarrow> (nat \<Rightarrow> nat) \<Rightarrow> release_state \<Rightarrow>
    release_state \<times> (slipstream_error + unit)" where
  "drain enc clk st =
     (case map_of (rl_pending st) (rl_next st) of
        None \<Rightarrow> (st, Inr ())
      | Some sub \<Rightarrow>
          (case release_one enc clk (st\<lparr>rl_pending := AList.delete (rl_next st) (rl_pending st)\<rparr>) sub of
             (st', Inl e) \<Rightarrow> (st', Inl e)
           | (st', Inr _) \<Rightarrow> drain enc clk st'))"
  by auto
termination
  by (relation "measure (\<lambda>(enc, clk, st). length (rl_pending st))")
    (auto simp: prod_eq_iff intro!: length_delete_less)

declare drain.simps [simp del]

fun release_ordered :: "(compact_block \<Rightarrow> nat) \<Rightarrow> (nat \<Rightarrow> nat) \<Rightarrow> release_state \<Rightarrow> release_event list \<Rightarrow>
    release_state \<times> (slipstream_error + release_summary)" where
  "release_ordered enc clk st [] = (st, Inr (rl_summary st))"
| "release_ordered enc clk st (RSecond t # evs) =
     (case rl_detector st of
        None \<Rightarrow> release_ordered enc clk st evs
      | Some d \<Rightarrow>
          (case starve_tick d t of
             (d', Inl e) \<Rightarrow> (st\<lparr>rl_detector := Some d'\<rparr>, Inl e)
           | (d', Inr _) \<Rightarrow> release_ordered enc clk (st\<lparr>rl_detector := Some d'\<rparr>) evs))"
| "release_ordered enc clk st (RArrive sub t1 t2 # evs) =
     (let cum = rl_wire_cum st + sc_bytes sub;
          s = rl_summary st;
          st1 = st\<lparr>rl_wire_cum := cum, rl_summary := s\<lparr>rs_wire_samples := rs_wire_samples s @ [(t1, cum)]\<rparr>\<rparr>;
          (d, r) = (case rl_detector st1 of
                      None \<Rightarrow> (None, Inr ())
                    | Some d \<Rightarrow> (let (d', r) = arrival d (sc_bytes sub) t2 in (Some d', r)));
          st2 = st1\<lparr>rl_detector := d\<rparr>
      in case r of
           Inl e \<Rightarrow> (st2, Inl e)
         | Inr _ \<Rightarrow>
             (case drain enc clk (st2\<lparr>rl_pending := AList.update (sub_key sub) sub (rl_pending st2)\<rparr>) of
                (st3, Inl e) \<Rightarrow> (st3, Inl e)
              | (st3, Inr _) \<Rightarrow> release_ordered enc clk st3 evs))"

section \<open>Supervision\<close>

definition note_give_up :: "progress option \<Rightarrow> nat \<Rightarrow> nat \<Rightarrow> nat \<Rightarrow> progress option" where
  "note_give_up p unreleased fin now =
     (case p of
        Some q \<Rightarrow> if unreleased \<le> fin then Some (note_download_gave_up_at unreleased now q) else Some q
      | None \<Rightarrow> None)"

text \<open>
  What the supervisor's \<open>select!\<close> sees, in order: a worker that joined (with its result, or by a
  panic), or the release future's result.  Every event carries the release cursor and the wall
  clock at that moment.  A branch whose guard is off (no worker left, release already done) is
  never taken: its events pass.
\<close>

datatype sup_event =
    WJoined "slipstream_error + unit" nat nat
  | WPanicked string nat nat
  | RDone "slipstream_error + release_summary"

fun supervise_loop :: "wire_failover_arm option \<Rightarrow> nat \<Rightarrow> nat \<Rightarrow> release_summary option \<Rightarrow> progress option \<Rightarrow>
    sup_event list \<Rightarrow> (slipstream_error + release_summary) option \<times> progress option" where
  "supervise_loop fo fin workers released p [] =
     (if workers = 0 \<and> released \<noteq> None then (Some (Inr (the released)), p) else (None, p))"
| "supervise_loop fo fin workers released p (ev # evs) =
     (if workers = 0 \<and> released \<noteq> None then (Some (Inr (the released)), p)
      else case ev of
        WJoined r pos now \<Rightarrow>
          (if workers = 0 then supervise_loop fo fin workers released p evs
           else case r of
             Inr _ \<Rightarrow> supervise_loop fo fin (workers - 1) released p evs
           | Inl err \<Rightarrow>
               (let p' = note_give_up p pos fin now
                in case fo of
                     Some arm \<Rightarrow> (Some (Inl (WireCollapse 0 (floor_mbps arm))), p')
                   | None \<Rightarrow> (Some (Inl err), p')))
      | WPanicked m pos now \<Rightarrow>
          (if workers = 0 then supervise_loop fo fin workers released p evs
           else (Some (Inl (Transport (''worker panicked: '' @ m))), note_give_up p pos fin now))
      | RDone r \<Rightarrow>
          (if released \<noteq> None then supervise_loop fo fin workers released p evs
           else case r of
             Inl err \<Rightarrow> (Some (Inl err), p)
           | Inr s \<Rightarrow> supervise_loop fo fin workers (Some s) p evs))"

definition supervise_fetch where
  "supervise_fetch fo fin workers p evs = supervise_loop fo fin workers None p evs"

definition fetch_result :: "fetch_plan \<Rightarrow> rat \<Rightarrow> slipstream_error + release_summary \<Rightarrow> slipstream_error + fetch_stats" where
  "fetch_result plan elapsed r =
     (case r of
        Inl e \<Rightarrow> Inl e
      | Inr s \<Rightarrow>
          if plans_released s \<noteq> chunk_count plan
          then Inl (Transport (''fetch incomplete: released '' @ nat_str (plans_released s) @ ''/'' @
                 nat_str (chunk_count plan) @ '' plan chunks''))
          else Inr \<lparr>fs_blocks = rs_blocks s, fs_bytes = rs_bytes s, fs_elapsed = elapsed,
                    fs_wire_samples = rs_wire_samples s\<rparr>)"

section \<open>Whatever arrives, what is released is a chain\<close>

definition out_blocks :: "release_state \<Rightarrow> compact_block list" where
  "out_blocks st = concat (map chunk_blocks_of (rl_out st))"

definition out_ok :: "release_state \<Rightarrow> bool" where
  "out_ok st \<longleftrightarrow> linked continuity_default (out_blocks st) \<and>
     map chunk_index (rl_out st) = [0..<length (rl_out st)]"

definition rel_inv :: "release_state \<Rightarrow> bool" where
  "rel_inv st \<longleftrightarrow> out_ok st \<and> rl_continuity st = cont_after continuity_default (out_blocks st) \<and>
     rl_emitted st = length (rl_out st) \<and> rs_blocks (rl_summary st) = length (out_blocks st)"

lemma cont_after_append: "cont_after c (xs @ ys) = cont_after (cont_after c xs) ys"
  by (simp add: cont_after_def)

definition succ_key :: "sub_chunk \<Rightarrow> nat \<times> nat" where
  "succ_key s = (if sc_is_last s then (sc_plan_index s + 1, 0) else (sc_plan_index s, sc_sub_index s + 1))"

lemma release_one_inv:
  assumes "release_one enc clk st sub = (st', r)" and "rel_inv st"
  shows "out_ok st' \<and> (r = Inr () \<longrightarrow> rel_inv st')"
proof (cases rule: release_one_cases [of enc clk st sub, case_names bad closed released])
  case (released st1)
  have "out_blocks (after_send st1 sub) = out_blocks st @ sc_blocks sub"
    by (simp add: out_blocks_def released)
  then show ?thesis
    using assms released by (auto simp: rel_inv_def out_ok_def linked_append cont_after_append)
qed (use assms in \<open>auto simp: rel_inv_def out_ok_def out_blocks_def\<close>)

lemma rel_inv_cong:
  "rl_out st' = rl_out st \<Longrightarrow> rl_continuity st' = rl_continuity st \<Longrightarrow> rl_emitted st' = rl_emitted st \<Longrightarrow>
     rs_blocks (rl_summary st') = rs_blocks (rl_summary st) \<Longrightarrow> rel_inv st \<Longrightarrow> rel_inv st'"
  by (simp add: rel_inv_def out_ok_def out_blocks_def)

lemma drain_inv:
  "drain enc clk st = (st', r) \<Longrightarrow> rel_inv st \<Longrightarrow> out_ok st' \<and> (r = Inr () \<longrightarrow> rel_inv st')"
proof (induction enc clk st arbitrary: st' r rule: drain.induct)
  case (1 enc clk st)
  show ?case
  proof (cases "map_of (rl_pending st) (rl_next st)")
    case None
    then show ?thesis using 1(2,3) by (simp add: drain.simps [of _ _ st] rel_inv_def)
  next
    case (Some sub)
    let ?st = "st\<lparr>rl_pending := AList.delete (rl_next st) (rl_pending st)\<rparr>"
    obtain st1 r1 where one: "release_one enc clk ?st sub = (st1, r1)"
      by (cases "release_one enc clk ?st sub")
    have inv: "rel_inv ?st" using 1(3) by (rule rel_inv_cong [rotated -1]) simp_all
    show ?thesis
    proof (cases r1)
      case (Inl e)
      then show ?thesis
        using 1(2) Some one release_one_inv [OF one inv] by (simp add: drain.simps [of _ _ st])
    next
      case (Inr u)
      then show ?thesis
        using 1(1) [OF Some one [symmetric]] 1(2) Some one release_one_inv [OF one inv]
        by (simp add: drain.simps [of _ _ st])
    qed
  qed
qed

definition arrive_state :: "release_state \<Rightarrow> sub_chunk \<Rightarrow> rat \<Rightarrow> wire_detector option \<Rightarrow> release_state" where
  "arrive_state st sub t1 d =
     st\<lparr>rl_wire_cum := rl_wire_cum st + sc_bytes sub,
        rl_summary := (rl_summary st)\<lparr>rs_wire_samples :=
          rs_wire_samples (rl_summary st) @ [(t1, rl_wire_cum st + sc_bytes sub)]\<rparr>,
        rl_detector := d\<rparr>"

lemma arrive_state_sel [simp]:
  "rl_pending (arrive_state st sub t1 d) = rl_pending st" "rl_out (arrive_state st sub t1 d) = rl_out st"
  "rl_continuity (arrive_state st sub t1 d) = rl_continuity st" "rl_emitted (arrive_state st sub t1 d) = rl_emitted st"
  "rl_next (arrive_state st sub t1 d) = rl_next st" "rl_accepts (arrive_state st sub t1 d) = rl_accepts st"
  "rl_detector (arrive_state st sub t1 d) = d" "rl_unreleased (arrive_state st sub t1 d) = rl_unreleased st"
  "rs_blocks (rl_summary (arrive_state st sub t1 d)) = rs_blocks (rl_summary st)"
  "plans_released (rl_summary (arrive_state st sub t1 d)) = plans_released (rl_summary st)"
  by (simp_all add: arrive_state_def)

definition add_pending :: "sub_chunk \<Rightarrow> release_state \<Rightarrow> release_state" where
  "add_pending sub st = st\<lparr>rl_pending := AList.update (sub_key sub) sub (rl_pending st)\<rparr>"

lemma release_arrive:
  assumes "(case rl_detector st of None \<Rightarrow> (None, Inr ())
    | Some d \<Rightarrow> (let (d', r) = arrival d (sc_bytes sub) t2 in (Some d', r))) = (d, r1)"
    and "drain enc clk (add_pending sub (arrive_state st sub t1 d)) = (st4, r2)"
  shows "release_ordered enc clk st (RArrive sub t1 t2 # evs) =
      (case r1 of Inl e \<Rightarrow> (arrive_state st sub t1 d, Inl e)
       | Inr _ \<Rightarrow> (case r2 of Inl e \<Rightarrow> (st4, Inl e) | Inr _ \<Rightarrow> release_ordered enc clk st4 evs))"
  using assms by (simp add: Let_def arrive_state_def add_pending_def split: sum.split)

lemma release_ordered_inv:
  "release_ordered enc clk st evs = (st', r) \<Longrightarrow> rel_inv st \<Longrightarrow>
     out_ok st' \<and> (\<forall>s. r = Inr s \<longrightarrow> rs_blocks s = length (out_blocks st'))"
proof (induction evs arbitrary: st)
  case Nil
  then show ?case by (auto simp: rel_inv_def)
next
  case (Cons ev evs)
  show ?case
  proof (cases ev)
    case (RSecond t)
    show ?thesis
    proof (cases "rl_detector st")
      case None
      then have "release_ordered enc clk st evs = (st', r)" using Cons.prems(1) RSecond by simp
      then show ?thesis using Cons.IH Cons.prems(2) by blast
    next
      case (Some d)
      obtain d' r1 where tick: "starve_tick d t = (d', r1)" by (cases "starve_tick d t")
      have inv: "rel_inv (st\<lparr>rl_detector := Some d'\<rparr>)"
        by (rule rel_inv_cong [OF _ _ _ _ Cons.prems(2)]) simp_all
      show ?thesis
      proof (cases r1)
        case (Inl e)
        then have "st' = st\<lparr>rl_detector := Some d'\<rparr>" "r = Inl e"
          using Cons.prems(1) RSecond Some tick by simp_all
        then show ?thesis using inv unfolding rel_inv_def by blast
      next
        case (Inr u)
        then have "release_ordered enc clk (st\<lparr>rl_detector := Some d'\<rparr>) evs = (st', r)"
          using Cons.prems(1) RSecond Some tick by simp
        then show ?thesis using Cons.IH inv by blast
      qed
    qed
  next
    case (RArrive sub t1 t2)
    obtain d r1 where dr: "(case rl_detector st of None \<Rightarrow> (None, Inr ())
        | Some d \<Rightarrow> (let (d', r) = arrival d (sc_bytes sub) t2 in (Some d', r))) = (d, r1)"
      by (metis surj_pair)
    obtain st4 r2 where dn: "drain enc clk (add_pending sub (arrive_state st sub t1 d)) = (st4, r2)"
      by (metis surj_pair)
    have inv: "rel_inv (arrive_state st sub t1 d)" "rel_inv (add_pending sub (arrive_state st sub t1 d))"
      by (rule rel_inv_cong [OF _ _ _ _ Cons.prems(2)]; simp add: add_pending_def)+
    note run = release_arrive [OF dr dn, of evs]
    note out = inv(1) [unfolded rel_inv_def, THEN conjunct1] drain_inv [OF dn inv(2)]
    consider (e1) e where "r1 = Inl e" | (e2) e u where "r1 = Inr u" "r2 = Inl e"
      | (ok) u where "r1 = Inr u" "r2 = Inr ()"
      by (cases r1; cases r2) auto
    then show ?thesis
    proof cases
      case e1
      then have "st' = arrive_state st sub t1 d" "r = Inl e" using Cons.prems(1) RArrive run by simp_all
      then show ?thesis using out(1) by simp
    next
      case e2
      then have "st' = st4" "r = Inl e" using Cons.prems(1) RArrive run by simp_all
      then show ?thesis using out(2) by simp
    next
      case ok
      then have "release_ordered enc clk st4 evs = (st', r)" using Cons.prems(1) RArrive run by simp
      then show ?thesis using Cons.IH [of st4] out(2) ok(2) by blast
    qed
  qed
qed


definition demo_sub :: "nat \<Rightarrow> nat \<Rightarrow> bool \<Rightarrow> nat list \<Rightarrow> sub_chunk" where
  "demo_sub i k l hs = \<lparr>sc_plan_index = i, sc_sub_index = k, sc_is_last = l, sc_bytes = 10 * length hs,
     sc_blocks = map demo_block hs, sc_permit = None\<rparr>"

text \<open>Two plan chunks arriving out of order, the second with a gap: it is not released.\<close>

definition demo_release where
  "demo_release = release_ordered (\<lambda>b. 10) (\<lambda>n. 0) (release_start None None 5 None)
     [RArrive (demo_sub 1 0 True [8]) 0 0, RArrive (demo_sub 0 0 True [5, 6]) 1 1]"

lemma demo_release_result:
  "map chunk_blocks_of (rl_out (fst demo_release)) = [[demo_block 5, demo_block 6]] \<and>
   snd demo_release \<noteq> Inr (rl_summary (fst demo_release))"
  by (simp add: demo_release_def release_start_def drain.simps demo_sub_def sub_key_def release_one_def
      verify_blocks.simps continuity_default_def demo_block_def before_send_def queue_send_def Let_def
      after_send_def from_blocks_def u32_max_def)


section \<open>Everything that was fetched is released, in order\<close>

text \<open>
  A script is the order in which sub-chunks have to be released: each one's key is the key the
  stage waits for after the one before.
\<close>

fun keyed :: "nat \<times> nat \<Rightarrow> sub_chunk list \<Rightarrow> bool" where
  "keyed k [] = True"
| "keyed k (s # ss) = (sub_key s = k \<and> keyed (succ_key s) ss)"

definition after_key :: "nat \<times> nat \<Rightarrow> sub_chunk list \<Rightarrow> nat \<times> nat" where
  "after_key k ss = (if ss = [] then k else succ_key (last ss))"

lemma keyed_append: "keyed k (xs @ ys) \<longleftrightarrow> keyed k xs \<and> keyed (after_key k xs) ys"
  by (induction xs arbitrary: k) (auto simp: after_key_def)

definition key_less :: "nat \<times> nat \<Rightarrow> nat \<times> nat \<Rightarrow> bool" where
  "key_less a b \<longleftrightarrow> fst a < fst b \<or> fst a = fst b \<and> snd a < snd b"

lemma key_less_trans: "key_less a b \<Longrightarrow> key_less b c \<Longrightarrow> key_less a c"
  by (auto simp: key_less_def)

lemma key_less_succ: "key_less (sub_key s) (succ_key s)"
  by (simp add: key_less_def sub_key_def succ_key_def)

lemma keyed_above: "keyed k ss \<Longrightarrow> s \<in> set ss \<Longrightarrow> k = sub_key s \<or> key_less k (sub_key s)"
proof (induction ss arbitrary: k)
  case (Cons x xs)
  show ?case
  proof (cases "s = x")
    case False
    then have "succ_key x = sub_key s \<or> key_less (succ_key x) (sub_key s)"
      using Cons.IH [of "succ_key x"] Cons.prems by simp
    moreover have "k = sub_key x" using Cons.prems(1) by simp
    ultimately show ?thesis using key_less_succ [of x] key_less_trans by metis
  qed (use Cons.prems in simp)
qed simp

lemma keyed_inj:
  assumes "keyed k (s # ss)" "s' \<in> set ss" shows "sub_key s \<noteq> sub_key s'"
proof
  assume eq: "sub_key s = sub_key s'"
  have "succ_key s = sub_key s' \<or> key_less (succ_key s) (sub_key s')"
    using keyed_above [of "succ_key s" ss s'] assms by simp
  then have "key_less (sub_key s) (sub_key s)" using key_less_succ [of s] key_less_trans eq by metis
  then show False by (simp add: key_less_def)
qed

lemma keyed_distinct: "keyed k ss \<Longrightarrow> distinct ss"
proof (induction ss arbitrary: k)
  case (Cons s ss)
  then show ?case using keyed_inj [OF Cons.prems, of s] Cons.IH [of "succ_key s"] by auto
qed simp

text \<open>The state after releasing the sub-chunks \<open>gone\<close>, and what waits in \<open>pending\<close>.\<close>

definition rel_state :: "nat \<Rightarrow> release_state \<Rightarrow> sub_chunk list \<Rightarrow> bool" where
  "rel_state start st gone \<longleftrightarrow>
     map chunk_blocks_of (rl_out st) = map sc_blocks gone \<and>
     rl_continuity st = cont_after continuity_default (concat (map sc_blocks gone)) \<and>
     rl_next st = after_key (0, 0) gone \<and>
     plans_released (rl_summary st) = length (filter sc_is_last gone) \<and>
     rl_accepts st = None \<and> rl_detector st = None \<and>
     rl_unreleased st = (if gone = [] then start
       else wrapping_add64 (height (last (sc_blocks (last gone)))) 1)"

definition pend_ok :: "((nat \<times> nat) \<times> sub_chunk) list \<Rightarrow> sub_chunk set \<Rightarrow> sub_chunk list \<Rightarrow> bool" where
  "pend_ok pend A rest \<longleftrightarrow>
     (\<forall>s \<in> set rest. map_of pend (sub_key s) = (if s \<in> A then Some s else None)) \<and>
     (\<forall>k. map_of pend k \<noteq> None \<longrightarrow> k \<in> sub_key ` set rest)"

lemma rel_state_step:
  assumes "rel_state start st gone" and "rl_next st = sub_key sub" and "sc_blocks sub \<noteq> []"
    and "linked (rl_continuity st) (sc_blocks sub)"
  shows "\<exists>st'. release_one enc clk (st\<lparr>rl_pending := pend\<rparr>) sub = (st', Inr ()) \<and>
    rel_state start st' (gone @ [sub]) \<and> rl_pending st' = pend"
proof (cases rule: release_one_cases [of enc clk "st\<lparr>rl_pending := pend\<rparr>" sub, case_names bad closed released])
  case (released st1)
  moreover have "rl_next (after_send st1 sub) = succ_key sub"
    using assms(2) released by (simp add: succ_key_def sub_key_def)
  ultimately show ?thesis
    using assms by (intro exI [of _ "after_send st1 sub"])
      (simp add: rel_state_def after_key_def cont_after_append)
qed (use assms in \<open>simp_all add: rel_state_def\<close>)

lemma pend_ok_pop:
  assumes "pend_ok pend A (s # rest)" and "keyed k (s # rest)"
  shows "pend_ok (AList.delete (sub_key s) pend) A rest"
  unfolding pend_ok_def
proof (intro conjI ballI allI impI)
  fix s' assume s': "s' \<in> set rest"
  then have "sub_key s' \<noteq> sub_key s" using keyed_inj [OF assms(2)] by metis
  then show "map_of (AList.delete (sub_key s) pend) (sub_key s') = (if s' \<in> A then Some s' else None)"
    using assms(1) s' by (simp add: pend_ok_def delete_conv')
next
  fix k' assume "map_of (AList.delete (sub_key s) pend) k' \<noteq> None"
  then have "k' \<noteq> sub_key s" "map_of pend k' \<noteq> None" by (auto simp: delete_conv' split: if_splits)
  then have "k' \<in> sub_key ` set (s # rest)" using assms(1) unfolding pend_ok_def by blast
  with \<open>k' \<noteq> sub_key s\<close> show "k' \<in> sub_key ` set rest" by auto
qed

lemma drain_script:
  assumes "rel_state start st gone" and "keyed (rl_next st) rest" and "pend_ok (rl_pending st) A rest"
    and "linked continuity_default (concat (map sc_blocks (gone @ rest)))"
    and "\<forall>s \<in> set rest. sc_blocks s \<noteq> []"
  shows "\<exists>st' more rest'. drain enc clk st = (st', Inr ()) \<and> rest = more @ rest' \<and> set more \<subseteq> A \<and>
    rel_state start st' (gone @ more) \<and> keyed (rl_next st') rest' \<and> pend_ok (rl_pending st') A rest' \<and>
    (rest' = [] \<or> hd rest' \<notin> A)"
  using assms
proof (induction rest arbitrary: st gone)
  case Nil
  then have "map_of (rl_pending st) (rl_next st) = None"
    unfolding pend_ok_def by (metis empty_iff image_empty list.set(1))
  with Nil show ?case by (intro exI [of _ st] exI [of _ "[]"]) (simp add: drain.simps [of _ _ st])
next
  case (Cons s rest)
  then have k: "rl_next st = sub_key s" by simp
  show ?case
  proof (cases "s \<in> A")
    case False
    then have "map_of (rl_pending st) (rl_next st) = None" using Cons.prems(3) k by (simp add: pend_ok_def)
    then have "drain enc clk st = (st, Inr ())" by (simp add: drain.simps [of _ _ st])
    with Cons.prems False show ?thesis
      by (intro exI [of _ st] exI [of _ "[]"] exI [of _ "s # rest"]) simp
  next
    case True
    let ?pend = "AList.delete (rl_next st) (rl_pending st)"
    have look: "map_of (rl_pending st) (rl_next st) = Some s" using True Cons.prems(3) k by (simp add: pend_ok_def)
    have "linked (rl_continuity st) (sc_blocks s)"
      using Cons.prems(1,4) by (simp add: rel_state_def linked_append)
    with rel_state_step [OF Cons.prems(1) k, of enc clk ?pend] Cons.prems(5)
    obtain st1 where one: "release_one enc clk (st\<lparr>rl_pending := ?pend\<rparr>) s = (st1, Inr ())"
      and st1: "rel_state start st1 (gone @ [s])" "rl_pending st1 = ?pend"
      by auto
    have dr: "drain enc clk st = drain enc clk st1" using look one by (simp add: drain.simps [of _ _ st])
    have "rl_next st1 = succ_key s" using st1(1) by (simp add: rel_state_def after_key_def)
    then have "keyed (rl_next st1) rest" using Cons.prems(2) by simp
    moreover have "pend_ok (rl_pending st1) A rest"
      using pend_ok_pop [OF Cons.prems(3,2)] st1(2) k by simp
    moreover have "linked continuity_default (concat (map sc_blocks ((gone @ [s]) @ rest)))"
      using Cons.prems(4) by simp
    ultimately obtain st' more rest' where "drain enc clk st1 = (st', Inr ())" "rest = more @ rest'"
      "set more \<subseteq> A" "rel_state start st' ((gone @ [s]) @ more)" "keyed (rl_next st') rest'"
      "pend_ok (rl_pending st') A rest'" "rest' = [] \<or> hd rest' \<notin> A"
      using Cons.IH [OF st1(1)] Cons.prems(5) by auto
    then show ?thesis
      using dr True by (intro exI [of _ st'] exI [of _ "s # more"] exI [of _ rest']) simp
  qed
qed

fun arrivals :: "release_event list \<Rightarrow> sub_chunk list" where
  "arrivals [] = []"
| "arrivals (RArrive s t1 t2 # evs) = s # arrivals evs"
| "arrivals (RSecond t # evs) = arrivals evs"

lemma pend_ok_insert:
  assumes "pend_ok pend A rest" and "s \<in> set rest" and "inj_on sub_key (set rest)"
  shows "pend_ok (AList.update (sub_key s) s pend) (insert s A) rest"
  unfolding pend_ok_def
proof (intro conjI ballI allI impI)
  fix s' assume "s' \<in> set rest"
  then show "map_of (AList.update (sub_key s) s pend) (sub_key s') = (if s' \<in> insert s A then Some s' else None)"
    using assms inj_onD [OF assms(3), of s s'] by (auto simp: pend_ok_def update_conv')
next
  fix k' assume "map_of (AList.update (sub_key s) s pend) k' \<noteq> None"
  then have "k' = sub_key s \<or> map_of pend k' \<noteq> None" by (simp add: update_conv' split: if_splits)
  then show "k' \<in> sub_key ` set rest" using assms(1,2) unfolding pend_ok_def by blast
qed

lemma keyed_inj_on: "keyed k ss \<Longrightarrow> inj_on sub_key (set ss)"
proof (induction ss arbitrary: k)
  case (Cons s ss)
  then have "sub_key s \<notin> sub_key ` set ss" using keyed_inj [OF Cons.prems] by blast
  then show ?case using Cons.IH [of "succ_key s"] Cons.prems by auto
qed simp

lemma release_script:
  assumes "rel_state start st gone" and "keyed (rl_next st) rest" and "pend_ok (rl_pending st) A rest"
    and "rest = [] \<or> hd rest \<notin> A"
    and "linked continuity_default (concat (map sc_blocks (gone @ rest)))"
    and "\<forall>s \<in> set rest. sc_blocks s \<noteq> []"
    and "distinct (arrivals evs)" and "set (arrivals evs) = set rest - A"
  shows "\<exists>st'. release_ordered enc clk st evs = (st', Inr (rl_summary st')) \<and> rel_state start st' (gone @ rest)"
  using assms
proof (induction evs arbitrary: st gone rest A)
  case Nil
  then have "rest = []" by (cases rest) auto
  with Nil show ?case by simp
next
  case (Cons ev evs)
  have det: "rl_detector st = None" using Cons.prems(1) by (simp add: rel_state_def)
  show ?case
  proof (cases ev)
    case (RSecond t)
    then show ?thesis using Cons.IH [OF Cons.prems(1-6)] Cons.prems(7,8) det by simp
  next
    case (RArrive s t1 t2)
    then have s: "s \<in> set rest" "s \<notin> A" "s \<notin> set (arrivals evs)" using Cons.prems(7,8) by auto
    let ?st = "add_pending s (arrive_state st s t1 None)"
    have st: "rel_state start ?st gone" "keyed (rl_next ?st) rest"
      "pend_ok (rl_pending ?st) (insert s A) rest"
      using Cons.prems(1,2) pend_ok_insert [OF Cons.prems(3) s(1) keyed_inj_on [OF Cons.prems(2)]]
      by (simp_all add: rel_state_def add_pending_def)
    obtain st' more rest' where d: "drain enc clk ?st = (st', Inr ())" "rest = more @ rest'"
      "set more \<subseteq> insert s A" "rel_state start st' (gone @ more)" "keyed (rl_next st') rest'"
      "pend_ok (rl_pending st') (insert s A) rest'" "rest' = [] \<or> hd rest' \<notin> insert s A"
      using drain_script [OF st Cons.prems(5,6)] by blast
    have "set (arrivals evs) = set rest' - insert s A"
      using Cons.prems(7,8) RArrive s d(2,3) by auto
    then have "\<exists>st''. release_ordered enc clk st' evs = (st'', Inr (rl_summary st'')) \<and>
        rel_state start st'' ((gone @ more) @ rest')"
      using Cons.IH [OF d(4-7)] Cons.prems(5,6,7) d(2) RArrive by auto
    moreover have "release_ordered enc clk st (RArrive s t1 t2 # evs) = release_ordered enc clk st' evs"
      using release_arrive [OF _ d(1), where ?t2.0 = t2 and ?r1.0 = "Inr ()" and evs = evs] det by simp
    ultimately show ?thesis using RArrive d(2) by simp
  qed
qed

text \<open>
  The scripts of the plan: for each plan chunk, sub-chunks that deliver its blocks.
\<close>

definition chunk_script where
  "chunk_script canon enc plan i subs \<longleftrightarrow>
     (\<exists>k. sub_run canon enc i (fst (chunk_range plan i)) 0 subs (Suc (snd (chunk_range plan i))) k) \<and>
     last_marked subs"

lemma keyed_chunk:
  assumes "map sc_sub_index subs = [j..<k]" "\<forall>s \<in> set subs. sc_plan_index s = i" "last_marked subs"
  shows "keyed (i, j) subs \<and> after_key (i, j) subs = (Suc i, 0) \<and> length (filter sc_is_last subs) = 1"
  using assms
proof (induction subs arbitrary: j)
  case (Cons s ss)
  have "[j..<k] = sc_sub_index s # map sc_sub_index ss" using Cons.prems(1) by simp
  then have s: "sc_sub_index s = j" "map sc_sub_index ss = [Suc j..<k]" "sc_plan_index s = i"
    using Cons.prems(2) by (auto simp: upt_eq_Cons_conv)
  show ?case
  proof (cases "ss = []")
    case True
    then show ?thesis using Cons.prems(3) s by (simp add: last_marked_def sub_key_def after_key_def succ_key_def)
  next
    case False
    then have "last_marked ss" "\<not> sc_is_last s" using Cons.prems(3) by (auto simp: last_marked_def)
    then show ?thesis
      using Cons.IH [OF s(2)] Cons.prems(2) s False by (auto simp: sub_key_def succ_key_def after_key_def)
  qed
qed (simp add: last_marked_def)

lemma plan_script_keyed:
  assumes "\<forall>i < n. chunk_script canon enc plan i (subs i)"
  shows "keyed (0, 0) (concat (map subs [0..<n])) \<and> after_key (0, 0) (concat (map subs [0..<n])) = (n, 0) \<and>
    length (filter sc_is_last (concat (map subs [0..<n]))) = n"
  using assms
proof (induction n)
  case (Suc n)
  obtain k where "sub_run canon enc n (fst (chunk_range plan n)) 0 (subs n) (Suc (snd (chunk_range plan n))) k"
    "last_marked (subs n)"
    using Suc.prems by (auto simp: chunk_script_def)
  then have c: "keyed (n, 0) (subs n)" "after_key (n, 0) (subs n) = (Suc n, 0)"
    "length (filter sc_is_last (subs n)) = 1" "subs n \<noteq> []"
    using keyed_chunk [of "subs n" 0 k n] by (auto simp: sub_run_def last_marked_def)
  have "after_key (0, 0) (concat (map subs [0..<n]) @ subs n) = after_key (n, 0) (subs n)"
    using c(4) by (simp add: after_key_def)
  then show ?case using Suc c by (simp add: keyed_append)
qed (simp add: after_key_def)

lemma plan_script_blocks:
  assumes "\<forall>i < n. chunk_script canon enc plan i (subs i)"
  shows "concat (map sc_blocks (concat (map subs [0..<n]))) =
    map canon (concat (map (\<lambda>i. range_list (chunk_range plan i)) [0..<n]))"
  using assms
proof (induction n)
  case (Suc n)
  then have "concat (map sc_blocks (subs n)) = map canon (range_list (chunk_range plan n))"
    by (auto simp: chunk_script_def sub_run_def range_list_def simp del: upt_Suc)
  with Suc show ?case by simp
qed simp

lemma linked_chain:
  assumes "heights_ok canon" and "\<forall>h. a < h \<and> h \<le> b \<longrightarrow> prev_hash (canon h) = hash (canon (h - 1))"
    and "b \<le> u32_max"
  shows "linked continuity_default (map canon [a..<Suc b])"
proof (cases "a \<le> b")
  case True
  have "linked (cont_of (canon h)) (map canon [Suc h..<Suc b])" if "a \<le> h" "h \<le> b" for h
    using that
  proof (induction "b - h" arbitrary: h)
    case (Suc n)
    then have "[Suc h..<Suc b] = Suc h # [Suc (Suc h)..<Suc b]" by (simp add: upt_conv_Cons del: upt_Suc)
    moreover have "follows (cont_of (canon h)) (canon (Suc h))"
      using assms Suc by (simp add: follows_def cont_of_def heights_ok_def)
    ultimately show ?case using Suc by (simp del: upt_Suc)
  qed simp
  then have "linked (cont_of (canon a)) (map canon [Suc a..<Suc b])" using True by simp
  moreover have "[a..<Suc b] = a # [Suc a..<Suc b]" using True by (simp add: upt_conv_Cons del: upt_Suc)
  moreover have "follows continuity_default (canon a)"
    using assms True by (simp add: follows_def continuity_default_def heights_ok_def)
  ultimately show ?thesis by (simp del: upt_Suc)
qed simp

text \<open>The chain a server serves: heights in place, each block linked to the one below.\<close>

definition is_chain :: "(nat \<Rightarrow> compact_block) \<Rightarrow> bool" where
  "is_chain canon \<longleftrightarrow> heights_ok canon \<and> (\<forall>h > 0. prev_hash (canon h) = hash (canon (h - 1)))"

lemma last_concat_map: "xs \<noteq> [] \<Longrightarrow> f (last xs) \<noteq> [] \<Longrightarrow> last (concat (map f xs)) = last (f (last xs))"
  by (cases xs rule: rev_cases) auto

lemma release_plan:
  assumes plan: "plan_wf plan" "plan_end plan \<le> u32_max" and chain: "is_chain canon"
    and scripts: "\<forall>i < chunk_count plan. chunk_script canon enc plan i (subs i)"
    and dist: "distinct (arrivals evs)"
    and arr: "set (arrivals evs) = set (concat (map subs [0..<chunk_count plan]))"
  shows "\<exists>st. release_ordered enc clk (release_start None p (plan_start plan) None) evs = (st, Inr (rl_summary st)) \<and>
    out_blocks st = map canon [plan_start plan..<Suc (plan_end plan)] \<and>
    plans_released (rl_summary st) = chunk_count plan \<and> rl_unreleased st = Suc (plan_end plan)"
proof -
  let ?script = "concat (map subs [0..<chunk_count plan])"
  let ?st = "release_start None p (plan_start plan) None"
  note ks = plan_script_keyed [OF scripts]
  have blocks: "concat (map sc_blocks ?script) = map canon [plan_start plan..<Suc (plan_end plan)]"
    using plan_script_blocks [OF scripts] chunk_ranges_all [OF plan(1)] by simp
  have nonempty: "\<forall>s \<in> set ?script. sc_blocks s \<noteq> []"
    using scripts by (fastforce simp: chunk_script_def sub_run_def)
  have "rel_state (plan_start plan) ?st []"
    by (simp add: rel_state_def release_start_def cont_after_def after_key_def)
  moreover have "keyed (rl_next ?st) ?script" using ks by (simp add: release_start_def)
  moreover have "pend_ok (rl_pending ?st) {} ?script" by (simp add: pend_ok_def release_start_def)
  moreover have "linked continuity_default (concat (map sc_blocks ([] @ ?script)))"
    unfolding append_Nil blocks
    using chain plan(2) by (intro linked_chain) (auto simp: is_chain_def)
  ultimately obtain st where run: "release_ordered enc clk ?st evs = (st, Inr (rl_summary st))"
    and rel: "rel_state (plan_start plan) st ?script"
    using release_script [of "plan_start plan" ?st "[]" ?script "{}" evs enc clk] nonempty dist arr by auto
  have out: "out_blocks st = map canon [plan_start plan..<Suc (plan_end plan)]"
    using rel blocks by (simp add: out_blocks_def rel_state_def)
  have ne: "?script \<noteq> []"
  proof
    assume e: "?script = []"
    show False using blocks plan(1) unfolding e by (simp add: plan_wf_def)
  qed
  then have "last (sc_blocks (last ?script)) = last (concat (map sc_blocks ?script))"
    using nonempty last_in_set [OF ne] by (intro last_concat_map [symmetric]) blast+
  also have "\<dots> = last (map canon [plan_start plan..<Suc (plan_end plan)])"
    using blocks by simp
  also have "\<dots> = canon (plan_end plan)" using plan(1) by (simp add: plan_wf_def)
  finally have "height (last (sc_blocks (last ?script))) = plan_end plan"
    using chain by (simp add: is_chain_def heights_ok_def)
  moreover have "rl_unreleased st = wrapping_add64 (height (last (sc_blocks (last ?script)))) 1"
    using rel unfolding rel_state_def if_not_P [OF ne] by blast
  ultimately have "rl_unreleased st = wrapping_add64 (plan_end plan) 1" by simp
  also have "\<dots> = Suc (plan_end plan)"
    using plan(2) by (subst wrapping_add64_small) (simp_all add: u32_max_def u64_max_def)
  finally show ?thesis using run rel out ks by (simp add: rel_state_def)
qed

section \<open>Supervision\<close>

fun harmless :: "sup_event \<Rightarrow> bool" where
  "harmless (WJoined (Inr _) pos now) = True"
| "harmless (RDone (Inr s)) = True"
| "harmless _ = False"

fun joined_ok :: "sup_event \<Rightarrow> bool" where
  "joined_ok (WJoined (Inr _) pos now) = True"
| "joined_ok _ = False"

lemma supervise_prefix:
  assumes "\<forall>ev \<in> set pre. harmless ev" and "length (filter joined_ok pre) < n"
  shows "\<exists>rel'. supervise_loop fo fin n rel p (pre @ evs) =
    supervise_loop fo fin (n - length (filter joined_ok pre)) rel' p evs"
  using assms
proof (induction pre arbitrary: n rel)
  case Nil
  then show ?case by auto
next
  case (Cons ev pre)
  have n: "n \<noteq> 0" and pre: "\<forall>ev \<in> set pre. harmless ev" using Cons.prems by auto
  show ?case
  proof (cases ev)
    case (WJoined r pos now)
    then obtain u where r: "r = Inr u" using Cons.prems(1) by (cases r) auto
    then have ev: "joined_ok ev" using WJoined by simp
    have "supervise_loop fo fin n rel p ((ev # pre) @ evs) = supervise_loop fo fin (n - 1) rel p (pre @ evs)"
      using n WJoined r by simp
    moreover have "length (filter joined_ok pre) < n - 1" using Cons.prems(2) ev by simp
    moreover have "n - length (filter joined_ok (ev # pre)) = n - 1 - length (filter joined_ok pre)"
      using ev by simp
    ultimately show ?thesis using Cons.IH [OF pre, of "n - 1" rel] by metis
  next
    case (WPanicked m pos now)
    then show ?thesis using Cons.prems(1) by simp
  next
    case (RDone r)
    then obtain s where r: "r = Inr s" using Cons.prems(1) by (cases r) auto
    have "supervise_loop fo fin n rel p ((ev # pre) @ evs) =
        supervise_loop fo fin n (if rel = None then Some s else rel) p (pre @ evs)"
      using n RDone r by simp
    moreover have "filter joined_ok (ev # pre) = filter joined_ok pre" using RDone by simp
    ultimately show ?thesis using Cons.IH [OF pre] Cons.prems(2) by metis
  qed
qed

text \<open>
  C14.  A worker that gives up fails the whole fetch at once, and the stall record says where.
  While fewer than all \<open>n\<close> workers have finished and nothing has failed, the first worker that ends
  with an error ends the fetch, whatever would have come after: with that error, or as a wire
  collapse when a failover is armed.  The give-up is recorded at the lowest block not yet handed to
  the scanner, unless every block of the plan already was.
\<close>

theorem worker_failure_fails_fast:
  assumes "\<forall>ev \<in> set pre. harmless ev" and "length (filter joined_ok pre) < n"
  shows "supervise_fetch fo fin n (Some q) (pre @ WJoined (Inl err) pos now # rest) =
    (Some (Inl (case fo of Some arm \<Rightarrow> WireCollapse 0 (floor_mbps arm) | None \<Rightarrow> err)),
     Some (if pos \<le> fin then note_download_gave_up_at pos now q else q))"
proof -
  obtain rel' where "supervise_loop fo fin n None (Some q) (pre @ WJoined (Inl err) pos now # rest) =
      supervise_loop fo fin (n - length (filter joined_ok pre)) rel' (Some q) (WJoined (Inl err) pos now # rest)"
    using supervise_prefix [OF assms] by blast
  then show ?thesis
    using assms(2) by (auto simp: supervise_fetch_def note_give_up_def Let_def split: option.splits)
qed

theorem worker_failure_fails_fast_witness:
  "supervise_fetch None 99 3 (Some progress_default)
     ([WJoined (Inr ()) 10 0, RDone (Inr (rl_summary (release_start None None 5 None)))] @
      WJoined (Inl (Transport ''gone'')) 40 7 # [WJoined (Inr ()) 40 8]) =
   (Some (Inl (Transport ''gone'')), Some (note_download_gave_up_at 40 7 progress_default))"
  using worker_failure_fails_fast
    [of "[WJoined (Inr ()) 10 0, RDone (Inr (rl_summary (release_start None None 5 None)))]" 3 None 99
      progress_default "Transport ''gone''" 40 7 "[WJoined (Inr ()) 40 8]"]
  by simp

end
