(* ===== verification/Slip_Source.thy ===== *)
theory Slip_Source
  imports Slip_Chunk
begin

text \<open>
  The in-memory block source (\<open>core/src/block_source.rs\<close>): serves one chunk to the
  upstream scanner, block by block, and refuses the next block once the host has asked
  the session to stop for a wallet change. The scanner's callback is a parameter, a state
  transformer that may fail; the stop is read before each block, so its readings are a
  function of the number of blocks already served.
\<close>

datatype 'e chain_error = BlockSourceStopped | ChainOther 'e

record mem_block_source =
  src_chunk :: chunk
  walk_wall :: "nat list"
  src_stop :: "(nat \<Rightarrow> bool) option"

definition mbs_new :: "chunk \<Rightarrow> mem_block_source" where
  "mbs_new c = \<lparr>src_chunk = c, walk_wall = [], src_stop = None\<rparr>"

definition with_stop :: "mem_block_source \<Rightarrow> (nat \<Rightarrow> bool) option \<Rightarrow> mem_block_source" where
  "with_stop s p = s\<lparr>src_stop := p\<rparr>"

definition walk_walls :: "mem_block_source \<Rightarrow> nat \<times> nat" where
  "walk_walls s =
     (let w = walk_wall s in
      (if 0 < length w then w ! 0 else 0, if 1 < length w then w ! 1 else 0))"

type_synonym ('e, 's) block_callback =
  "'s \<Rightarrow> compact_block \<Rightarrow> ('e chain_error + unit) \<times> 's"

fun serve :: "nat \<Rightarrow> nat option \<Rightarrow> (nat \<Rightarrow> bool) option \<Rightarrow> ('e, 's) block_callback
    \<Rightarrow> nat \<Rightarrow> compact_block list \<Rightarrow> 's \<Rightarrow> ('e chain_error + unit) \<times> 's" where
  "serve from limit stop cb served [] st = (Inr (), st)"
| "serve from limit stop cb served (b # bs) st =
     (if height b < from then serve from limit stop cb served bs st
      else if (case limit of Some l \<Rightarrow> l \<le> served | None \<Rightarrow> False) then (Inr (), st)
      else if (case stop of Some f \<Rightarrow> f served | None \<Rightarrow> False) then (Inl BlockSourceStopped, st)
      else case cb st b of
             (Inl e, st') \<Rightarrow> (Inl e, st')
           | (Inr _, st') \<Rightarrow> serve from limit stop cb (served + 1) bs st')"

definition with_blocks :: "mem_block_source \<Rightarrow> nat option \<Rightarrow> nat option \<Rightarrow> ('e, 's) block_callback
    \<Rightarrow> nat \<Rightarrow> 's \<Rightarrow> ('e chain_error + unit) \<times> 's \<times> mem_block_source" where
  "with_blocks s from_height limit cb elapsed st =
     (let from = (case from_height of Some h \<Rightarrow> h | None \<Rightarrow> 0);
          (r, st') = serve from limit (src_stop s) cb 0 (chunk_blocks_of (src_chunk s)) st
      in (r, st', s\<lparr>walk_wall := walk_wall s @ [elapsed]\<rparr>))"

section \<open>What a walk serves\<close>

text \<open>The blocks a walk is to hand out, and the plain loop that hands a list of blocks out.\<close>

definition to_serve :: "nat option \<Rightarrow> nat option \<Rightarrow> compact_block list \<Rightarrow> compact_block list" where
  "to_serve from_height limit bs =
     (let sel = filter (\<lambda>b. (case from_height of Some h \<Rightarrow> h | None \<Rightarrow> 0) \<le> height b) bs in
      case limit of Some l \<Rightarrow> take l sel | None \<Rightarrow> sel)"

fun hand_out :: "('e, 's) block_callback \<Rightarrow> compact_block list \<Rightarrow> 's \<Rightarrow> ('e chain_error + unit) \<times> 's" where
  "hand_out cb [] st = (Inr (), st)"
| "hand_out cb (b # bs) st =
     (case cb st b of (Inl e, st') \<Rightarrow> (Inl e, st') | (Inr _, st') \<Rightarrow> hand_out cb bs st')"

lemma hand_out_append:
  "hand_out cb (xs @ ys) st =
     (case hand_out cb xs st of (Inl e, st') \<Rightarrow> (Inl e, st') | (Inr _, st') \<Rightarrow> hand_out cb ys st')"
  by (induction xs arbitrary: st) (auto split: prod.splits sum.splits)

definition left_of :: "nat option \<Rightarrow> nat \<Rightarrow> nat option" where
  "left_of limit served = map_option (\<lambda>l. l - served) limit"

lemma serve_no_stop:
  "(\<And>k. served \<le> k \<Longrightarrow> (case stop of Some f \<Rightarrow> f k | None \<Rightarrow> False) = False) \<Longrightarrow>
   serve from limit stop cb served bs st
     = hand_out cb (to_serve (Some from) (left_of limit served) bs) st"
proof (induction bs arbitrary: served st)
  case Nil
  then show ?case by (auto simp: to_serve_def Let_def split: option.splits)
next
  case (Cons b bs)
  show ?case
  proof (cases "height b < from")
    case True
    then show ?thesis
      using Cons by (auto simp: to_serve_def Let_def split: option.splits)
  next
    case False
    note IH = Cons.IH [of "served + 1"]
    show ?thesis
    proof (cases "case limit of Some l \<Rightarrow> l \<le> served | None \<Rightarrow> False")
      case True
      with False show ?thesis by (auto simp: to_serve_def left_of_def split: option.splits)
    next
      case go: False
      have ts: "to_serve (Some from) (left_of limit served) (b # bs)
          = b # to_serve (Some from) (left_of limit (served + 1)) bs"
        using False go
        by (auto simp: to_serve_def left_of_def not_less_eq_eq take_Cons' split: option.splits)
      have "(case stop of Some f \<Rightarrow> f served | None \<Rightarrow> False) = False"
        using Cons.prems by blast
      then show ?thesis
        using False go ts IH Cons.prems
        by (auto split: prod.splits sum.splits)
    qed
  qed
qed

lemma serve_stops:
  assumes "f (served + k)" and "\<And>j. j < k \<Longrightarrow> \<not> f (served + j)"
    and "k < length (to_serve (Some from) (left_of limit served) bs)"
    and "hand_out cb (take k (to_serve (Some from) (left_of limit served) bs)) st = (Inr (), st')"
  shows "serve from limit (Some f) cb served bs st = (Inl BlockSourceStopped, st')"
  using assms
proof (induction bs arbitrary: served st k)
  case Nil
  then show ?case by (auto simp: to_serve_def Let_def split: option.splits)
next
  case (Cons b bs)
  show ?case
  proof (cases "height b < from")
    case True
    then have "to_serve (Some from) (left_of limit served) (b # bs)
        = to_serve (Some from) (left_of limit served) bs"
      by (simp add: to_serve_def)
    with True Cons.IH [OF Cons.prems(1,2)] Cons.prems(3,4) show ?thesis by simp
  next
    case False
    have go: "\<not> (case limit of Some l \<Rightarrow> l \<le> served | None \<Rightarrow> False)"
      using Cons.prems(3) False by (auto simp: to_serve_def left_of_def split: option.splits)
    have ts: "to_serve (Some from) (left_of limit served) (b # bs)
        = b # to_serve (Some from) (left_of limit (served + 1)) bs"
      using False go
      by (auto simp: to_serve_def left_of_def not_less_eq_eq take_Cons' split: option.splits)
    show ?thesis
    proof (cases k)
      case 0
      with Cons.prems False go show ?thesis by simp
    next
      case (Suc j)
      with Cons.prems(4) ts obtain s1 where cb: "cb st b = (Inr (), s1)"
        and rest: "hand_out cb (take j (to_serve (Some from) (left_of limit (served + 1)) bs)) s1
          = (Inr (), st')"
        by (auto split: prod.splits sum.splits)
      have "serve from limit (Some f) cb (served + 1) bs s1 = (Inl BlockSourceStopped, st')"
      proof (rule Cons.IH)
        show "f (served + 1 + j)" using Cons.prems(1) Suc by simp
        show "\<And>i. i < j \<Longrightarrow> \<not> f (served + 1 + i)"
          using Cons.prems(2) [of "Suc _"] Suc by simp
        show "j < length (to_serve (Some from) (left_of limit (served + 1)) bs)"
          using Cons.prems(3) ts Suc by simp
      qed (rule rest)
      moreover have "\<not> f served" using Cons.prems(2) [of 0] Suc by simp
      ultimately show ?thesis using False go cb by simp
    qed
  qed
qed

text \<open>A concrete source: blocks 5, 6 and 7, and a callback that notes the heights it is handed.\<close>

definition src_block :: "nat \<Rightarrow> compact_block" where
  "src_block h = \<lparr>height = h, hash = [], prev_hash = [], vtx = []\<rparr>"

definition demo_source :: mem_block_source where
  "demo_source = mbs_new (from_blocks (\<lambda>_. 1) 0 [src_block 5, src_block 6, src_block 7])"

definition demo_note :: "(unit, nat list) block_callback" where
  "demo_note seen b = (Inr (), seen @ [height b])"

text \<open>
  A walk of the block source that no stop interrupts hands out exactly the chunk's
  blocks from the requested height on, in order and at most as many as the limit allows,
  stopping early only where the callback fails; with no stop given this is always so.
\<close>

theorem with_blocks_serves:
  assumes "\<And>f k. src_stop s = Some f \<Longrightarrow> \<not> f k"
  shows "\<exists>s'. with_blocks s from_height limit cb elapsed st =
    (fst (hand_out cb (to_serve from_height limit (chunk_blocks_of (src_chunk s))) st),
     snd (hand_out cb (to_serve from_height limit (chunk_blocks_of (src_chunk s))) st), s')
    \<and> walk_wall s' = walk_wall s @ [elapsed]"
proof -
  define lo where "lo = (case from_height of Some h \<Rightarrow> h | None \<Rightarrow> (0::nat))"
  have "serve lo limit (src_stop s) cb 0 (chunk_blocks_of (src_chunk s)) st
      = hand_out cb (to_serve (Some lo) (left_of limit 0) (chunk_blocks_of (src_chunk s))) st"
    by (rule serve_no_stop) (auto split: option.splits dest: assms)
  moreover have "to_serve (Some lo) (left_of limit 0) bs = to_serve from_height limit bs" for bs
    by (auto simp: to_serve_def left_of_def lo_def split: option.splits)
  ultimately show ?thesis
    by (simp add: with_blocks_def lo_def [symmetric] split: prod.splits)
qed

theorem with_blocks_serves_witness:
  "\<exists>s'. with_blocks demo_source (Some 6) (Some 1) demo_note 9 [] = (Inr (), [6], s')
    \<and> walk_wall s' = [9]"
  using with_blocks_serves [of demo_source "Some 6" "Some 1" demo_note 9 "[]"]
  by (simp add: demo_source_def mbs_new_def to_serve_def src_block_def demo_note_def)

text \<open>
  A stop requested while a walk runs ends it within a block: if the stop reads true
  for the first time when \<open>k\<close> blocks have been handed out and another is due, the walk
  returns the wallet-change stop with exactly those \<open>k\<close> blocks handed out, and none
  after it.
\<close>

theorem stop_ends_the_walk:
  assumes "src_stop s = Some f" and "f k" and "\<And>j. j < k \<Longrightarrow> \<not> f j"
    and "k < length (to_serve from_height limit (chunk_blocks_of (src_chunk s)))"
    and "hand_out cb (take k (to_serve from_height limit (chunk_blocks_of (src_chunk s)))) st
      = (Inr (), st')"
  shows "\<exists>s'. with_blocks s from_height limit cb elapsed st = (Inl BlockSourceStopped, st', s')
    \<and> walk_wall s' = walk_wall s @ [elapsed]"
proof -
  define lo where "lo = (case from_height of Some h \<Rightarrow> h | None \<Rightarrow> (0::nat))"
  have eq: "to_serve (Some lo) (left_of limit 0) bs = to_serve from_height limit bs" for bs
    by (auto simp: to_serve_def left_of_def lo_def split: option.splits)
  have "serve lo limit (Some f) cb 0 (chunk_blocks_of (src_chunk s)) st
      = (Inl BlockSourceStopped, st')"
    by (rule serve_stops [where k = k]) (use assms eq in auto)
  with assms(1) show ?thesis
    by (simp add: with_blocks_def lo_def [symmetric])
qed

theorem stop_ends_the_walk_witness:
  "\<exists>s'. with_blocks (with_stop demo_source (Some (\<lambda>k. 1 \<le> k))) None None demo_note 9 []
      = (Inl BlockSourceStopped, [5], s') \<and> walk_wall s' = [9]"
  using stop_ends_the_walk [of "with_stop demo_source (Some (\<lambda>k. 1 \<le> k))" "\<lambda>k. 1 \<le> k" 1 None None
      demo_note "[]" "[5]" 9]
  by (simp add: demo_source_def with_stop_def mbs_new_def to_serve_def src_block_def demo_note_def)

end
