(* ===== verification/Slip_Census.thy ===== *)
theory Slip_Census
  imports Slip_Prelude
begin

text \<open>
  The shard census of a pass (\<open>src/core/src/census.rs\<close>): which \<open>2\<^sup>1\<^sup>6\<close>-position shards of a
  commitment tree a pass touched, and which of them hold notes of the wallet.
\<close>

definition CENSUS_SHARD_BITS :: nat where "CENSUS_SHARD_BITS = 16"

definition census_shard :: "nat \<Rightarrow> nat" where
  "census_shard pos = pos div 2 ^ CENSUS_SHARD_BITS"

record shard_census =
  touched :: "nat set"
  noted :: "nat set"
  commitments :: nat

definition census_empty :: shard_census where
  "census_empty = \<lparr>touched = {}, noted = {}, commitments = 0\<rparr>"

definition census_feed :: "nat \<Rightarrow> nat \<Rightarrow> nat list \<Rightarrow> shard_census \<Rightarrow> shard_census" where
  "census_feed start_position n note_positions c =
     (let c1 = (if n > 0
                then c\<lparr>touched := touched c \<union> set [census_shard start_position..<Suc (census_shard (start_position + n - 1))],
                       commitments := commitments c + n\<rparr>
                else c)
      in c1\<lparr>noted := noted c1 \<union> census_shard ` set note_positions\<rparr>)"

definition census_merge :: "shard_census \<Rightarrow> shard_census \<Rightarrow> shard_census" where
  "census_merge c other =
     c\<lparr>touched := touched c \<union> touched other, noted := noted c \<union> noted other,
       commitments := commitments c + commitments other\<rparr>"

definition shards :: "shard_census \<Rightarrow> nat" where "shards c = card (touched c)"

definition noted_shards :: "shard_census \<Rightarrow> nat" where "noted_shards c = card (noted c)"

definition graftable_fraction :: "shard_census \<Rightarrow> rat" where
  "graftable_fraction c =
     (let n = shards c
      in if n = 0 then 0
         else (let non_graftable = min (saturating_add64 (noted_shards c) 1) n
               in of_nat (n - non_graftable) / of_nat n))"

record pool_census_out =
  out_shards :: nat
  out_noted_shards :: nat
  out_commitments :: nat
  out_graftable_fraction :: rat

definition pool_census_from :: "shard_census \<Rightarrow> pool_census_out" where
  "pool_census_from c =
     \<lparr>out_shards = shards c, out_noted_shards = noted_shards c, out_commitments = commitments c,
      out_graftable_fraction = graftable_fraction c\<rparr>"

section \<open>What a census counts\<close>

definition feed_all :: "(nat \<times> nat \<times> nat list) list \<Rightarrow> shard_census \<Rightarrow> shard_census" where
  "feed_all fs c = fold (\<lambda>(s, n, notes). census_feed s n notes) fs c"

lemma feed_all_simps [simp]:
  "feed_all [] c = c" "feed_all ((s, n, notes) # fs) c = feed_all fs (census_feed s n notes c)"
  by (simp_all add: feed_all_def)

lemma shard_range:
  "n > 0 \<Longrightarrow> set [census_shard s..<Suc (census_shard (s + n - 1))] = census_shard ` {s..<s + n}"
proof -
  assume n: "n > 0"
  show ?thesis
  proof (intro set_eqI iffI)
    fix x assume "x \<in> set [census_shard s..<Suc (census_shard (s + n - 1))]"
    then have x: "census_shard s \<le> x" "x \<le> census_shard (s + n - 1)" by auto
    let ?pos = "max s (x * 2 ^ CENSUS_SHARD_BITS)"
    have "census_shard ?pos = x"
    proof (cases "s \<le> x * 2 ^ CENSUS_SHARD_BITS")
      case True
      then show ?thesis by (simp add: census_shard_def max_def)
    next
      case False
      then have "x \<le> census_shard s" unfolding census_shard_def
        by (metis div_le_mono nat_le_linear nonzero_mult_div_cancel_right power_not_zero zero_neq_numeral)
      with x False show ?thesis by (simp add: max_def)
    qed
    moreover have "?pos < s + n"
    proof -
      have "x * 2 ^ CENSUS_SHARD_BITS \<le> s + n - 1"
        using x(2) unfolding census_shard_def by (metis div_times_less_eq_dividend le_trans mult_le_mono1)
      then show ?thesis using n by auto
    qed
    ultimately show "x \<in> census_shard ` {s..<s + n}" by (intro image_eqI [of _ _ ?pos]) auto
  next
    fix x assume "x \<in> census_shard ` {s..<s + n}"
    then obtain pos where "x = census_shard pos" "s \<le> pos" "pos \<le> s + n - 1" by auto
    then have "census_shard s \<le> x" "x \<le> census_shard (s + n - 1)" by (simp_all add: census_shard_def div_le_mono)
    then show "x \<in> set [census_shard s..<Suc (census_shard (s + n - 1))]" by auto
  qed
qed

lemma census_feed_sets:
  "touched (census_feed s n notes c) = touched c \<union> census_shard ` {s..<s + n}"
  "noted (census_feed s n notes c) = noted c \<union> census_shard ` set notes"
  "commitments (census_feed s n notes c) = commitments c + n"
  using shard_range [of n s] by (auto simp: census_feed_def Let_def)

lemma feed_all_sets:
  "touched (feed_all fs c) = touched c \<union> (\<Union>(s, n, notes) \<in> set fs. census_shard ` {s..<s + n}) \<and>
   noted (feed_all fs c) = noted c \<union> (\<Union>(s, n, notes) \<in> set fs. census_shard ` set notes) \<and>
   commitments (feed_all fs c) = commitments c + sum_list (map (\<lambda>(s, n, notes). n) fs)"
proof (induction fs arbitrary: c)
  case (Cons f fs)
  then show ?case by (cases f) (simp add: census_feed_sets Un_assoc)
qed simp

text \<open>
  A census depends only on the commitments and notes it was fed: feeding two ranges and merging
  their censuses gives the census of all of them, whose shards are those of the fed positions, and
  whose graftable share lies between nothing and less than everything.
\<close>

theorem census_merge_is_union:
  "census_merge (feed_all fs census_empty) (feed_all gs census_empty) = feed_all (fs @ gs) census_empty \<and>
   touched (feed_all fs census_empty) = census_shard ` (\<Union>(s, n, notes) \<in> set fs. {s..<s + n}) \<and>
   0 \<le> graftable_fraction (feed_all fs census_empty) \<and> graftable_fraction (feed_all fs census_empty) < 1"
proof -
  have "census_merge (feed_all fs census_empty) (feed_all gs census_empty) = feed_all (fs @ gs) census_empty"
    using feed_all_sets [of fs census_empty] feed_all_sets [of gs census_empty] feed_all_sets [of "fs @ gs" census_empty]
    by (intro shard_census.equality) (auto simp: census_merge_def census_empty_def)
  moreover have "touched (feed_all fs census_empty) = census_shard ` (\<Union>(s, n, notes) \<in> set fs. {s..<s + n})"
    using feed_all_sets [of fs census_empty] by (auto simp: census_empty_def)
  moreover have "0 \<le> graftable_fraction c \<and> graftable_fraction c < 1" for c
  proof (cases "shards c = 0")
    case False
    then have "1 \<le> min (saturating_add64 (noted_shards c) 1) (shards c)"
      by (auto simp: saturating_add64_def u64_max_def)
    then show ?thesis using False by (simp add: graftable_fraction_def Let_def divide_less_eq)
  qed (simp add: graftable_fraction_def)
  ultimately show ?thesis by blast
qed

end
