(* ===== verification/Slip_Stats.thy ===== *)
theory Slip_Stats
  imports Slip_Wire Slip_Census
begin

text \<open>
  The statistics a pass collects: of the enhancement (\<open>src/core/src/enhance.rs\<close>), of a range's scan
  (\<open>src/core/src/scan.rs\<close>), and of the whole pass (\<open>src/core/src/scheduler.rs\<close>,
  \<open>src/core/src/engine.rs\<close>).  Durations are exact rationals, in seconds.
\<close>

record enhance_stats =
  es_requests :: nat
  es_txs_stored :: nat
  es_statuses_set :: nat
  es_skipped :: nat
  es_fetch_wait :: rat
  es_store :: rat
  es_address :: rat

definition enhance_stats_default :: enhance_stats where
  "enhance_stats_default = \<lparr>es_requests = 0, es_txs_stored = 0, es_statuses_set = 0, es_skipped = 0,
     es_fetch_wait = 0, es_store = 0, es_address = 0\<rparr>"

definition enhance_add :: "enhance_stats \<Rightarrow> enhance_stats \<Rightarrow> enhance_stats" where
  "enhance_add a b = \<lparr>es_requests = es_requests a + es_requests b, es_txs_stored = es_txs_stored a + es_txs_stored b,
     es_statuses_set = es_statuses_set a + es_statuses_set b, es_skipped = es_skipped a + es_skipped b,
     es_fetch_wait = es_fetch_wait a + es_fetch_wait b, es_store = es_store a + es_store b,
     es_address = es_address a + es_address b\<rparr>"

record scan_stats =
  ss_blocks :: nat
  ss_chunks :: nat
  ss_sapling_received :: nat
  ss_orchard_received :: nat
  interleaved_enhance :: enhance_stats
  interleaved_enhance_elapsed :: rat
  persist_wait :: rat
  persist_busy :: rat
  recv_wait :: rat
  scan_call :: rat
  prefetch_wait :: rat
  interleave_drain :: rat
  final_drain :: rat
  treestate_absorb :: rat
  state_prep :: rat
  prefetch_spawn :: rat
  submit_wait :: rat
  submit_extra :: rat
  reseed :: rat
  scan_pass1 :: rat
  scan_pass2 :: rat
  ss_census_sapling :: shard_census
  ss_census_orchard :: shard_census

definition scan_stats_default :: scan_stats where
  "scan_stats_default = \<lparr>ss_blocks = 0, ss_chunks = 0, ss_sapling_received = 0, ss_orchard_received = 0,
     interleaved_enhance = enhance_stats_default, interleaved_enhance_elapsed = 0, persist_wait = 0,
     persist_busy = 0, recv_wait = 0, scan_call = 0, prefetch_wait = 0, interleave_drain = 0,
     final_drain = 0, treestate_absorb = 0, state_prep = 0, prefetch_spawn = 0, submit_wait = 0,
     submit_extra = 0, reseed = 0, scan_pass1 = 0, scan_pass2 = 0,
     ss_census_sapling = census_empty, ss_census_orchard = census_empty\<rparr>"

record fetch_stats_totals =
  ft_blocks :: nat
  ft_bytes :: nat

record scan_stats_totals =
  st_blocks :: nat
  st_sapling_received :: nat
  st_orchard_received :: nat

record sync_report =
  ranges_processed :: nat
  rp_fetch :: fetch_stats_totals
  rp_scan :: scan_stats_totals
  rp_enhance :: enhance_stats
  rp_reorgs_recovered :: nat
  fetch_elapsed :: rat
  wire_bytes :: nat
  wire_worst_window_mbps :: rat
  scan_elapsed :: rat
  enhance_elapsed :: rat
  persist_wait_elapsed :: rat
  persist_busy_elapsed :: rat
  rp_scan_recv_wait :: rat
  rp_scan_call :: rat
  rp_scan_prefetch_wait :: rat
  rp_scan_interleave_drain :: rat
  rp_scan_final_drain :: rat
  rp_scan_absorb :: rat
  rp_scan_state_prep :: rat
  rp_scan_prefetch_spawn :: rat
  rp_scan_submit_wait :: rat
  rp_scan_submit_extra :: rat
  rp_scan_reseed :: rat
  rp_scan_pass1 :: rat
  rp_scan_pass2 :: rat
  census_sapling :: shard_census
  census_orchard :: shard_census

definition sync_report_default :: sync_report where
  "sync_report_default = \<lparr>ranges_processed = 0, rp_fetch = \<lparr>ft_blocks = 0, ft_bytes = 0\<rparr>,
     rp_scan = \<lparr>st_blocks = 0, st_sapling_received = 0, st_orchard_received = 0\<rparr>,
     rp_enhance = enhance_stats_default, rp_reorgs_recovered = 0, fetch_elapsed = 0, wire_bytes = 0,
     wire_worst_window_mbps = 0, scan_elapsed = 0, enhance_elapsed = 0, persist_wait_elapsed = 0,
     persist_busy_elapsed = 0, rp_scan_recv_wait = 0, rp_scan_call = 0, rp_scan_prefetch_wait = 0,
     rp_scan_interleave_drain = 0, rp_scan_final_drain = 0, rp_scan_absorb = 0, rp_scan_state_prep = 0,
     rp_scan_prefetch_spawn = 0, rp_scan_submit_wait = 0, rp_scan_submit_extra = 0, rp_scan_reseed = 0,
     rp_scan_pass1 = 0, rp_scan_pass2 = 0, census_sapling = census_empty, census_orchard = census_empty\<rparr>"

text \<open>
  The worst window across ranges: a range without samples or without a full window does not count,
  and zero stands for none yet.
\<close>

definition worst_of_ranges :: "rat \<Rightarrow> fetch_stats \<Rightarrow> rat" where
  "worst_of_ranges cur f =
     (if fs_wire_samples f \<noteq> []
      then (let w = worst_window_mbps f 5 in if w > 0 \<and> (cur = 0 \<or> w < cur) then w else cur)
      else cur)"

definition duration_sub :: "rat \<Rightarrow> rat \<Rightarrow> rat" where
  "duration_sub a b = max 0 (a - b)"

text \<open>What a completed range adds to the report.\<close>

definition report_add_range :: "sync_report \<Rightarrow> scan_stats \<Rightarrow> fetch_stats \<Rightarrow> rat \<Rightarrow> sync_report" where
  "report_add_range r s f scan_wall =
     r\<lparr>ranges_processed := ranges_processed r + 1,
       rp_fetch := \<lparr>ft_blocks = ft_blocks (rp_fetch r) + fs_blocks f, ft_bytes = ft_bytes (rp_fetch r) + fs_bytes f\<rparr>,
       fetch_elapsed := fetch_elapsed r + fs_elapsed f,
       wire_bytes := wire_bytes r + fs_bytes f,
       wire_worst_window_mbps := worst_of_ranges (wire_worst_window_mbps r) f,
       rp_scan := \<lparr>st_blocks = st_blocks (rp_scan r) + ss_blocks s,
         st_sapling_received = st_sapling_received (rp_scan r) + ss_sapling_received s,
         st_orchard_received = st_orchard_received (rp_scan r) + ss_orchard_received s\<rparr>,
       scan_elapsed := scan_elapsed r + duration_sub scan_wall (interleaved_enhance_elapsed s),
       enhance_elapsed := enhance_elapsed r + interleaved_enhance_elapsed s,
       persist_wait_elapsed := persist_wait_elapsed r + persist_wait s,
       persist_busy_elapsed := persist_busy_elapsed r + persist_busy s,
       rp_scan_recv_wait := rp_scan_recv_wait r + recv_wait s,
       rp_scan_call := rp_scan_call r + scan_call s,
       rp_scan_prefetch_wait := rp_scan_prefetch_wait r + prefetch_wait s,
       rp_scan_interleave_drain := rp_scan_interleave_drain r + interleave_drain s,
       rp_scan_final_drain := rp_scan_final_drain r + final_drain s,
       rp_scan_absorb := rp_scan_absorb r + treestate_absorb s,
       rp_scan_state_prep := rp_scan_state_prep r + state_prep s,
       rp_scan_prefetch_spawn := rp_scan_prefetch_spawn r + prefetch_spawn s,
       rp_scan_submit_wait := rp_scan_submit_wait r + submit_wait s,
       rp_scan_submit_extra := rp_scan_submit_extra r + submit_extra s,
       rp_scan_reseed := rp_scan_reseed r + reseed s,
       rp_scan_pass1 := rp_scan_pass1 r + scan_pass1 s,
       rp_scan_pass2 := rp_scan_pass2 r + scan_pass2 s,
       census_sapling := census_merge (census_sapling r) (ss_census_sapling s),
       census_orchard := census_merge (census_orchard r) (ss_census_orchard s),
       rp_enhance := enhance_add (rp_enhance r) (interleaved_enhance s)\<rparr>"

text \<open>The enhancement run after a range: only its four counts are added.\<close>

definition report_add_enhance :: "sync_report \<Rightarrow> enhance_stats \<Rightarrow> sync_report" where
  "report_add_enhance r e =
     r\<lparr>rp_enhance := (rp_enhance r)\<lparr>es_requests := es_requests (rp_enhance r) + es_requests e,
         es_txs_stored := es_txs_stored (rp_enhance r) + es_txs_stored e,
         es_statuses_set := es_statuses_set (rp_enhance r) + es_statuses_set e,
         es_skipped := es_skipped (rp_enhance r) + es_skipped e\<rparr>\<rparr>"

end
