(* ===== verification/Slip_Handle.thy ===== *)
theory Slip_Handle
  imports Slip_Progress
begin

text \<open>
  The host-facing handle (\<open>src/core/src/ffi_handle.rs\<close>): the snapshot derived from the shared
  progress, the bounded event ring, the supervisor of the sync task, and the stops with their two
  bounded waits.  A wait polls: each poll is an argument, what it reads and whether the deadline
  has passed by then; a list of polls that ends too early is a wait still running.
\<close>

section \<open>Events\<close>

record ffi_event =
  ev_tag :: nat
  ev_value :: nat

definition EVENT_RING_CAP :: nat where "EVENT_RING_CAP = 64"

definition is_droppable :: "ffi_event \<Rightarrow> bool" where
  "is_droppable ev \<longleftrightarrow> ev_tag ev = 1 \<or> ev_tag ev = 2"

fun position_of :: "('a \<Rightarrow> bool) \<Rightarrow> 'a list \<Rightarrow> nat option" where
  "position_of P [] = None"
| "position_of P (x # xs) = (if P x then Some 0 else map_option Suc (position_of P xs))"

definition remove_at :: "nat \<Rightarrow> 'a list \<Rightarrow> 'a list" where
  "remove_at i xs = take i xs @ drop (Suc i) xs"

definition push_event_bounded :: "ffi_event list \<Rightarrow> ffi_event \<Rightarrow> ffi_event list" where
  "push_event_bounded ring e =
     (if length ring \<ge> EVENT_RING_CAP
      then (let droppable = position_of is_droppable ring
            in remove_at (case droppable of Some i \<Rightarrow> i | None \<Rightarrow> 0) ring @ [e])
      else ring @ [e])"

section \<open>State and supervision\<close>

datatype sync_state = Idle | Syncing | Error nat | Done

text \<open>What the supervisor's wait for the sync task returns.\<close>

datatype task_end = TaskOk | TaskCancelled | TaskPanicked string

definition supervised_end :: "task_end \<Rightarrow> sync_state \<times> ffi_event list \<Rightarrow> sync_state \<times> ffi_event list" where
  "supervised_end t s =
     (case t of
        TaskOk \<Rightarrow> s
      | TaskCancelled \<Rightarrow> s
      | TaskPanicked m \<Rightarrow> (Error 2, push_event_bounded (snd s) \<lparr>ev_tag = 4, ev_value = 2\<rparr>))"

section \<open>Stopping\<close>

record slipstream_handle =
  h_progress :: progress
  h_state :: sync_state
  h_events :: "ffi_event list"
  h_task :: "nat option"
  unfinished_passes :: "nat list"

text \<open>
  The loop of \<open>settle_passes\<close>.  A poll is which passes have finished, and whether the deadline has
  passed.
\<close>

fun settle_loop :: "nat list \<Rightarrow> ((nat \<Rightarrow> bool) \<times> bool) list \<Rightarrow> (bool \<times> nat list) option" where
  "settle_loop unfinished [] = None"
| "settle_loop unfinished ((finished, late) # polls) =
     (let left = filter (\<lambda>p. \<not> finished p) unfinished
      in if left = [] then Some (True, left)
         else if late then Some (False, left)
         else settle_loop left polls)"

definition settle_passes :: "nat option \<Rightarrow> nat list \<Rightarrow> ((nat \<Rightarrow> bool) \<times> bool) list \<Rightarrow> (bool \<times> nat list) option" where
  "settle_passes task unfinished polls =
     settle_loop (case task of Some p \<Rightarrow> unfinished @ [p] | None \<Rightarrow> unfinished) polls"

fun drain_wallet_writers :: "(progress \<times> bool) list \<Rightarrow> bool option" where
  "drain_wallet_writers [] = None"
| "drain_wallet_writers ((p, late) # polls) =
     (if wallet_writers p > 0 then (if late then Some False else drain_wallet_writers polls)
      else Some True)"

record stop_report =
  settled :: bool
  drained :: bool
  settle_wait :: nat
  drain_wait :: nat

definition quiescent :: "stop_report \<Rightarrow> bool" where
  "quiescent r \<longleftrightarrow> settled r \<and> drained r"

definition settle_then_drain :: "slipstream_handle \<Rightarrow> ((nat \<Rightarrow> bool) \<times> bool) list \<Rightarrow> (progress \<times> bool) list \<Rightarrow>
    nat \<Rightarrow> nat \<Rightarrow> (slipstream_handle \<times> stop_report) option" where
  "settle_then_drain h polls1 polls2 t1 t2 =
     (case settle_passes (h_task h) (unfinished_passes h) polls1 of
        None \<Rightarrow> None
      | Some (ok, left) \<Rightarrow>
          (case drain_wallet_writers polls2 of
             None \<Rightarrow> None
           | Some ok2 \<Rightarrow>
               Some (h\<lparr>h_task := None, unfinished_passes := left\<rparr>,
                     \<lparr>settled = ok, drained = ok2, settle_wait = t1, drain_wait = t2\<rparr>)))"

definition stop_and_report where
  "stop_and_report h polls1 polls2 t1 t2 =
     (case settle_then_drain h polls1 polls2 t1 t2 of
        None \<Rightarrow> None | Some (h', r) \<Rightarrow> Some (h'\<lparr>h_state := Idle\<rparr>, r))"

definition stop where "stop h polls1 polls2 t1 t2 = stop_and_report h polls1 polls2 t1 t2"

definition stop_for_wallet_change where
  "stop_for_wallet_change h fence polls1 polls2 t1 t2 =
     (let (p, fence') = request_stop_for_wallet_change (h_progress h, fence)
      in map_option (\<lambda>r. (r, fence')) (stop_and_report (h\<lparr>h_progress := p\<rparr>) polls1 polls2 t1 t2))"

definition quiesce_before_start where
  "quiesce_before_start h polls1 polls2 t1 t2 = settle_then_drain h polls1 polls2 t1 t2"

record ffi_stop_report =
  fr_settled :: nat
  fr_drained :: nat
  fr_settle_ms :: nat
  fr_drain_ms :: nat

definition ffi_stop_report_from :: "stop_report \<Rightarrow> ffi_stop_report" where
  "ffi_stop_report_from r =
     \<lparr>fr_settled = (if settled r then 1 else 0), fr_drained = (if drained r then 1 else 0),
      fr_settle_ms = min (settle_wait r) u64_max, fr_drain_ms = min (drain_wait r) u64_max\<rparr>"

section \<open>The snapshot\<close>

record ffi_snapshot =
  sn_chain_tip :: nat
  sn_fetched_blocks :: nat
  sn_scanned_blocks :: nat
  sn_enhanced_txs :: nat
  sn_current_range_end :: nat
  sn_state :: nat
  sn_pass_total_blocks :: nat
  sn_spendable_hint :: nat
  sn_ranges_completed :: nat
  sn_is_recovering :: nat
  sn_progress_permille :: nat
  sn_stalled_seconds :: nat
  sn_tx_set_version :: nat

definition state_u8 :: "sync_state \<Rightarrow> nat" where
  "state_u8 s = (case s of Idle \<Rightarrow> 0 | Syncing \<Rightarrow> 1 | Error _ \<Rightarrow> 2 | Done \<Rightarrow> 3)"

definition pass_permille :: "progress \<Rightarrow> nat" where
  "pass_permille p =
     (let total = pass_total_blocks p;
          fetched_capped = min (fetched_blocks p - pass_base_fetched p) total;
          scanned_capped = min (scanned_blocks p - pass_base_scanned p) total
      in case checked_div (saturating_mul64 (saturating_add64 fetched_capped scanned_capped) 1000)
                (saturating_mul64 total 2) of
           Some x \<Rightarrow> x | None \<Rightarrow> 0)"

definition raw_permille :: "progress \<Rightarrow> nat" where
  "raw_permille p =
     (case pass_start_permille p of
        Some start \<Rightarrow>
          (let start = min start 1000;
               climb = (case checked_div (saturating_mul64 (1000 - start) (pass_permille p)) 1000 of
                          Some x \<Rightarrow> x | None \<Rightarrow> 0)
           in saturating_add64 start climb)
      | None \<Rightarrow> pass_permille p)"

definition derive_snapshot :: "nat \<Rightarrow> progress \<Rightarrow> sync_state \<Rightarrow> progress \<times> ffi_snapshot" where
  "derive_snapshot now p st =
     (let (p', permille) = permille_floor (case st of Done \<Rightarrow> 1000 | _ \<Rightarrow> raw_permille p) p;
          is_recovering = (case st of Done \<Rightarrow> 0 | Error _ \<Rightarrow> 0 | _ \<Rightarrow> if recovering p' then 1 else 0);
          stalled = (case st of Syncing \<Rightarrow> to_u32_or_max (stall_secs now p') | _ \<Rightarrow> 0)
      in (p', \<lparr>sn_chain_tip = chain_tip p', sn_fetched_blocks = fetched_blocks p',
               sn_scanned_blocks = scanned_blocks p', sn_enhanced_txs = enhanced_txs p',
               sn_current_range_end = current_range_end p', sn_state = state_u8 st,
               sn_pass_total_blocks = pass_total_blocks p', sn_spendable_hint = spendable_hint p' mod 256,
               sn_ranges_completed = ranges_completed p', sn_is_recovering = is_recovering,
               sn_progress_permille = permille mod 65536, sn_stalled_seconds = stalled,
               sn_tx_set_version = tx_set_version p'\<rparr>))"

definition handle_push_event :: "slipstream_handle \<Rightarrow> ffi_event \<Rightarrow> slipstream_handle" where
  "handle_push_event h e = h\<lparr>h_events := push_event_bounded (h_events h) e\<rparr>"

definition handle_snapshot :: "nat \<Rightarrow> slipstream_handle \<Rightarrow> slipstream_handle \<times> ffi_snapshot" where
  "handle_snapshot now h =
     (let (p, s) = derive_snapshot now (h_progress h) (h_state h) in (h\<lparr>h_progress := p\<rparr>, s))"

section \<open>The event ring\<close>

lemma position_of_Some:
  "position_of P xs = Some i \<Longrightarrow> i < length xs \<and> P (xs ! i)"
  by (induction xs arbitrary: i) (auto split: if_splits)

lemma position_of_None: "position_of P xs = None \<longleftrightarrow> (\<forall>x \<in> set xs. \<not> P x)"
  by (induction xs) auto

lemma filter_remove_at: "i < length xs \<Longrightarrow> \<not> P (xs ! i) \<Longrightarrow> filter P (remove_at i xs) = filter P xs"
  using id_take_nth_drop [of i xs] unfolding remove_at_def
  by (metis (no_types, lifting) filter.simps(2) filter_append)

lemma length_remove_at: "i < length xs \<Longrightarrow> Suc (length (remove_at i xs)) = length xs"
  by (simp add: remove_at_def)

abbreviation critical :: "ffi_event \<Rightarrow> bool" where "critical ev \<equiv> \<not> is_droppable ev"

lemma push_keeps_critical:
  assumes "length (filter critical ring) < EVENT_RING_CAP"
  shows "filter critical (push_event_bounded ring e) = filter critical (ring @ [e])"
proof (cases "length ring \<ge> EVENT_RING_CAP")
  case True
  have "filter critical ring \<noteq> ring" using True assms by force
  then obtain i where i: "position_of is_droppable ring = Some i"
    using position_of_None [of is_droppable ring] by (metis filter_id_conv not_None_eq)
  then have "filter critical (remove_at i ring) = filter critical ring"
    using position_of_Some [OF i] by (intro filter_remove_at) auto
  then show ?thesis using True i by (simp add: push_event_bounded_def)
qed (simp add: push_event_bounded_def)

lemma push_length:
  "length ring \<le> EVENT_RING_CAP \<Longrightarrow> length (push_event_bounded ring e) \<le> EVENT_RING_CAP"
proof (cases "length ring \<ge> EVENT_RING_CAP")
  case True
  assume "length ring \<le> EVENT_RING_CAP"
  let ?i = "case position_of is_droppable ring of Some i \<Rightarrow> i | None \<Rightarrow> 0"
  have "?i < length ring"
    using True position_of_Some [of is_droppable ring] by (auto simp: EVENT_RING_CAP_def split: option.splits)
  then show ?thesis
    using length_remove_at [of ?i ring] True \<open>length ring \<le> EVENT_RING_CAP\<close>
    by (simp add: push_event_bounded_def Let_def)
qed (simp add: push_event_bounded_def)

lemma push_all_keeps:
  "length (filter critical ring) + length (filter critical es) \<le> EVENT_RING_CAP - 1 \<Longrightarrow>
   length ring \<le> EVENT_RING_CAP \<Longrightarrow>
   filter critical (foldl push_event_bounded ring es) = filter critical ring @ filter critical es \<and>
   length (foldl push_event_bounded ring es) \<le> EVENT_RING_CAP"
proof (induction es arbitrary: ring)
  case (Cons e es)
  have "filter critical (push_event_bounded ring e) = filter critical (ring @ [e])"
    using Cons.prems(1) by (intro push_keeps_critical) (auto simp: EVENT_RING_CAP_def)
  then show ?case
    using Cons.IH [of "push_event_bounded ring e"] Cons.prems push_length [OF Cons.prems(2)]
    by (auto split: if_splits)
qed simp



text \<open>
  At the 64th the guarantee ends, also against a pacing event: a ring full of edge signals gives
  its oldest one up for an incoming event that could itself have been dropped.
\<close>

lemma full_ring_loses_critical:
  assumes "length ring = EVENT_RING_CAP" and "\<forall>ev \<in> set ring. critical ev"
  shows "push_event_bounded ring e = tl ring @ [e]"
proof -
  have "position_of is_droppable ring = None" using assms(2) by (simp add: position_of_None)
  then show ?thesis
    using assms(1) by (cases ring) (simp_all add: push_event_bounded_def remove_at_def EVENT_RING_CAP_def)
qed

section \<open>The snapshot\<close>

lemma pass_permille_le: "pass_permille p \<le> 1000"
proof -
  define t f s where "t = pass_total_blocks p" and "f = min (fetched_blocks p - pass_base_fetched p) t"
    and "s = min (scanned_blocks p - pass_base_scanned p) t"
  define num den where "num = saturating_mul64 (saturating_add64 f s) 1000" and "den = saturating_mul64 t 2"
  have "num \<le> 1000 * den"
  proof (cases "t * 2 \<le> u64_max")
    case True
    then have "den = t * 2" by (simp add: den_def saturating_mul64_def)
    moreover have "num \<le> (f + s) * 1000"
    proof -
      have "num \<le> saturating_add64 f s * 1000" by (simp add: num_def saturating_mul64_def)
      also have "\<dots> \<le> (f + s) * 1000"
        by (rule mult_le_mono1) (simp add: saturating_add64_def)
      finally show ?thesis .
    qed
    moreover have "f \<le> t" "s \<le> t" by (simp_all add: f_def s_def)
    ultimately show ?thesis by simp
  next
    case False
    then have "den = u64_max" by (simp add: den_def saturating_mul64_def)
    moreover have "num \<le> u64_max" by (simp add: num_def u_arith)
    ultimately show ?thesis by simp
  qed
  then have "num div den \<le> 1000"
    by (metis div_le_mono div_mult_self_is_m div_by_0 gr_zeroI mult.commute zero_le)
  then show ?thesis
    by (simp add: pass_permille_def t_def [symmetric] f_def [symmetric] s_def [symmetric]
        num_def [symmetric] den_def [symmetric] checked_div_def Let_def)
qed

lemma raw_permille_le: "floor_ok p \<Longrightarrow> raw_permille p \<le> 1000"
proof (cases "pass_start_permille p")
  case None
  then show ?thesis by (simp add: raw_permille_def pass_permille_le)
next
  case (Some start)
  define st where "st = min start 1000"
  have "saturating_mul64 (1000 - st) (pass_permille p) \<le> (1000 - st) * pass_permille p"
    by (simp add: saturating_mul64_def)
  also have "\<dots> \<le> (1000 - st) * 1000" using pass_permille_le by (rule mult_le_mono2)
  finally have "saturating_mul64 (1000 - st) (pass_permille p) div 1000 \<le> (1000 - st) * 1000 div 1000"
    by (rule div_le_mono)
  then have "saturating_mul64 (1000 - st) (pass_permille p) div 1000 \<le> 1000 - st" by simp
  moreover have "st \<le> 1000" by (simp add: st_def)
  ultimately show ?thesis
    using Some by (simp add: raw_permille_def Let_def st_def [symmetric] checked_div_def saturating_add64_def)
qed

lemma snapshot_floor:
  assumes "floor_ok p"
  shows "progress_permille_floor (fst (derive_snapshot now p st)) =
      max (progress_permille_floor p) (case st of Done \<Rightarrow> 1000 | _ \<Rightarrow> raw_permille p)"
    and "sn_progress_permille (snd (derive_snapshot now p st)) =
      progress_permille_floor (fst (derive_snapshot now p st))"
    and "floor_ok (fst (derive_snapshot now p st))"
  using assms raw_permille_le [OF assms]
  by (auto simp: derive_snapshot_def permille_floor_def Let_def floor_ok_def min_def max_def
      split: sync_state.splits)

text \<open>
  Reported progress never goes backwards.  Between two polls of the host let anything happen
  to the progress object short of a re-baseline for an expanded scan scope: passes starting and
  finishing, counters reset and wrapped, retries counting blocks twice, sessions restarting.  The
  second poll reports at least the permille of the first, never more than 1000, and exactly 1000
  once the state is Done.
\<close>

theorem reported_progress_monotone:
  assumes "floor_ok p" and "\<forall>seed. CRebaseline seed \<notin> set cs"
  shows "let (p1, first) = derive_snapshot t1 p st1;
             (p2, fence') = run_calls cs (p1, fence);
             (p3, second) = derive_snapshot t2 p2 st2
         in sn_progress_permille first \<le> sn_progress_permille second \<and>
            sn_progress_permille second \<le> 1000 \<and>
            (st2 = Done \<longrightarrow> sn_progress_permille second = 1000)"
proof -
  define p1 where "p1 = fst (derive_snapshot t1 p st1)"
  define p2 where "p2 = fst (run_calls cs (p1, fence))"
  have ok1: "floor_ok p1" using snapshot_floor(3) [OF assms(1)] by (simp add: p1_def)
  then have ok2: "floor_ok p2" using floor_ok_run [of "(p1, fence)" cs] by (simp add: p2_def)
  have mono: "progress_permille_floor p1 \<le> progress_permille_floor p2"
    using floor_mono_run [of cs "(p1, fence)"] assms(2) by (simp add: p2_def)
  have "sn_progress_permille (snd (derive_snapshot t1 p st1)) = progress_permille_floor p1"
    using snapshot_floor(2) [OF assms(1)] by (simp add: p1_def)
  moreover have "progress_permille_floor p2 \<le> sn_progress_permille (snd (derive_snapshot t2 p2 st2)) \<and>
      sn_progress_permille (snd (derive_snapshot t2 p2 st2)) \<le> 1000 \<and>
      (st2 = Done \<longrightarrow> sn_progress_permille (snd (derive_snapshot t2 p2 st2)) = 1000)"
    using snapshot_floor [OF ok2, of t2 st2] ok2 by (auto simp: floor_ok_def)
  ultimately show ?thesis
    using mono by (simp add: Let_def split_beta p1_def [symmetric] p2_def [symmetric])
qed

definition demo_pass :: progress where
  "demo_pass = progress_default\<lparr>pass_total_blocks := 100, fetched_blocks := 60, scanned_blocks := 40,
     pass_start := 200\<rparr>"

theorem reported_progress_monotone_witness:
  "sn_progress_permille (snd (derive_snapshot 1 demo_pass Syncing)) = 600 \<and>
   600 \<le> sn_progress_permille (snd (derive_snapshot 2
     (fst (run_calls [CBeginPass 5] (fst (derive_snapshot 1 demo_pass Syncing), fence_new))) Syncing))"
proof -
  have "floor_ok demo_pass" by (simp add: floor_ok_def demo_pass_def progress_default_def)
  moreover have "sn_progress_permille (snd (derive_snapshot 1 demo_pass Syncing)) = 600"
    by (simp add: derive_snapshot_def permille_floor_def demo_pass_def progress_default_def raw_permille_def
        pass_start_permille_def u64_max_def pass_permille_def u_arith Let_def)
  ultimately show ?thesis
    using reported_progress_monotone [of demo_pass "[CBeginPass 5]" 1 Syncing fence_new 2 Syncing]
    by (simp add: Let_def split_beta)
qed

section \<open>What a quiescent stop proves\<close>

text \<open>
  The engine a stop watches: the passes still running, and the detached wallet commits in flight.
  A running pass may hand off a commit (taking the writer gate first); a commit ends (dropping its
  gate, also on a panic); a pass finishes; and anything else may happen to the progress object.
  Passes start only through the host.
\<close>

record world =
  w_running :: "nat list"
  w_commits :: nat
  w_progress :: progress

inductive world_step :: "world \<Rightarrow> world \<Rightarrow> bool" where
  ws_submit: "p \<in> set (w_running w) \<Longrightarrow> w_commits w < u64_max \<Longrightarrow>
    world_step w (w\<lparr>w_progress := gate_hold (w_progress w), w_commits := w_commits w + 1\<rparr>)"
| ws_commit_ends: "w_commits w = Suc n \<Longrightarrow>
    world_step w (w\<lparr>w_progress := gate_drop (w_progress w), w_commits := n\<rparr>)"
| ws_pass_ends: "world_step w (w\<lparr>w_running := removeAll p (w_running w)\<rparr>)"
| ws_progress: "c \<noteq> CHold \<Longrightarrow> c \<noteq> CDrop \<Longrightarrow>
    world_step w (w\<lparr>w_progress := fst (apply_call c (w_progress w, f))\<rparr>)"

definition gates_count :: "world \<Rightarrow> bool" where
  "gates_count w \<longleftrightarrow> wallet_writers (w_progress w) = w_commits w \<and> w_commits w \<le> u64_max"

lemma other_calls_keep_writers:
  "c \<noteq> CHold \<Longrightarrow> c \<noteq> CDrop \<Longrightarrow> wallet_writers (fst (apply_call c (p, f))) = wallet_writers p"
  by (cases c) (auto simp: progress_defs note_download_gave_up_at_def note_blocks_released_def Let_def)

lemma world_step_inv:
  "world_step w w' \<Longrightarrow> gates_count w \<Longrightarrow>
     gates_count w' \<and> set (w_running w') \<subseteq> set (w_running w) \<and>
     (w_running w = [] \<longrightarrow> w_commits w' \<le> w_commits w)"
  by (induction rule: world_step.induct)
    (auto simp: gates_count_def gate_hold_def gate_drop_def wrapping_add64_small wrapping_sub64_Suc
      other_calls_keep_writers)

lemma world_run_inv:
  "world_step\<^sup>*\<^sup>* w w' \<Longrightarrow> gates_count w \<Longrightarrow>
     gates_count w' \<and> set (w_running w') \<subseteq> set (w_running w) \<and>
     (w_running w = [] \<longrightarrow> w_commits w' \<le> w_commits w)"
proof (induction rule: rtranclp_induct)
  case (step w1 w2)
  then have "gates_count w1" "set (w_running w1) \<subseteq> set (w_running w)" by auto
  with world_step_inv [OF step.hyps(2)] step show ?case by fastforce
qed simp

text \<open>The polls of a wait see the engine at successive moments.\<close>

fun watched :: "world \<Rightarrow> (world \<times> bool) list \<Rightarrow> bool" where
  "watched w [] = True"
| "watched w ((w', late) # polls) = (world_step\<^sup>*\<^sup>* w w' \<and> watched w' polls)"

definition last_seen :: "world \<Rightarrow> (world \<times> bool) list \<Rightarrow> world" where
  "last_seen w polls = (if polls = [] then w else fst (last polls))"

lemma watched_append: "watched w (xs @ ys) \<longleftrightarrow> watched w xs \<and> watched (last_seen w xs) ys"
  by (induction w xs rule: watched.induct) (auto simp: last_seen_def)

lemma watched_run: "watched w polls \<Longrightarrow> world_step\<^sup>*\<^sup>* w (last_seen w polls)"
  by (induction w polls rule: watched.induct) (auto simp: last_seen_def intro: rtranclp_trans)

definition pass_polls :: "(world \<times> bool) list \<Rightarrow> ((nat \<Rightarrow> bool) \<times> bool) list" where
  "pass_polls = map (\<lambda>(w, late). (\<lambda>p. p \<notin> set (w_running w), late))"

definition writer_polls :: "(world \<times> bool) list \<Rightarrow> (progress \<times> bool) list" where
  "writer_polls = map (\<lambda>(w, late). (w_progress w, late))"

lemma settle_pass_polls:
  "settle_loop unf (pass_polls ((w, late) # polls)) =
     (if filter (\<lambda>p. p \<in> set (w_running w)) unf = [] then Some (True, filter (\<lambda>p. p \<in> set (w_running w)) unf)
      else if late then Some (False, filter (\<lambda>p. p \<in> set (w_running w)) unf)
      else settle_loop (filter (\<lambda>p. p \<in> set (w_running w)) unf) (pass_polls polls))"
  by (simp add: pass_polls_def Let_def case_prod_unfold)

lemma settle_loop_record:
  assumes "settle_loop unf (pass_polls polls) = Some (ok, left)" and "watched w polls"
    and "gates_count w" and "set (w_running w) \<subseteq> set unf"
  shows "set (w_running (last_seen w polls)) \<subseteq> set left \<and> (ok \<longrightarrow> left = [])"
  using assms
proof (induction polls arbitrary: unf w)
  case (Cons poll polls)
  obtain w1 late where poll: "poll = (w1, late)" by (cases poll)
  have step: "world_step\<^sup>*\<^sup>* w w1" and rest: "watched w1 polls" using Cons.prems(2) poll by auto
  have inv: "gates_count w1" "set (w_running w1) \<subseteq> set (w_running w)"
    using world_run_inv [OF step Cons.prems(3)] by simp_all
  have later: "set (w_running (last_seen w1 polls)) \<subseteq> set (w_running w1)"
    using world_run_inv [OF watched_run [OF rest] inv(1)] by simp
  define left1 where "left1 = filter (\<lambda>p. p \<in> set (w_running w1)) unf"
  have sub: "set (w_running w1) \<subseteq> set left1" using inv(2) Cons.prems(4) by (auto simp: left1_def)
  have last: "last_seen w (poll # polls) = last_seen w1 polls" by (simp add: poll last_seen_def)
  have run: "(if left1 = [] then Some (True, left1) else if late then Some (False, left1)
      else settle_loop left1 (pass_polls polls)) = Some (ok, left)"
    using Cons.prems(1) unfolding poll settle_pass_polls left1_def .
  show ?case
  proof (cases "left1 = [] \<or> late")
    case True
    then have "left = left1 \<and> (ok \<longrightarrow> left = [])" using run by (auto split: if_splits)
    then show ?thesis using sub later unfolding last by blast
  next
    case False
    then have "settle_loop left1 (pass_polls polls) = Some (ok, left)" using run by simp
    then show ?thesis using Cons.IH [OF _ rest inv(1) sub] unfolding last by blast
  qed
qed (simp add: pass_polls_def)

lemma drain_proves:
  assumes "drain_wallet_writers (writer_polls polls) = Some True" and "watched w polls"
    and "gates_count w" and "w_running w = []"
  shows "w_commits (last_seen w polls) = 0"
  using assms
proof (induction polls arbitrary: w)
  case (Cons poll polls)
  obtain w1 late where poll: "poll = (w1, late)" by (cases poll)
  have step: "world_step\<^sup>*\<^sup>* w w1" and rest: "watched w1 polls" using Cons.prems(2) poll by auto
  have inv: "gates_count w1" "w_running w1 = []" using world_run_inv [OF step Cons.prems(3)] Cons.prems(4) by auto
  have last: "last_seen w (poll # polls) = last_seen w1 polls" by (simp add: poll last_seen_def)
  show ?case
  proof (cases "wallet_writers (w_progress w1) > 0")
    case True
    then have "drain_wallet_writers (writer_polls polls) = Some True"
      using Cons.prems(1) by (auto simp: poll writer_polls_def split: if_splits)
    then show ?thesis using Cons.IH [OF _ rest inv] unfolding last by simp
  next
    case False
    then have "w_commits w1 = 0" using inv(1) by (simp add: gates_count_def)
    then show ?thesis using world_run_inv [OF watched_run [OF rest] inv(1)] inv(2) unfolding last by simp
  qed
qed (simp add: writer_polls_def)

text \<open>
  C2.  A stop reports quiescence only when the wallet file is really quiescent.  Let the handle
  have every running pass on record when the stop begins, and let passes and detached commits run
  on concurrently while the two waits poll.  Whatever the outcome, every pass still running
  afterwards stays on record, so no later stop can overlook it.  If the report says quiescent, no
  pass is running and no wallet commit is in flight, and that stays so until the host starts a new
  pass.
\<close>

theorem quiescent_stop_is_sound:
  assumes "settle_then_drain h (pass_polls polls1) (writer_polls polls2) t1 t2 = Some (h', r)"
    and "watched w0 (polls1 @ polls2)" and "gates_count w0"
    and "set (w_running w0) \<subseteq> set (unfinished_passes h) \<union> set_option (h_task h)"
    and "world_step\<^sup>*\<^sup>* (last_seen w0 (polls1 @ polls2)) w"
  shows "set (w_running w) \<subseteq> set (unfinished_passes h') \<and> h_task h' = None \<and>
    (quiescent r \<longrightarrow> w_running w = [] \<and> w_commits w = 0)"
proof -
  obtain ok left ok2 where st: "settle_passes (h_task h) (unfinished_passes h) (pass_polls polls1) = Some (ok, left)"
    and dr: "drain_wallet_writers (writer_polls polls2) = Some ok2"
    and eq: "h\<lparr>h_task := None, unfinished_passes := left\<rparr> = h'"
      "\<lparr>settled = ok, drained = ok2, settle_wait = t1, drain_wait = t2\<rparr> = r"
    using assms(1) unfolding settle_then_drain_def
    by (simp split: option.splits prod.splits)
  have h': "unfinished_passes h' = left" "h_task h' = None" using eq(1) by auto
  have r: "quiescent r \<longleftrightarrow> ok \<and> ok2" using eq(2) by (auto simp: quiescent_def)
  let ?w1 = "last_seen w0 polls1" and ?w2 = "last_seen w0 (polls1 @ polls2)"
  have wat: "watched w0 polls1" "watched ?w1 polls2" using assms(2) by (simp_all add: watched_append)
  have w2: "?w2 = last_seen ?w1 polls2" by (simp add: last_seen_def)
  have "set (w_running w0) \<subseteq> set (case h_task h of Some p \<Rightarrow> unfinished_passes h @ [p] | None \<Rightarrow> unfinished_passes h)"
    using assms(4) by (auto split: option.splits)
  from settle_loop_record [OF st [unfolded settle_passes_def] wat(1) assms(3) this]
  have rec: "set (w_running ?w1) \<subseteq> set left" "ok \<longrightarrow> left = []" by auto
  have g1: "gates_count ?w1" using world_run_inv [OF watched_run [OF wat(1)] assms(3)] by blast
  have inv2: "gates_count ?w2" "set (w_running ?w2) \<subseteq> set (w_running ?w1)"
    using world_run_inv [OF watched_run [OF wat(2)] g1] unfolding w2 by simp_all
  have inv3: "set (w_running w) \<subseteq> set (w_running ?w2)" "w_running ?w2 = [] \<longrightarrow> w_commits w \<le> w_commits ?w2"
    using world_run_inv [OF assms(5) inv2(1)] by simp_all
  have "w_running w = [] \<and> w_commits w = 0" if "ok" "ok2"
  proof -
    have e1: "w_running ?w1 = []" using rec that by simp
    have "w_commits ?w2 = 0" using drain_proves [OF _ wat(2) g1 e1] dr that(2) unfolding w2 by simp
    moreover have "w_running ?w2 = []" using inv2(2) e1 by simp
    ultimately show ?thesis using inv3 by simp
  qed
  moreover have "set (w_running w) \<subseteq> set left" using rec(1) inv2(2) inv3(1) by blast
  ultimately show ?thesis using h' r by simp
qed

text \<open>A pass with one commit in flight: the pass is seen to finish, then the commit.\<close>

definition busy_world :: world where
  "busy_world = \<lparr>w_running = [7], w_commits = 1, w_progress = gate_hold progress_default\<rparr>"

definition settled_world :: world where
  "settled_world = busy_world\<lparr>w_running := []\<rparr>"

definition quiet_world :: world where
  "quiet_world = settled_world\<lparr>w_progress := gate_drop (w_progress settled_world), w_commits := 0\<rparr>"

definition busy_handle :: slipstream_handle where
  "busy_handle = \<lparr>h_progress = progress_default, h_state = Syncing, h_events = [], h_task = Some 7,
     unfinished_passes = []\<rparr>"

lemma busy_steps: "world_step busy_world settled_world" "world_step settled_world quiet_world"
proof -
  have "world_step busy_world (busy_world\<lparr>w_running := removeAll 7 (w_running busy_world)\<rparr>)"
    by (rule ws_pass_ends)
  then show "world_step busy_world settled_world" by (simp add: settled_world_def busy_world_def)
  have "w_commits settled_world = Suc 0" by (simp add: settled_world_def busy_world_def)
  then show "world_step settled_world quiet_world" unfolding quiet_world_def by (rule ws_commit_ends)
qed

theorem quiescent_stop_is_sound_witness:
  "settle_then_drain busy_handle (pass_polls [(busy_world, False), (settled_world, False)])
     (writer_polls [(settled_world, False), (quiet_world, False)]) 20 10 =
     Some (busy_handle\<lparr>h_task := None\<rparr>,
           \<lparr>settled = True, drained = True, settle_wait = 20, drain_wait = 10\<rparr>) \<and>
   w_running quiet_world = [] \<and> w_commits quiet_world = 0"
proof -
  let ?p1 = "[(busy_world, False), (settled_world, False)]"
  let ?p2 = "[(settled_world, False), (quiet_world, False)]"
  let ?r = "\<lparr>settled = True, drained = True, settle_wait = 20, drain_wait = 10\<rparr>"
  have run: "settle_then_drain busy_handle (pass_polls ?p1) (writer_polls ?p2) 20 10 =
      Some (busy_handle\<lparr>h_task := None\<rparr>, ?r)"
    by (simp add: settle_then_drain_def settle_passes_def pass_polls_def writer_polls_def busy_handle_def
        busy_world_def settled_world_def quiet_world_def gate_hold_def gate_drop_def progress_default_def
        wrapping_add64_def wrapping_sub64_def u64_max_def)
  have wat: "watched busy_world (?p1 @ ?p2)" using busy_steps by (auto intro: r_into_rtranclp)
  have g: "gates_count busy_world"
    by (simp add: gates_count_def busy_world_def gate_hold_def progress_default_def wrapping_add64_def u64_max_def)
  have sub: "set (w_running busy_world) \<subseteq> set (unfinished_passes busy_handle) \<union> set_option (h_task busy_handle)"
    by (simp add: busy_world_def busy_handle_def)
  have "world_step\<^sup>*\<^sup>* (last_seen busy_world (?p1 @ ?p2)) quiet_world" by (simp add: last_seen_def)
  from quiescent_stop_is_sound [OF run wat g sub this] run show ?thesis by (simp add: quiescent_def)
qed

end
