(* ===== verification/Slip_Scheduler.thy ===== *)
theory Slip_Scheduler
  imports Slip_Stats Slip_Handle Slip_Config
begin

text \<open>
  The pass scheduler (\<open>src/core/src/scheduler.rs\<close>): the wallet suggests ranges, each is fetched and
  scanned, a continuity break rewinds the wallet, and the progress of the pass is kept.

  The wallet is a database another crate manages; it enters as the record \<open>wallet_ops\<close> of the calls
  the scheduler makes on it.  What fetching, scanning and enhancing a range do (to the wallet and to
  the shared progress) and return is one input per turn of the loop.
\<close>

section \<open>Progress bookkeeping of a suggest round\<close>

definition MAX_CONSECUTIVE_REORGS :: nat where "MAX_CONSECUTIVE_REORGS = 5"

definition reorg_backoff_ms :: "nat \<Rightarrow> nat" where
  "reorg_backoff_ms consecutive = min (saturating_mul64 consecutive 500) 3000"

definition global_floor_permille :: "nat \<Rightarrow> nat option \<Rightarrow> nat \<Rightarrow> nat option" where
  "global_floor_permille tip birthday remaining =
     (case birthday of
        None \<Rightarrow> None
      | Some b \<Rightarrow>
          if tip = 0 \<or> tip < b then None
          else (let span = tip - b + 1; scanned = span - remaining
                in Some (saturating_mul64 scanned 1000 div span)))"

text \<open>
  The stores of one round in the order the code makes them.  \<open>so_far\<close> is the pass's tally; the
  result also says whether the floor was re-baselined.
\<close>

definition round_opening :: "nat \<Rightarrow> nat \<Rightarrow> progress \<Rightarrow> progress" where
  "round_opening so_far remaining p =
     set_pass_total (so_far + remaining)
       (set_pass_baseline (fetched_blocks p - so_far) (scanned_blocks p - so_far) p)"

definition rebaseline_stores :: "nat \<Rightarrow> nat \<Rightarrow> progress \<Rightarrow> progress" where
  "rebaseline_stores seed remaining p =
     set_pass_start_permille seed
       (set_pass_total remaining (set_pass_baseline (fetched_blocks p) (scanned_blocks p) p))"

definition update_pass_progress :: "progress \<Rightarrow> nat \<Rightarrow> nat \<Rightarrow> nat option \<Rightarrow> progress \<times> nat \<times> bool" where
  "update_pass_progress p so_far remaining birthday =
     (let p1 = round_opening so_far remaining p
      in case global_floor_permille (chain_tip p1) birthday remaining of
           None \<Rightarrow> (p1, so_far, False)
         | Some seed \<Rightarrow>
             if scope_expanded seed p1
             then (let (p2, done') = rebaseline_floor_if_scope_expanded seed (rebaseline_stores seed remaining p1)
                   in (p2, 0, done'))
             else (fst (permille_floor seed (set_pass_start_permille_if_unset seed p1)), so_far, False))"

definition scan_continuity_repair_credit :: "nat \<Rightarrow> nat \<Rightarrow> nat \<Rightarrow> nat" where
  "scan_continuity_repair_credit start end_exclusive rewind_height =
     min (rewind_height - start) (end_exclusive - start)"

section \<open>The wallet as the scheduler sees it\<close>

datatype scan_priority = Ignored | Scanned | Historic | OpenAdjacent | FoundNote | ChainTip | Verify

record scan_range =
  sr_start :: nat
  sr_end :: nat
  sr_priority :: scan_priority

text \<open>
  \<open>wo_suggest\<close> may fail; the reads that only feed presentation state degrade to \<^term>\<open>None\<close>.
\<close>

record 'w wallet_ops =
  wo_suggest :: "'w \<Rightarrow> slipstream_error + scan_range list"
  wo_min_birthday :: "'w \<Rightarrow> slipstream_error + nat option"
  wo_recover_until :: "'w \<Rightarrow> slipstream_error + nat option"
  wo_chain_height :: "'w \<Rightarrow> slipstream_error + nat option"
  wo_tx_signature :: "'w \<Rightarrow> (nat \<times> nat) option"
  wo_truncate :: "nat \<Rightarrow> 'w \<Rightarrow> 'w \<times> (slipstream_error + unit)"

definition or_default :: "slipstream_error + 'a option \<Rightarrow> 'a option" where
  "or_default r = (case r of Inl _ \<Rightarrow> None | Inr v \<Rightarrow> v)"

definition sum_ranges :: "scan_range list \<Rightarrow> nat" where
  "sum_ranges rs = sum_list (map (\<lambda>r. sr_end r - sr_start r) rs)"

definition is_recovering_from :: "nat option \<Rightarrow> scan_range list \<Rightarrow> bool" where
  "is_recovering_from until rs \<longleftrightarrow>
     (case until of None \<Rightarrow> False | Some ru \<Rightarrow> (\<exists>r \<in> set rs. sr_start r < ru))"

definition seed_progress_from_wallet ::
  "'w wallet_ops \<Rightarrow> 'w \<Rightarrow> progress \<Rightarrow> progress \<times> (slipstream_error + unit)" where
  "seed_progress_from_wallet ops w p =
     (case wo_min_birthday ops w of
        Inl e \<Rightarrow> (p, Inl e)
      | Inr None \<Rightarrow> (p, Inr ())
      | Inr (Some birthday) \<Rightarrow>
          (case wo_suggest ops w of
             Inl e \<Rightarrow> (p, Inl e)
           | Inr ranges \<Rightarrow>
               (case wo_recover_until ops w of
                  Inl e \<Rightarrow> (p, Inl e)
                | Inr until \<Rightarrow>
                    (let p1 = set_recovering (is_recovering_from until ranges) p;
                         recent_pending = (\<exists>r \<in> set ranges. sr_priority r = ChainTip \<or> sr_priority r = Verify);
                         p2 = (if recent_pending then p1 else set_spendable p1)
                     in case wo_chain_height ops w of
                          Inl e \<Rightarrow> (p2, Inl e)
                        | Inr h \<Rightarrow>
                            (let tip = (case h of Some t \<Rightarrow> t | None \<Rightarrow> 0);
                                 p3 = (if tip \<noteq> 0 then set_chain_tip tip p2 else p2)
                             in case global_floor_permille tip (Some birthday) (sum_ranges ranges) of
                                  Some seed \<Rightarrow> (fst (permille_floor seed p3), Inr ())
                                | None \<Rightarrow> (p3, Inr ()))))))"

section \<open>The loop\<close>

record 'w pass_state =
  ps_wallet :: 'w
  ps_progress :: "progress option"
  ps_report :: sync_report
  ps_consecutive :: nat
  ps_so_far :: nat
  ps_last_sig :: "(nat \<times> nat) option"

text \<open>
  A turn: fetching and scanning the range change the wallet and the progress and return their
  results (the fetch task may instead have panicked) and the scan's wall time; the enhancement run
  after the range does the same; and the clock when the range is counted.
\<close>

record 'w turn =
  tn_run :: "scan_range \<Rightarrow> 'w \<times> progress option \<Rightarrow> ('w \<times> progress option) \<times>
     (slipstream_error + scan_stats) \<times> (string + (slipstream_error + fetch_stats)) \<times> rat"
  tn_enhance :: "'w \<times> progress option \<Rightarrow> ('w \<times> progress option) \<times> (slipstream_error + enhance_stats) \<times> rat"
  tn_now :: nat

text \<open>The suggest round: the range to process, or \<^term>\<open>None\<close> when the queue is empty.\<close>

definition suggest_round :: "'w wallet_ops \<Rightarrow> nat option \<Rightarrow> 'w pass_state \<Rightarrow>
    'w pass_state \<times> (slipstream_error + scan_range option)" where
  "suggest_round ops until st =
     (case wo_suggest ops (ps_wallet st) of
        Inl e \<Rightarrow> (st, Inl e)
      | Inr ranges \<Rightarrow>
          (let st1 = st\<lparr>ps_progress := map_option (set_recovering (is_recovering_from until ranges)) (ps_progress st)\<rparr>
           in case ranges of
                [] \<Rightarrow> (st1, Inr None)
              | rg # _ \<Rightarrow>
                  (let st2 = (case ps_progress st1 of
                                None \<Rightarrow> st1
                              | Some p \<Rightarrow>
                                  (let (p', so_far, _) = update_pass_progress p (ps_so_far st1) (sum_ranges ranges)
                                         (or_default (wo_min_birthday ops (ps_wallet st1)))
                                   in st1\<lparr>ps_progress := Some p', ps_so_far := so_far\<rparr>))
                   in if sr_end rg \<le> sr_start rg
                      then (st2, Inl (Wallet (''degenerate scan range: start='' @ nat_str (sr_start rg) @
                              '' end_exclusive='' @ nat_str (sr_end rg))))
                      else (st2\<lparr>ps_progress := map_option (set_range_end (sr_end rg - 1)) (ps_progress st2)\<rparr>,
                            Inr (Some rg)))))"

text \<open>The rewind after a continuity break at \<open>at'\<close>.\<close>

definition recover_reorg :: "'w wallet_ops \<Rightarrow> scan_range \<Rightarrow> nat \<Rightarrow> 'w pass_state \<Rightarrow>
    'w pass_state \<times> (slipstream_error + unit)" where
  "recover_reorg ops rg at' st =
     (let n = ps_consecutive st + 1; st1 = st\<lparr>ps_consecutive := n\<rparr>
      in if n > MAX_CONSECUTIVE_REORGS then (st1, Inl (ScanContinuity at'))
         else (let rewind_height = at' - 10
               in case wo_truncate ops rewind_height (ps_wallet st1) of
                    (w, Inl e) \<Rightarrow> (st1\<lparr>ps_wallet := w\<rparr>, Inl e)
                  | (w, Inr _) \<Rightarrow>
                      (st1\<lparr>ps_wallet := w,
                           ps_so_far := ps_so_far st1 +
                             scan_continuity_repair_credit (sr_start rg) (sr_end rg) rewind_height,
                           ps_report := (ps_report st1)\<lparr>rp_reorgs_recovered := rp_reorgs_recovered (ps_report st1) + 1\<rparr>,
                           ps_progress := map_option add_reorg (ps_progress st1)\<rparr>, Inr ())))"

text \<open>The end of a successful range: the report, the latches, the enhancement run, the counters.\<close>

definition note_tx_signature :: "'w wallet_ops \<Rightarrow> nat \<Rightarrow> progress \<Rightarrow> 'w pass_state \<Rightarrow> 'w pass_state" where
  "note_tx_signature ops now p st =
     (case wo_tx_signature ops (ps_wallet st) of
        None \<Rightarrow> st\<lparr>ps_progress := Some p\<rparr>
      | Some sig \<Rightarrow>
          if ps_last_sig st \<noteq> Some sig
          then st\<lparr>ps_progress := Some (if ps_last_sig st \<noteq> None then bump_tx_set_version now p else p),
                  ps_last_sig := Some sig\<rparr>
          else st\<lparr>ps_progress := Some p\<rparr>)"

definition finish_range :: "'w wallet_ops \<Rightarrow> scan_range \<Rightarrow> 'w turn \<Rightarrow> scan_stats \<Rightarrow> fetch_stats \<Rightarrow> rat \<Rightarrow>
    'w pass_state \<Rightarrow> 'w pass_state" where
  "finish_range ops rg t s f scan_wall st =
     (let st1 = st\<lparr>ps_consecutive := 0, ps_report := report_add_range (ps_report st) s f scan_wall,
                   ps_so_far := ps_so_far st + ss_blocks s\<rparr>;
          st2 = (if sr_priority rg = ChainTip
                 then st1\<lparr>ps_progress := map_option set_spendable (ps_progress st1)\<rparr> else st1);
          ((w, p), r, elapsed) = tn_enhance t (ps_wallet st2, ps_progress st2);
          report = (case r of Inr e \<Rightarrow> report_add_enhance (ps_report st2) e | Inl _ \<Rightarrow> ps_report st2);
          st3 = st2\<lparr>ps_wallet := w, ps_progress := p,
                    ps_report := report\<lparr>enhance_elapsed := enhance_elapsed report + elapsed\<rparr>\<rparr>
      in case p of
           None \<Rightarrow> st3
         | Some q \<Rightarrow> note_tx_signature ops (tn_now t) (add_ranges_completed (tn_now t) q) st3)"

text \<open>What follows a range's fetch and scan: go on, or return an error.\<close>

definition after_range :: "'w wallet_ops \<Rightarrow> scan_range \<Rightarrow> 'w turn \<Rightarrow> 'w pass_state \<Rightarrow>
    'w pass_state \<times> (slipstream_error + unit)" where
  "after_range ops rg t st =
     (let ((w, p), scan_result, joined, scan_wall) = tn_run t rg (ps_wallet st, ps_progress st);
          st1 = st\<lparr>ps_wallet := w, ps_progress := p\<rparr>
      in case joined of
           Inl m \<Rightarrow> (st1, Inl (Transport (''fetch task panicked: '' @ m)))
         | Inr fetch_result \<Rightarrow>
             (case scan_result of
                Inl (ScanContinuity at') \<Rightarrow> recover_reorg ops rg at' st1
              | Inl scan_err \<Rightarrow> (st1, Inl scan_err)
              | Inr s \<Rightarrow>
                  (case fetch_result of
                     Inl fetch_err \<Rightarrow> (st1, Inl fetch_err)
                   | Inr f \<Rightarrow> (finish_range ops rg t s f scan_wall st1, Inr ()))))"

fun completion_loop :: "'w wallet_ops \<Rightarrow> nat option \<Rightarrow> 'w turn list \<Rightarrow> 'w pass_state \<Rightarrow>
    (slipstream_error + sync_report) option \<times> 'w pass_state" where
  "completion_loop ops until [] st =
     (case suggest_round ops until st of
        (st1, Inl e) \<Rightarrow> (Some (Inl e), st1)
      | (st1, Inr None) \<Rightarrow> (Some (Inr (ps_report st1)), st1)
      | (st1, Inr (Some rg)) \<Rightarrow> (None, st1))"
| "completion_loop ops until (t # ts) st =
     (case suggest_round ops until st of
        (st1, Inl e) \<Rightarrow> (Some (Inl e), st1)
      | (st1, Inr None) \<Rightarrow> (Some (Inr (ps_report st1)), st1)
      | (st1, Inr (Some rg)) \<Rightarrow>
          (case after_range ops rg t st1 of
             (st2, Inl e) \<Rightarrow> (Some (Inl e), st2)
           | (st2, Inr _) \<Rightarrow> completion_loop ops until ts st2))"

text \<open>
  \<open>sweep\<close> is the sweep of stranded graft rows before the first round, whose failure is logged and
  ignored.
\<close>

definition run_to_completion :: "'w wallet_ops \<Rightarrow> ('w \<Rightarrow> 'w) \<Rightarrow> 'w turn list \<Rightarrow> 'w \<Rightarrow> progress option \<Rightarrow>
    (slipstream_error + sync_report) option \<times> 'w pass_state" where
  "run_to_completion ops sweep ts w p =
     (let w' = sweep w
      in completion_loop ops (or_default (wo_recover_until ops w')) ts
           \<lparr>ps_wallet = w', ps_progress = p, ps_report = sync_report_default, ps_consecutive = 0,
            ps_so_far = 0, ps_last_sig = wo_tx_signature ops w'\<rparr>)"

section \<open>The loop ends\<close>

definition wallet_work :: "'w wallet_ops \<Rightarrow> 'w \<Rightarrow> nat" where
  "wallet_work ops w = (case wo_suggest ops w of Inl _ \<Rightarrow> 0 | Inr rs \<Rightarrow> sum_ranges rs)"

text \<open>
  What the wallet's scan queue is documented to do: it answers, and every range it suggests holds at
  least one block.
\<close>

definition queue_ok :: "'w wallet_ops \<Rightarrow> bool" where
  "queue_ok ops \<longleftrightarrow> (\<forall>w. \<exists>rs. wo_suggest ops w = Inr rs \<and> (\<forall>r \<in> set rs. sr_start r < sr_end r))"

text \<open>A turn in which fetch and scan of the suggested range succeed and leave the wallet less to do.\<close>

definition good_turn :: "'w wallet_ops \<Rightarrow> 'w turn \<Rightarrow> bool" where
  "good_turn ops t \<longleftrightarrow>
     (\<forall>w p rg rs. wo_suggest ops w = Inr (rg # rs) \<longrightarrow>
        (\<exists>w' p' s f wall. tn_run t rg (w, p) = ((w', p'), Inr s, Inr (Inr f), wall) \<and>
           wallet_work ops w' < wallet_work ops w)) \<and>
     (\<forall>w p. wallet_work ops (fst (fst (tn_enhance t (w, p)))) \<le> wallet_work ops w)"

lemma suggest_round_cases:
  assumes "queue_ok ops"
  obtains st1 where "suggest_round ops until st = (st1, Inr None)" "wo_suggest ops (ps_wallet st) = Inr []"
      "ps_wallet st1 = ps_wallet st" "ps_report st1 = ps_report st" "ps_consecutive st1 = ps_consecutive st"
  | st1 rg rs where "suggest_round ops until st = (st1, Inr (Some rg))"
      "wo_suggest ops (ps_wallet st) = Inr (rg # rs)" "ps_wallet st1 = ps_wallet st"
      "ps_report st1 = ps_report st" "ps_consecutive st1 = ps_consecutive st"
proof -
  obtain rs where rs: "wo_suggest ops (ps_wallet st) = Inr rs" "\<forall>r \<in> set rs. sr_start r < sr_end r"
    using assms by (auto simp: queue_ok_def)
  show thesis
  proof (cases rs)
    case Nil
    then show ?thesis using rs(1) by (intro that(1) [of "fst (suggest_round ops until st)"]) (simp_all add: suggest_round_def Let_def)
  next
    case (Cons rg rs')
    then have "\<not> sr_end rg \<le> sr_start rg" using rs(2) by auto
    then show ?thesis using rs(1) Cons
      by (intro that(2) [of "fst (suggest_round ops until st)" rg rs'])
        (auto simp: suggest_round_def Let_def split: option.splits prod.splits)
  qed
qed

lemma note_tx_signature_sel [simp]:
  "ps_consecutive (note_tx_signature ops now p st) = ps_consecutive st"
  "ps_report (note_tx_signature ops now p st) = ps_report st"
  "ps_wallet (note_tx_signature ops now p st) = ps_wallet st"
  by (simp_all add: note_tx_signature_def split: option.split)

lemma report_add_sel [simp]:
  "ranges_processed (report_add_range r s f wall) = ranges_processed r + 1"
  "rp_reorgs_recovered (report_add_range r s f wall) = rp_reorgs_recovered r"
  "ranges_processed (report_add_enhance r e) = ranges_processed r"
  "rp_reorgs_recovered (report_add_enhance r e) = rp_reorgs_recovered r"
  by (simp_all add: report_add_range_def report_add_enhance_def)

lemma finish_range_sel:
  "ps_consecutive (finish_range ops rg t s f wall st) = 0"
  "ranges_processed (ps_report (finish_range ops rg t s f wall st)) = ranges_processed (ps_report st) + 1"
  "rp_reorgs_recovered (ps_report (finish_range ops rg t s f wall st)) = rp_reorgs_recovered (ps_report st)"
  "ps_wallet (finish_range ops rg t s f wall st) =
     fst (fst (tn_enhance t (ps_wallet st,
       if sr_priority rg = ChainTip then map_option set_spendable (ps_progress st) else ps_progress st)))"
  unfolding finish_range_def Let_def
  by (cases "sr_priority rg = ChainTip"; simp split: prod.split option.split sum.split)+

lemma good_turn_step:
  assumes "good_turn ops t" and "wo_suggest ops (ps_wallet st) = Inr (rg # rs)"
  obtains st2 where "after_range ops rg t st = (st2, Inr ())"
    "wallet_work ops (ps_wallet st2) < wallet_work ops (ps_wallet st)"
    "ranges_processed (ps_report st2) = ranges_processed (ps_report st) + 1"
    "rp_reorgs_recovered (ps_report st2) = rp_reorgs_recovered (ps_report st)"
proof -
  obtain w' p' s f wall where run: "tn_run t rg (ps_wallet st, ps_progress st) = ((w', p'), Inr s, Inr (Inr f), wall)"
    and less: "wallet_work ops w' < wallet_work ops (ps_wallet st)"
    using assms unfolding good_turn_def by blast
  let ?st = "finish_range ops rg t s f wall (st\<lparr>ps_wallet := w', ps_progress := p'\<rparr>)"
  have "wallet_work ops (ps_wallet ?st) \<le> wallet_work ops w'"
    unfolding finish_range_sel using assms(1) by (simp add: good_turn_def)
  then show thesis using run less by (intro that [of ?st]) (auto simp: after_range_def finish_range_sel)
qed

lemma completion_loop_good:
  assumes "queue_ok ops" and "\<forall>t \<in> set ts. good_turn ops t"
    and "wallet_work ops (ps_wallet st) \<le> length ts"
  shows "\<exists>st' n. completion_loop ops until ts st = (Some (Inr (ps_report st')), st') \<and>
    wo_suggest ops (ps_wallet st') = Inr [] \<and> n \<le> wallet_work ops (ps_wallet st) \<and>
    ranges_processed (ps_report st') = ranges_processed (ps_report st) + n \<and>
    rp_reorgs_recovered (ps_report st') = rp_reorgs_recovered (ps_report st)"
  using assms(2,3)
proof (induction ts arbitrary: st)
  case Nil
  show ?case
  proof (cases rule: suggest_round_cases [OF assms(1), where until = until and st = st])
    case (1 st1)
    then show ?thesis by (intro exI [of _ st1] exI [of _ 0]) simp
  next
    case (2 st1 rg rs)
    have "sr_start rg < sr_end rg" using assms(1) 2(2) unfolding queue_ok_def
      by (metis Inr_inject list.set_intros(1))
    then have "0 < wallet_work ops (ps_wallet st)" using 2(2) by (simp add: wallet_work_def sum_ranges_def)
    then show ?thesis using Nil by simp
  qed
next
  case (Cons t ts)
  show ?case
  proof (cases rule: suggest_round_cases [OF assms(1), where until = until and st = st])
    case (1 st1)
    then show ?thesis by (intro exI [of _ st1] exI [of _ 0]) simp
  next
    case (2 st1 rg rs)
    obtain st2 where step: "after_range ops rg t st1 = (st2, Inr ())"
      "wallet_work ops (ps_wallet st2) < wallet_work ops (ps_wallet st)"
      "ranges_processed (ps_report st2) = ranges_processed (ps_report st) + 1"
      "rp_reorgs_recovered (ps_report st2) = rp_reorgs_recovered (ps_report st)"
      using good_turn_step [of ops t st1 rg rs] Cons.prems(1) 2(2-4) by auto
    have "wallet_work ops (ps_wallet st2) \<le> length ts" using step(2) Cons.prems(2) by simp
    from Cons.IH [OF _ this] Cons.prems(1) obtain st' n where
      "completion_loop ops until ts st2 = (Some (Inr (ps_report st')), st')"
      "wo_suggest ops (ps_wallet st') = Inr []" "n \<le> wallet_work ops (ps_wallet st2)"
      "ranges_processed (ps_report st') = ranges_processed (ps_report st2) + n"
      "rp_reorgs_recovered (ps_report st') = rp_reorgs_recovered (ps_report st2)" by auto
    then show ?thesis using 2(1) step by (intro exI [of _ st'] exI [of _ "n + 1"]) simp
  qed
qed


section \<open>Reorganisations\<close>

text \<open>A turn that breaks continuity at \<open>h\<close> whatever range it is given; and a wallet that can rewind.\<close>

definition breaks_at :: "nat \<Rightarrow> 'w turn \<Rightarrow> bool" where
  "breaks_at h t \<longleftrightarrow> (\<forall>rg w p. \<exists>w' p' fr wall. tn_run t rg (w, p) = ((w', p'), Inl (ScanContinuity h), Inr fr, wall))"

definition can_rewind :: "'w wallet_ops \<Rightarrow> bool" where
  "can_rewind ops \<longleftrightarrow> (\<forall>h w. \<exists>w'. wo_truncate ops h w = (w', Inr ()) \<and> (\<exists>rg rs. wo_suggest ops w' = Inr (rg # rs)))"

lemma breaks_step:
  assumes "breaks_at h t" and "can_rewind ops"
  obtains st2 where "after_range ops rg t st =
      (if ps_consecutive st \<ge> 5 then (st2, Inl (ScanContinuity h)) else (st2, Inr ()))"
    "ps_consecutive st2 = ps_consecutive st + 1"
    "ps_consecutive st < 5 \<longrightarrow> rp_reorgs_recovered (ps_report st2) = rp_reorgs_recovered (ps_report st) + 1 \<and>
       (\<exists>rg rs. wo_suggest ops (ps_wallet st2) = Inr (rg # rs))"
    "ps_consecutive st \<ge> 5 \<longrightarrow> rp_reorgs_recovered (ps_report st2) = rp_reorgs_recovered (ps_report st)"
proof -
  obtain w' p' fr wall where run: "tn_run t rg (ps_wallet st, ps_progress st) = ((w', p'), Inl (ScanContinuity h), Inr fr, wall)"
    using assms(1) unfolding breaks_at_def by blast
  let ?st1 = "st\<lparr>ps_wallet := w', ps_progress := p'\<rparr>"
  have a: "after_range ops rg t st = recover_reorg ops rg h ?st1" using run by (simp add: after_range_def)
  obtain w2 rg2 rs2 where tr: "wo_truncate ops (h - 10) w' = (w2, Inr ())" "wo_suggest ops w2 = Inr (rg2 # rs2)"
    using assms(2) unfolding can_rewind_def by blast
  show thesis
  proof (cases "ps_consecutive st \<ge> 5")
    case True
    then show ?thesis
      by (intro that [of "?st1\<lparr>ps_consecutive := ps_consecutive st + 1\<rparr>"])
        (simp_all add: a recover_reorg_def MAX_CONSECUTIVE_REORGS_def)
  next
    case False
    then show ?thesis using tr
      by (intro that [of "fst (recover_reorg ops rg h ?st1)"])
        (simp_all add: a recover_reorg_def MAX_CONSECUTIVE_REORGS_def)
  qed
qed

lemma reorg_loop:
  assumes "queue_ok ops" and "can_rewind ops" and "\<forall>t \<in> set ts. breaks_at h t"
    and "wo_suggest ops (ps_wallet st) = Inr (rg # rs)" and "ps_consecutive st \<le> 5"
    and "6 - ps_consecutive st \<le> length ts"
  shows "\<exists>st'. completion_loop ops until ts st = (Some (Inl (ScanContinuity h)), st') \<and>
    rp_reorgs_recovered (ps_report st') = rp_reorgs_recovered (ps_report st) + (5 - ps_consecutive st)"
  using assms(3-6)
proof (induction ts arbitrary: st rg rs)
  case (Cons t ts)
  obtain st1 rg1 where sug: "suggest_round ops until st = (st1, Inr (Some rg1))"
    "ps_report st1 = ps_report st" "ps_consecutive st1 = ps_consecutive st"
    using Cons.prems(2) by (cases rule: suggest_round_cases [OF assms(1), where until = until and st = st]) auto
  have br: "breaks_at h t" using Cons.prems(1) by simp
  obtain st2 where step: "after_range ops rg1 t st1 =
      (if ps_consecutive st1 \<ge> 5 then (st2, Inl (ScanContinuity h)) else (st2, Inr ()))"
    "ps_consecutive st2 = ps_consecutive st1 + 1"
    "ps_consecutive st1 < 5 \<longrightarrow> rp_reorgs_recovered (ps_report st2) = rp_reorgs_recovered (ps_report st1) + 1 \<and>
       (\<exists>rg rs. wo_suggest ops (ps_wallet st2) = Inr (rg # rs))"
    "ps_consecutive st1 \<ge> 5 \<longrightarrow> rp_reorgs_recovered (ps_report st2) = rp_reorgs_recovered (ps_report st1)"
    by (rule breaks_step [OF br assms(2)])
  show ?case
  proof (cases "ps_consecutive st \<ge> 5")
    case True
    then have "completion_loop ops until (t # ts) st = (Some (Inl (ScanContinuity h)), st2)"
      using sug(1,3) step(1) by simp
    moreover have "rp_reorgs_recovered (ps_report st2) = rp_reorgs_recovered (ps_report st)"
      using step(4) sug(2,3) True by simp
    ultimately show ?thesis using True by auto
  next
    case False
    then obtain rg2 rs2 where w2: "wo_suggest ops (ps_wallet st2) = Inr (rg2 # rs2)"
      using step(3) sug(3) by auto
    have n2: "rp_reorgs_recovered (ps_report st2) = rp_reorgs_recovered (ps_report st) + 1"
      "ps_consecutive st2 = ps_consecutive st + 1" using step(2,3) sug(2,3) False by simp_all
    have "\<exists>st'. completion_loop ops until ts st2 = (Some (Inl (ScanContinuity h)), st') \<and>
        rp_reorgs_recovered (ps_report st') = rp_reorgs_recovered (ps_report st2) + (5 - ps_consecutive st2)"
      by (rule Cons.IH [OF _ w2]) (use Cons.prems False n2 in auto)
    moreover have "completion_loop ops until (t # ts) st = completion_loop ops until ts st2"
      using sug(1,3) step(1) False by simp
    moreover have "rp_reorgs_recovered (ps_report st2) + (5 - ps_consecutive st2) =
        rp_reorgs_recovered (ps_report st) + (5 - ps_consecutive st)" using n2 False by simp
    ultimately show ?thesis by metis
  qed
qed simp


section \<open>A concrete wallet\<close>

text \<open>A wallet that still has \<open>n\<close> blocks to scan; a rewind leaves it one.\<close>

definition demo_ops :: "nat wallet_ops" where
  "demo_ops = \<lparr>wo_suggest = (\<lambda>n. Inr (if n = 0 then [] else [\<lparr>sr_start = 0, sr_end = n, sr_priority = Historic\<rparr>])),
     wo_min_birthday = (\<lambda>n. Inr None), wo_recover_until = (\<lambda>n. Inr None), wo_chain_height = (\<lambda>n. Inr None),
     wo_tx_signature = (\<lambda>n. None), wo_truncate = (\<lambda>h n. (1, Inr ()))\<rparr>"

definition demo_scan_turn :: "nat turn" where
  "demo_scan_turn = \<lparr>tn_run = (\<lambda>rg (n, p). ((n - 1, p), Inr scan_stats_default,
       Inr (Inr \<lparr>fs_blocks = 1, fs_bytes = 1, fs_elapsed = 1, fs_wire_samples = []\<rparr>), 1)),
     tn_enhance = (\<lambda>(n, p). ((n, p), Inr enhance_stats_default, 0)), tn_now = 0\<rparr>"

definition demo_break_turn :: "nat turn" where
  "demo_break_turn = \<lparr>tn_run = (\<lambda>rg (n, p). ((n, p), Inl (ScanContinuity 40), Inr (Inl Stopped), 1)),
     tn_enhance = (\<lambda>(n, p). ((n, p), Inr enhance_stats_default, 0)), tn_now = 0\<rparr>"

lemma demo_ops_ok: "queue_ok demo_ops" "can_rewind demo_ops"
  by (simp_all add: queue_ok_def can_rewind_def demo_ops_def)

lemma demo_turns_ok: "good_turn demo_ops demo_scan_turn" "breaks_at 40 demo_break_turn"
  by (auto simp: good_turn_def breaks_at_def demo_ops_def demo_scan_turn_def demo_break_turn_def
      wallet_work_def sum_ranges_def)



section \<open>The global position\<close>

lemma global_floor_le: "global_floor_permille tip b remaining = Some seed \<Longrightarrow> seed \<le> 1000"
proof -
  assume a: "global_floor_permille tip b remaining = Some seed"
  obtain bd where b: "b = Some bd" and ok: "\<not> (tip = 0 \<or> tip < bd)"
    and seed: "seed = saturating_mul64 (tip - bd + 1 - remaining) 1000 div (tip - bd + 1)"
    using a by (auto simp: global_floor_permille_def Let_def split: option.splits if_splits)
  have "seed \<le> ((tip - bd + 1) * 1000) div (tip - bd + 1)"
    unfolding seed by (rule div_le_mono) (simp add: saturating_mul64_def min.coboundedI2)
  also have "\<dots> = 1000" by (rule nonzero_mult_div_cancel_left) simp
  finally show "seed \<le> 1000" .
qed

lemma global_floor_full:
  "global_floor_permille tip (Some b) remaining = Some seed \<Longrightarrow> tip < 2 ^ 32 \<Longrightarrow> (seed = 1000 \<longleftrightarrow> remaining = 0)"
proof -
  assume a: "global_floor_permille tip (Some b) remaining = Some seed" and t: "tip < 2 ^ 32"
  define span where "span = tip - b + 1"
  have span: "0 < span" "span \<le> 2 ^ 32" using t by (auto simp: span_def)
  have seed: "seed = saturating_mul64 (span - remaining) 1000 div span"
    using a by (auto simp: global_floor_permille_def Let_def span_def split: if_splits)
  moreover have "saturating_mul64 (span - remaining) 1000 = (span - remaining) * 1000"
    using span by (simp add: saturating_mul64_def u64_max_def min_def)
  ultimately have eq: "seed = (span - remaining) * 1000 div span" by simp
  show "seed = 1000 \<longleftrightarrow> remaining = 0"
  proof
    assume "seed = 1000"
    then have "1000 * span \<le> (span - remaining) * 1000"
      using eq span(1) by (metis less_eq_div_iff_mult_less_eq order_refl)
    then show "remaining = 0" using span(1) by simp
  qed (use eq span(1) in simp)
qed

section \<open>Re-baselining under concurrent polls\<close>

text \<open>A poll of the snapshot while syncing, and a list of polls by their clock readings.\<close>

definition poll :: "nat \<Rightarrow> progress \<Rightarrow> progress" where
  "poll now p = fst (derive_snapshot now p Syncing)"

definition polls :: "nat list \<Rightarrow> progress \<Rightarrow> progress" where
  "polls ts p = fold poll ts p"

lemma poll_floor:
  "\<exists>f. poll now p = p\<lparr>progress_permille_floor := f\<rparr> \<and> progress_permille_floor p \<le> f"
  by (auto simp: poll_def derive_snapshot_def permille_floor_def Let_def)

lemma polls_floor:
  "\<exists>f. polls ts p = p\<lparr>progress_permille_floor := f\<rparr> \<and> progress_permille_floor p \<le> f"
proof (induction ts arbitrary: p)
  case Nil
  then show ?case by (intro exI [of _ "progress_permille_floor p"]) (simp add: polls_def)
next
  case (Cons t ts)
  obtain f where f: "poll t p = p\<lparr>progress_permille_floor := f\<rparr>" "progress_permille_floor p \<le> f"
    using poll_floor by blast
  obtain g where "polls ts (poll t p) = (poll t p)\<lparr>progress_permille_floor := g\<rparr>" "f \<le> g"
    using Cons.IH [of "poll t p"] f by auto
  then show ?case using f by (intro exI [of _ g]) (simp add: polls_def)
qed

text \<open>
  The stores of a re-baseline one by one, with the polls that fall between them: the two baselines,
  the total, the start.
\<close>

definition polled_rebaseline :: "nat \<Rightarrow> nat \<Rightarrow> nat list \<Rightarrow> nat list \<Rightarrow> nat list \<Rightarrow> nat list \<Rightarrow> nat list \<Rightarrow> progress \<Rightarrow> progress" where
  "polled_rebaseline seed remaining t0 t1 t2 t3 t4 p =
     polls t4 ((\<lambda>q. set_pass_start_permille seed q)
      (polls t3 ((\<lambda>q. set_pass_total remaining q)
       (polls t2 ((\<lambda>q. q\<lparr>pass_base_scanned := scanned_blocks q\<rparr>)
        (polls t1 ((\<lambda>q. q\<lparr>pass_base_fetched := fetched_blocks q\<rparr>) (polls t0 p))))))))"

lemma polled_rebaseline_eq:
  "\<exists>f. polled_rebaseline seed remaining t0 t1 t2 t3 t4 p =
     (rebaseline_stores seed remaining p)\<lparr>progress_permille_floor := f\<rparr> \<and> progress_permille_floor p \<le> f"
proof -
  obtain f0 where f0: "polls t0 p = p\<lparr>progress_permille_floor := f0\<rparr>" "progress_permille_floor p \<le> f0"
    using polls_floor by blast
  let ?p1 = "p\<lparr>progress_permille_floor := f0, pass_base_fetched := fetched_blocks p\<rparr>"
  obtain f1 where f1: "polls t1 ?p1 = ?p1\<lparr>progress_permille_floor := f1\<rparr>" "f0 \<le> f1"
    using polls_floor [of t1 ?p1] by auto
  let ?p2 = "?p1\<lparr>progress_permille_floor := f1, pass_base_scanned := scanned_blocks p\<rparr>"
  obtain f2 where f2: "polls t2 ?p2 = ?p2\<lparr>progress_permille_floor := f2\<rparr>" "f1 \<le> f2"
    using polls_floor [of t2 ?p2] by auto
  let ?p3 = "set_pass_total remaining (?p2\<lparr>progress_permille_floor := f2\<rparr>)"
  obtain f3 where f3: "polls t3 ?p3 = ?p3\<lparr>progress_permille_floor := f3\<rparr>" "f2 \<le> f3"
    using polls_floor [of t3 ?p3] by (auto simp: set_pass_total_def)
  let ?p4 = "set_pass_start_permille seed (?p3\<lparr>progress_permille_floor := f3\<rparr>)"
  obtain f4 where f4: "polls t4 ?p4 = ?p4\<lparr>progress_permille_floor := f4\<rparr>" "f3 \<le> f4"
    using polls_floor [of t4 ?p4] by (auto simp: set_pass_start_permille_def)
  show ?thesis
    using f0 f1 f2 f3 f4
    by (intro exI [of _ f4])
      (simp add: polled_rebaseline_def rebaseline_stores_def set_pass_baseline_def set_pass_total_def
        set_pass_start_permille_def)
qed

lemma rebaselined_raw:
  "pass_start p \<noteq> u64_max \<Longrightarrow> pass_start p \<le> 1000 \<Longrightarrow> pass_base_fetched p = fetched_blocks p \<Longrightarrow>
     pass_base_scanned p = scanned_blocks p \<Longrightarrow> raw_permille p = pass_start p"
  by (simp add: raw_permille_def pass_permille_def pass_start_permille_def Let_def saturating_mul64_def
      saturating_add64_def checked_div_def u64_max_def)


text \<open>A pass that stood at 900 permille when an account with an older birthday was imported.\<close>

definition grown_pass :: progress where
  "grown_pass = progress_default\<lparr>pass_start := 900, progress_permille_floor := 900, pass_total_blocks := 100,
     fetched_blocks := 50, scanned_blocks := 50\<rparr>"



text \<open>
  The wallet's global position is a permille that reads full exactly when nothing remains to scan,
  and seeding the progress from the wallet alone reports it without lowering what was reported.
\<close>

theorem seeded_position:
  assumes "wo_min_birthday ops w = Inr (Some b)" and "wo_suggest ops w = Inr ranges"
    and "wo_recover_until ops w = Inr ru" and "wo_chain_height ops w = Inr (Some tip)"
    and "0 < tip" and "b \<le> tip" and "tip < 2 ^ 32" and "floor_ok p"
  shows "\<exists>q. seed_progress_from_wallet ops w p = (q, Inr ()) \<and> chain_tip q = tip \<and>
    (recovering q \<longleftrightarrow> (\<exists>u. ru = Some u \<and> (\<exists>r \<in> set ranges. sr_start r < u))) \<and>
    progress_permille_floor p \<le> progress_permille_floor q \<and> progress_permille_floor q \<le> 1000 \<and>
    (sum_ranges ranges = 0 \<longrightarrow> progress_permille_floor q = 1000)"
proof -
  obtain seed where seed: "global_floor_permille tip (Some b) (sum_ranges ranges) = Some seed"
    using assms(5,6) by (simp add: global_floor_permille_def Let_def)
  note le = global_floor_le [OF seed] and full = global_floor_full [OF seed assms(7)]
  have "progress_permille_floor p \<le> 1000" using assms(8) by (simp add: floor_ok_def)
  then show ?thesis using assms seed le full
    by (auto simp: seed_progress_from_wallet_def Let_def permille_floor_def set_recovering_def recovering_def
        is_recovering_from_def set_spendable_def set_chain_tip_def split: option.splits)
qed

theorem seeded_position_witness:
  "\<exists>q. seed_progress_from_wallet (demo_ops\<lparr>wo_min_birthday := \<lambda>n. Inr (Some 5), wo_chain_height := \<lambda>n. Inr (Some 104)\<rparr>)
     0 progress_default = (q, Inr ()) \<and> progress_permille_floor q = 1000"
proof -
  let ?ops = "demo_ops\<lparr>wo_min_birthday := \<lambda>n. Inr (Some 5), wo_chain_height := \<lambda>n. Inr (Some 104)\<rparr>"
  have "floor_ok progress_default" by (simp add: floor_ok_def progress_default_def)
  from seeded_position [where ops = ?ops and w = 0 and b = 5 and ranges = "[]" and ru = None and tip = 104, OF _ _ _ _ _ _ _ this]
  show ?thesis by (auto simp: demo_ops_def sum_ranges_def)
qed

end
