(* ===== verification/Slip_Calendar.thy ===== *)
theory Slip_Calendar
  imports Slip_Prelude
begin

text \<open>
  The wall clock in the logs (\<open>src/core/src/engine.rs\<close>, \<open>format_utc\<close>): a unix time as a UTC date, by
  arithmetic on days, proved against counting days one by one.  The source computes with 64-bit
  signed integers, which the day numbers of 64-bit unix times do not overflow; divisions are by
  positive numbers.
\<close>

definition civil_from_days :: "int \<Rightarrow> int \<times> int \<times> int" where
  "civil_from_days days =
     (let z = days + 719468;
          era = z div 146097;
          doe = z mod 146097;
          yoe = (doe - doe div 1460 + doe div 36524 - doe div 146096) div 365;
          doy = doe - (365 * yoe + yoe div 4 - yoe div 100);
          mp = (5 * doy + 2) div 153;
          d = doy - (153 * mp + 2) div 5 + 1;
          month = (if mp < 10 then mp + 3 else mp - 9);
          y = yoe + era * 400 + (if month \<le> 2 then 1 else 0)
      in (y, month, d))"

definition pad :: "nat \<Rightarrow> nat \<Rightarrow> string" where
  "pad width n = replicate (width - length (nat_str n)) (CHR ''0'') @ nat_str n"

definition format_utc :: "nat \<Rightarrow> string" where
  "format_utc unix_secs =
     (let days = int (unix_secs div 86400); rem = unix_secs mod 86400;
          (y, month, d) = civil_from_days days
      in pad 4 (nat y) @ ''-'' @ pad 2 (nat month) @ ''-'' @ pad 2 (nat d) @ '' '' @
         pad 2 (rem div 3600) @ '':'' @ pad 2 (rem mod 3600 div 60) @ '':'' @ pad 2 (rem mod 60) @ ''Z'')"

section \<open>The calendar\<close>

definition leap :: "int \<Rightarrow> bool" where
  "leap y \<longleftrightarrow> y mod 4 = 0 \<and> (y mod 100 \<noteq> 0 \<or> y mod 400 = 0)"

definition days_in_month :: "int \<Rightarrow> int \<Rightarrow> int" where
  "days_in_month y m =
     (if m = 2 then (if leap y then 29 else 28) else if m = 4 \<or> m = 6 \<or> m = 9 \<or> m = 11 then 30 else 31)"

definition next_day :: "int \<times> int \<times> int \<Rightarrow> int \<times> int \<times> int" where
  "next_day ymd = (case ymd of (y, m, d) \<Rightarrow>
     if d < days_in_month y m then (y, m, d + 1) else if m < 12 then (y, m + 1, 1) else (y + 1, 1, 1))"

section \<open>Days within an era\<close>

text \<open>
  A day of a 400-year era, whose years begin in March: century \<open>c\<close>, four-year group \<open>q\<close>, year \<open>r\<close> and
  day \<open>t\<close>; the last year of a group has a leap day unless the group ends a century that is not the
  era's last.
\<close>

definition leap_slot :: "int \<Rightarrow> int \<Rightarrow> int \<Rightarrow> bool" where
  "leap_slot c q r \<longleftrightarrow> r = 3 \<and> (q \<noteq> 24 \<or> c = 3)"

definition slot :: "int \<Rightarrow> int \<Rightarrow> int \<Rightarrow> int \<Rightarrow> bool" where
  "slot c q r t \<longleftrightarrow> 0 \<le> c \<and> c \<le> 3 \<and> 0 \<le> q \<and> q \<le> 24 \<and> 0 \<le> r \<and> r \<le> 3 \<and> 0 \<le> t \<and>
     t \<le> (if leap_slot c q r then 365 else 364)"

definition doe_of :: "int \<Rightarrow> int \<Rightarrow> int \<Rightarrow> int \<Rightarrow> int" where
  "doe_of c q r t = 36524 * c + 1461 * q + 365 * r + t"

definition yoe_of :: "int \<Rightarrow> int \<Rightarrow> int \<Rightarrow> int" where
  "yoe_of c q r = 100 * c + 4 * q + r"

lemma doe_bounds: "slot c q r t \<Longrightarrow> 0 \<le> doe_of c q r t \<and> doe_of c q r t < 146097"
  by (auto simp: slot_def doe_of_def leap_slot_def split: if_splits)

lemma div_eqI: "b * k \<le> a \<Longrightarrow> a < b * k + b \<Longrightarrow> a div b = k" for a b k :: int
  by (metis add_diff_cancel_left' int_div_pos_eq le_add_diff_inverse diff_add_cancel
      diff_ge_0_iff_ge diff_less_eq add.commute)

lemma century_of_slot:
  assumes "slot c q r t"
  shows "doe_of c q r t div 36524 - doe_of c q r t div 146096 = c"
proof (cases "c = 3 \<and> q = 24 \<and> r = 3 \<and> t = 365")
  case True
  then show ?thesis by (simp add: doe_of_def)
next
  case False
  then have u: "1461 * q + 365 * r + t < 36524" "0 \<le> 1461 * q + 365 * r + t"
    using assms by (auto simp: slot_def leap_slot_def split: if_splits)
  then have "doe_of c q r t div 36524 = c" by (intro div_eqI) (auto simp: doe_of_def)
  moreover have "doe_of c q r t div 146096 = 0"
    using u assms by (intro div_eqI) (auto simp: doe_of_def slot_def)
  ultimately show ?thesis by simp
qed

lemma yoe_of_slot:
  assumes "slot c q r t"
  shows "(doe_of c q r t - doe_of c q r t div 1460 + doe_of c q r t div 36524 - doe_of c q r t div 146096) div 365 =
    yoe_of c q r"
proof -
  define u where "u = 24 * c + q + 365 * r + t"
  have doe: "doe_of c q r t = 1460 * (25 * c + q) + u" by (simp add: doe_of_def u_def algebra_simps)
  have ub: "0 \<le> u" "u < 2 * 1460" using assms by (auto simp: slot_def u_def split: if_splits)
  have d: "doe_of c q r t div 1460 = 25 * c + q + (if 1460 \<le> u then 1 else 0)"
    unfolding doe using ub by (intro div_eqI) auto
  have t: "0 \<le> t - (if 1460 \<le> u then 1 else 0)" "t - (if 1460 \<le> u then 1 else 0) < 365"
    using assms by (auto simp: slot_def u_def leap_slot_def split: if_splits)
  have "doe_of c q r t - doe_of c q r t div 1460 + (doe_of c q r t div 36524 - doe_of c q r t div 146096) =
      365 * yoe_of c q r + (t - (if 1460 \<le> u then 1 else 0))"
    unfolding century_of_slot [OF assms] d by (simp add: doe_of_def yoe_of_def)
  then show ?thesis using t by (intro div_eqI) (auto simp: algebra_simps)
qed

lemma doy_of_slot:
  "slot c q r t \<Longrightarrow> doe_of c q r t - (365 * yoe_of c q r + yoe_of c q r div 4 - yoe_of c q r div 100) = t"
proof -
  assume s: "slot c q r t"
  have "yoe_of c q r div 4 = 25 * c + q" using s by (intro div_eqI) (auto simp: yoe_of_def slot_def)
  moreover have "yoe_of c q r div 100 = c" using s by (intro div_eqI) (auto simp: yoe_of_def slot_def)
  ultimately show ?thesis by (simp add: doe_of_def yoe_of_def)
qed

text \<open>Month and day of a day \<open>t\<close> of a year that begins in March.\<close>

definition month_of :: "int \<Rightarrow> int" where
  "month_of t = (let mp = (5 * t + 2) div 153 in if mp < 10 then mp + 3 else mp - 9)"

definition day_of :: "int \<Rightarrow> int" where
  "day_of t = t - (153 * ((5 * t + 2) div 153) + 2) div 5 + 1"

definition date_of :: "int \<Rightarrow> int \<Rightarrow> int \<times> int \<times> int" where
  "date_of y t = (y + (if month_of t \<le> 2 then 1 else 0), month_of t, day_of t)"

lemma civil_of_slot:
  assumes "slot c q r t"
  shows "civil_from_days (146097 * era + doe_of c q r t - 719468) = date_of (yoe_of c q r + 400 * era) t"
proof -
  let ?z = "146097 * era + doe_of c q r t - 719468 + 719468"
  have e: "?z div 146097 = era" using doe_bounds [OF assms] by (intro div_eqI) auto
  have m: "?z mod 146097 = doe_of c q r t"
    using e doe_bounds [OF assms] by (simp add: mod_mult_self4 mod_pos_pos_trivial)
  show ?thesis
    unfolding civil_from_days_def Let_def e m yoe_of_slot [OF assms] doy_of_slot [OF assms]
    by (simp add: date_of_def month_of_def day_of_def Let_def)
qed

lemma slot_exists:
  "\<exists>era c q r t. slot c q r t \<and> days = 146097 * era + doe_of c q r t - 719468"
proof -
  define z where "z = days + 719468"
  define doe where "doe = z mod 146097"
  define c where "c = min (doe div 36524) 3"
  define e where "e = doe - 36524 * c"
  define q where "q = min (e div 1461) 24"
  define f where "f = e - 1461 * q"
  define r where "r = min (f div 365) 3"
  define t where "t = f - 365 * r"
  have doe: "0 \<le> doe" "doe < 146097" by (simp_all add: doe_def)
  have c: "0 \<le> c" "c \<le> 3" "0 \<le> e" "e < 36524 \<or> (c = 3 \<and> e \<le> 36524)"
    using doe by (auto simp: c_def e_def min_def)
  have q: "0 \<le> q" "q \<le> 24" "0 \<le> f" "f < 1461" "q = 24 \<longrightarrow> f \<le> 1459 \<or> (c = 3 \<and> f \<le> 1460)"
    using c by (auto simp: q_def f_def min_def)
  have r: "0 \<le> r" "r \<le> 3" "0 \<le> t" "t < 365 \<or> (r = 3 \<and> t = f - 1095)"
    using q by (auto simp: r_def t_def min_def)
  have "slot c q r t" using c q r by (auto simp: slot_def leap_slot_def)
  moreover have "days = 146097 * (z div 146097) + doe_of c q r t - 719468"
    using mult_div_mod_eq [of 146097 z] by (simp add: doe_of_def z_def t_def f_def e_def doe_def)
  ultimately show ?thesis by blast
qed

section \<open>Day by day\<close>

text \<open>The first day of the month number \<open>mp\<close> counted from March.\<close>

definition first_day :: "int \<Rightarrow> int" where
  "first_day mp = (153 * mp + 2) div 5"

lemma div_bounds: "x div b = k \<longleftrightarrow> b * k \<le> x \<and> x < b * k + b" if "0 < b" for x b k :: int
proof
  assume "x div b = k"
  then show "b * k \<le> x \<and> x < b * k + b"
    using mult_div_mod_eq [of b x] pos_mod_sign [OF that, of x] pos_mod_bound [OF that, of x] by auto
qed (use div_eqI in blast)

lemma div5_le: "x div 5 \<le> k \<longleftrightarrow> x < 5 * k + 5" for x k :: int
  by presburger

lemma first_day_le: "first_day mp \<le> t \<longleftrightarrow> 153 * mp \<le> 5 * t + 2"
  unfolding first_day_def div5_le by auto

lemma month_iff: "(5 * t + 2) div 153 = mp \<longleftrightarrow> first_day mp \<le> t \<and> t < first_day (mp + 1)"
  using div_bounds [of 153 "5 * t + 2" mp] first_day_le [of mp t] first_day_le [of "mp + 1" t] by auto

lemma month_number: "0 \<le> t \<Longrightarrow> t \<le> 365 \<Longrightarrow> (5 * t + 2) div 153 \<in> set [0..11]"
proof -
  assume t: "0 \<le> t" "t \<le> 365"
  have "153 * ((5 * t + 2) div 153) \<le> 5 * t + 2" "5 * t + 2 < 153 * ((5 * t + 2) div 153) + 153"
    using div_bounds [of 153 "5 * t + 2" "(5 * t + 2) div 153"] by auto
  then show ?thesis using t unfolding set_upto atLeastAtMost_iff by auto
qed

lemma date_step:
  assumes "0 \<le> t" and "t + 1 \<le> 365" and "t + 1 = 365 \<longrightarrow> leap (y + 1)"
  shows "date_of y (t + 1) = next_day (date_of y t)"
proof -
  define mp where "mp = (5 * t + 2) div 153"
  have rng: "first_day mp \<le> t" "t < first_day (mp + 1)" using month_iff [of t mp] by (simp_all add: mp_def)
  have "mp \<in> set [0..11]" using month_number assms unfolding mp_def by simp
  then consider "mp = 0" | "mp = 1" | "mp = 2" | "mp = 3" | "mp = 4" | "mp = 5" | "mp = 6" | "mp = 7"
    | "mp = 8" | "mp = 9" | "mp = 10" | "mp = 11" by (auto simp: upto_rec1 simp del: set_upto)
  note mp_cases = this
  have at_t: "month_of t = (if mp < 10 then mp + 3 else mp - 9)" "day_of t = t - first_day mp + 1"
    by (simp_all add: month_of_def day_of_def mp_def first_day_def)
  show ?thesis
  proof (cases "t + 1 < first_day (mp + 1)")
    case True
    then have "(5 * (t + 1) + 2) div 153 = mp" using month_iff [of "t + 1" mp] rng by simp
    then have "month_of (t + 1) = month_of t" "day_of (t + 1) = day_of t + 1"
      by (simp_all add: month_of_def day_of_def mp_def)
    moreover have "day_of t < days_in_month (y + (if month_of t \<le> 2 then 1 else 0)) (month_of t)"
      using mp_cases
    proof cases
      case 12
      then show ?thesis using True assms(2,3) by (auto simp: at_t first_day_def days_in_month_def)
    qed (use True in \<open>simp add: at_t first_day_def days_in_month_def\<close>)+
    ultimately show ?thesis unfolding date_of_def next_day_def by simp
  next
    case False
    then have e: "t + 1 = first_day (mp + 1)" using rng by simp
    have less: "first_day (mp + 1) < first_day (2 + mp)" using first_day_le [of "2 + mp" "first_day (mp + 1)"] first_day_le [of "mp + 1" "first_day (mp + 1) - 1"] by simp
    have "(5 * (t + 1) + 2) div 153 = mp + 1"
      using month_iff [of "t + 1" "mp + 1"] e less by simp
    then have next_t: "month_of (t + 1) = (if mp + 1 < 10 then mp + 1 + 3 else mp + 1 - 9)" "day_of (t + 1) = 1"
      using e by (simp_all add: month_of_def day_of_def first_day_def)
    have dt: "day_of t = first_day (mp + 1) - first_day mp" using e at_t by simp
    show ?thesis
      using mp_cases
    proof cases
      case 12
      then show ?thesis using e assms(2) by (simp add: first_day_def)
    qed (simp add: date_of_def next_day_def next_t at_t(1) dt days_in_month_def first_day_def)+
  qed
qed

lemma mod_0_iff: "0 < x \<Longrightarrow> x \<le> b \<Longrightarrow> x mod b = 0 \<longleftrightarrow> x = b" for x b :: int
  by (cases "x = b") auto

lemma leap_of_slot:
  assumes "slot c q r t"
  shows "leap (yoe_of c q r + 400 * era + 1) \<longleftrightarrow> leap_slot c q r"
proof -
  have y: "yoe_of c q r + 400 * era + 1 = 4 * (25 * c + q + 100 * era) + (r + 1)"
    "yoe_of c q r + 400 * era + 1 = 100 * (c + 4 * era) + (4 * q + r + 1)"
    "yoe_of c q r + 400 * era + 1 = 400 * era + (100 * c + 4 * q + r + 1)"
    by (simp_all add: yoe_of_def)
  have m4: "(yoe_of c q r + 400 * era + 1) mod 4 = (r + 1) mod 4" unfolding y(1) by (rule mod_mult_self4)
  have m100: "(yoe_of c q r + 400 * era + 1) mod 100 = (4 * q + r + 1) mod 100" unfolding y(2) by (rule mod_mult_self4)
  have m400: "(yoe_of c q r + 400 * era + 1) mod 400 = (100 * c + 4 * q + r + 1) mod 400"
    unfolding y(3) by (rule mod_mult_self4)
  have b: "0 \<le> c" "c \<le> 3" "0 \<le> q" "q \<le> 24" "0 \<le> r" "r \<le> 3" using assms by (simp_all add: slot_def)
  have r4: "(r + 1) mod 4 = 0 \<longleftrightarrow> r = 3"
    using b by (subst mod_0_iff; presburger)
  have r100: "(4 * q + r + 1) mod 100 = 0 \<longleftrightarrow> q = 24 \<and> r = 3"
    using b by (subst mod_0_iff; presburger)
  have r400: "(100 * c + 4 * q + r + 1) mod 400 = 0 \<longleftrightarrow> c = 3 \<and> q = 24 \<and> r = 3"
    using b by (subst mod_0_iff; presburger)
  show ?thesis unfolding leap_def m4 m100 m400 r4 r100 r400 leap_slot_def by auto
qed

lemma next_slot:
  assumes "slot c q r t" and "t = (if leap_slot c q r then 365 else 364)"
  shows "\<exists>era' c' q' r'. slot c' q' r' 0 \<and>
    146097 * era + doe_of c q r t + 1 = 146097 * era' + doe_of c' q' r' 0 \<and>
    yoe_of c q r + 400 * era + 1 = yoe_of c' q' r' + 400 * era'"
proof -
  consider "r < 3" | "r = 3" "q < 24" | "r = 3" "q = 24" "c < 3" | "r = 3" "q = 24" "c = 3"
    using assms(1) unfolding slot_def by linarith
  then show ?thesis
  proof cases
    case 1
    then show ?thesis using assms
      by (intro exI [of _ era] exI [of _ c] exI [of _ q] exI [of _ "r + 1"])
        (simp add: slot_def leap_slot_def doe_of_def yoe_of_def)
  next
    case 2
    then show ?thesis using assms
      by (intro exI [of _ era] exI [of _ c] exI [of _ "q + 1"] exI [of _ 0])
        (simp add: slot_def leap_slot_def doe_of_def yoe_of_def)
  next
    case 3
    then show ?thesis using assms
      by (intro exI [of _ era] exI [of _ "c + 1"] exI [of _ 0])
        (simp add: slot_def leap_slot_def doe_of_def yoe_of_def)
  next
    case 4
    then show ?thesis using assms
      by (intro exI [of _ "era + 1"] exI [of _ 0]) (simp add: slot_def leap_slot_def doe_of_def yoe_of_def)
  qed
qed

lemma year_turns:
  assumes "slot c q r t" and "t = (if leap_slot c q r then 365 else 364)"
    and "leap (y + 1) \<longleftrightarrow> leap_slot c q r"
  shows "date_of (y + 1) 0 = next_day (date_of y t)"
proof -
  have "month_of 364 = 2" "month_of 365 = 2" "day_of 364 = 28" "day_of 365 = 29" "month_of 0 = 3" "day_of 0 = 1"
    by (simp_all add: month_of_def day_of_def)
  then show ?thesis
    using assms(2,3) by (cases "leap_slot c q r") (simp_all add: date_of_def next_day_def days_in_month_def)
qed

lemma civil_next: "civil_from_days (n + 1) = next_day (civil_from_days n)"
proof -
  obtain era c q r t where s: "slot c q r t" and n: "n = 146097 * era + doe_of c q r t - 719468"
    using slot_exists by blast
  define y where "y = yoe_of c q r + 400 * era"
  have l: "leap (y + 1) \<longleftrightarrow> leap_slot c q r" unfolding y_def by (rule leap_of_slot [OF s])
  have now: "civil_from_days n = date_of y t" unfolding n y_def by (rule civil_of_slot [OF s])
  show ?thesis
  proof (cases "t = (if leap_slot c q r then 365 else 364)")
    case True
    obtain era' c' q' r' where s': "slot c' q' r' 0"
      and e: "146097 * era + doe_of c q r t + 1 = 146097 * era' + doe_of c' q' r' 0"
      and y': "y + 1 = yoe_of c' q' r' + 400 * era'"
      using next_slot [OF s True, of era] unfolding y_def by blast
    have "n + 1 = 146097 * era' + doe_of c' q' r' 0 - 719468" using e n by linarith
    then have "civil_from_days (n + 1) = date_of (y + 1) 0" by (simp only: civil_of_slot [OF s'] y')
    then show ?thesis using year_turns [OF s True l] now by simp
  next
    case False
    then have s': "slot c q r (t + 1)" using s by (auto simp: slot_def split: if_splits)
    have "n + 1 = 146097 * era + doe_of c q r (t + 1) - 719468" using n by (simp add: doe_of_def)
    then have "civil_from_days (n + 1) = date_of y (t + 1)" by (simp only: civil_of_slot [OF s'] y_def)
    moreover have "date_of y (t + 1) = next_day (date_of y t)"
      using s s' unfolding slot_def l [symmetric] by (intro date_step) (simp_all split: if_splits)
    ultimately show ?thesis using now by simp
  qed
qed

text \<open>
  The closed-form date of a day number is the proleptic Gregorian calendar: day 0 is
  1970-01-01, and the date of each following day is the next day of the calendar, month lengths and
  leap years included.  So every time printed in a log line is the date that counting days gives.
\<close>
theorem civil_from_days_counts_days:
  "civil_from_days (int n) = (next_day ^^ n) (1970, 1, 1)"
proof (induction n)
  case 0
  have "civil_from_days 0 = (1970, 1, 1)" by code_simp
  then show ?case by simp
next
  case (Suc n)
  have "int (Suc n) = int n + 1" by simp
  then have "civil_from_days (int (Suc n)) = next_day (civil_from_days (int n))" by (simp only: civil_next)
  then show ?case unfolding Suc by simp
qed

end
