(* ===== verification/Slip_Engine.thy ===== *)
theory Slip_Engine
  imports Slip_Scheduler Slip_Net Slip_Calendar
begin

text \<open>
  One sync pass (\<open>src/core/src/engine.rs\<close>): validation, endpoint selection, the wallet's bootstrap,
  the subtree roots and the tip, the ranges with failover to another endpoint, the final
  enhancement.

  The wallet database, the server and the clocks are inputs (the record \<open>engine_env\<close>).  A run is
  still going on, has panicked, or has returned.
\<close>

section \<open>Small pure parts\<close>

definition should_resync :: "nat \<Rightarrow> nat \<Rightarrow> bool" where
  "should_resync last_synced_tip observed_tip \<longleftrightarrow> observed_tip > last_synced_tip"

text \<open>The tip probe of the follow loop: a fresh connection, one call.\<close>

definition probe_tip :: "('n, 'a) engine_config \<Rightarrow> bool \<Rightarrow> string option \<Rightarrow> direct_answer list \<Rightarrow> tor_answer list \<Rightarrow>
    nat call_answer \<Rightarrow> net_state \<Rightarrow> (slipstream_error + nat) option \<times> net_state" where
  "probe_tip cfg tor bad_uri direct_answers tor_answers answer ns =
     (case connect_via (cfg_endpoint cfg) tor MetadataUnique bad_uri direct_answers tor_answers ns of
        (None, ns1) \<Rightarrow> (None, ns1)
      | (Some (Inl e), ns1) \<Rightarrow> (Some (Inl e), ns1)
      | (Some (Inr _), ns1) \<Rightarrow>
          (let (ns2, r) = get_latest_block_height answer ns1 in (Some r, ns2)))"

record 'u sync_outcome =
  so_report :: sync_report
  so_enhance :: enhance_stats
  so_transparent :: 'u
  so_enhance_elapsed :: rat
  so_elapsed :: rat
  so_chain_tip :: nat
  wire_probe_ms :: rat
  wire_switches :: nat
  so_net :: net_totals

definition bound :: "'u sync_outcome \<Rightarrow> string" where
  "bound o' =
     (let fetch_s = fetch_elapsed (so_report o'); scan_s = scan_elapsed (so_report o');
          enhance_s = so_enhance_elapsed o'
      in if fetch_s < 1 \<and> scan_s < 1 \<and> enhance_s < 1 then ''idle''
         else if fetch_s \<ge> scan_s \<and> fetch_s \<ge> enhance_s then ''fetch''
         else if scan_s \<ge> enhance_s then ''scan'' else ''enhance'')"

section \<open>Failover\<close>

definition MAX_WIRE_SWITCHES :: nat where "MAX_WIRE_SWITCHES = 2"

type_synonym probe_net = "endpoint \<Rightarrow> (nat option \<times> (nat \<Rightarrow> nat \<Rightarrow> nat list option) \<times> rat) option option"

definition failover_candidates :: "('n, 'a) engine_config \<Rightarrow> endpoint list \<Rightarrow> endpoint \<Rightarrow>
    endpoint list \<times> endpoint list" where
  "failover_candidates cfg cooled cur =
     (let configured = cfg_endpoint cfg # alternate_endpoints cfg;
          candidates = filter (\<lambda>e. e \<notin> set cooled) configured
      in if candidates = [] then ([], filter (\<lambda>e. e \<noteq> cur) configured) else (cooled, candidates))"

definition failover_choice :: "probe_net \<Rightarrow> endpoint list \<Rightarrow> endpoint option" where
  "failover_choice net candidates =
     (if length candidates = 1 then Some (hd candidates)
      else map_option fst (swap_remove (po_chosen (probe_endpoints net candidates)) candidates))"

text \<open>
  An attempt runs the ranges under a configuration; the probe answers that accompany it are those of
  the re-probe after it collapsed.  The result carries the number of switches.
\<close>

fun failover_loop :: "('n, 'a) engine_config \<Rightarrow>
    ((('n, 'a) engine_config \<Rightarrow> 's \<Rightarrow> 's \<times> (slipstream_error + 'r)) \<times> probe_net) list \<Rightarrow>
    ('n, 'a) engine_config \<Rightarrow> nat \<Rightarrow> endpoint list \<Rightarrow> 's \<Rightarrow>
    's \<times> nat \<times> (slipstream_error + 'r) run" where
  "failover_loop cfg [] acfg switches cooled s = (s, switches, Running)"
| "failover_loop cfg ((attempt, net) # env) acfg switches cooled s =
     (case attempt acfg s of
        (s', Inl (WireCollapse m fl)) \<Rightarrow>
          (let switches = switches + 1;
               (cooled, candidates) = failover_candidates cfg (cooled @ [cfg_endpoint acfg]) (cfg_endpoint acfg)
           in case failover_choice net candidates of
                None \<Rightarrow> (s', switches, Panicked)
              | Some e \<Rightarrow>
                  (let acfg = acfg\<lparr>cfg_endpoint := e\<rparr>;
                       acfg = (if switches \<ge> MAX_WIRE_SWITCHES then acfg\<lparr>wire_failover := False\<rparr> else acfg)
                   in failover_loop cfg env acfg switches cooled s'))
      | (s', r) \<Rightarrow> (s', switches, Returned r))"

section \<open>The pass\<close>

record ('w, 'n, 'a, 'k, 't, 'rs, 'u) engine_env =
  ee_net :: probe_net
  ee_probe_ms :: rat
  ee_open :: "slipstream_error + 'w"
  ee_connect :: "slipstream_error + unit"
  ee_has_account :: "'k \<Rightarrow> 'w \<Rightarrow> slipstream_error + bool"
  ee_tree_state :: "nat \<Rightarrow> slipstream_error + 't"
  ee_import :: "'k \<Rightarrow> 't \<Rightarrow> 'w \<Rightarrow> 'w \<times> (slipstream_error + unit)"
  ee_historic :: "'w \<Rightarrow> slipstream_error + bool"
  ee_next_start :: "'w \<Rightarrow> slipstream_error + subtree_root_start"
  ee_roots :: "subtree_root_start \<Rightarrow> progress option \<Rightarrow> progress option \<times> (slipstream_error + 'rs)"
  ee_put_roots :: "subtree_root_start \<Rightarrow> 'rs \<Rightarrow> 'w \<Rightarrow> 'w \<times> (slipstream_error + unit)"
  ee_tip :: "slipstream_error + nat"
  ee_update_tip :: "nat \<Rightarrow> 'w \<Rightarrow> 'w \<times> (slipstream_error + unit)"
  ee_utxos :: "'w \<times> progress option \<Rightarrow> ('w \<times> progress option) \<times> (slipstream_error + 'u)"
  ee_attempts :: "((('n, 'a) engine_config \<Rightarrow> 'w \<times> progress option \<Rightarrow>
     ('w \<times> progress option) \<times> (slipstream_error + sync_report)) \<times> probe_net) list"
  ee_enhance :: "'w \<times> progress option \<Rightarrow> ('w \<times> progress option) \<times> (slipstream_error + enhance_stats) \<times> rat"
  ee_net_delta :: net_totals
  ee_now :: nat
  ee_elapsed :: rat

text \<open>Each account the wallet does not track yet is imported at the tree state below its birthday.\<close>

fun bootstrap :: "('w, 'n, 'a, 'k, 't, 'rs, 'u) engine_env \<Rightarrow> ('k \<times> nat) list \<Rightarrow> 'w \<times> progress option \<Rightarrow>
    ('w \<times> progress option) \<times> (slipstream_error + unit)" where
  "bootstrap env [] (w, p) = ((w, p), Inr ())"
| "bootstrap env ((key, birthday) # accounts) (w, p) =
     (case ee_has_account env key w of
        Inl e \<Rightarrow> ((w, p), Inl e)
      | Inr True \<Rightarrow> bootstrap env accounts (w, p)
      | Inr False \<Rightarrow>
          (case ee_tree_state env (birthday - 1) of
             Inl e \<Rightarrow> ((w, p), Inl e)
           | Inr ts \<Rightarrow>
               (let p = map_option (touch (ee_now env)) p
                in case ee_import env key ts w of
                     (w', Inl e) \<Rightarrow> ((w', p), Inl e)
                   | (w', Inr _) \<Rightarrow> bootstrap env accounts (w', p))))"

definition roots_start :: "('w, 'n, 'a, 'k, 't, 'rs, 'u) engine_env \<Rightarrow> 'w \<Rightarrow> slipstream_error + subtree_root_start" where
  "roots_start env w =
     (case ee_historic env w of
        Inl e \<Rightarrow> Inl e
      | Inr True \<Rightarrow> Inr \<lparr>rs_sapling = 0, rs_orchard = 0, rs_ironwood = 0\<rparr>
      | Inr False \<Rightarrow> ee_next_start env w)"

text \<open>The preflight: subtree roots, tip, transparent outputs.\<close>

definition preflight :: "('w, 'n, 'a, 'k, 't, 'rs, 'u) engine_env \<Rightarrow> 'w \<times> progress option \<Rightarrow>
    ('w \<times> progress option) \<times> (slipstream_error + nat \<times> 'u)" where
  "preflight env s =
     (let (w, p) = s; now = ee_now env
      in case roots_start env w of
           Inl e \<Rightarrow> ((w, p), Inl e)
         | Inr start \<Rightarrow>
             (case ee_roots env start p of
                (p, Inl e) \<Rightarrow> ((w, p), Inl e)
              | (p, Inr roots) \<Rightarrow>
                  (let p = map_option (touch now) p
                   in case ee_put_roots env start roots w of
                        (w, Inl e) \<Rightarrow> ((w, p), Inl e)
                      | (w, Inr _) \<Rightarrow>
                          (case ee_tip env of
                             Inl e \<Rightarrow> ((w, p), Inl e)
                           | Inr tip \<Rightarrow>
                               (let p = map_option (touch now) p
                                in case ee_update_tip env tip w of
                                     (w, Inl e) \<Rightarrow> ((w, p), Inl e)
                                   | (w, Inr _) \<Rightarrow>
                                       (let p = map_option (\<lambda>q. note_tip_refreshed (set_chain_tip tip q)) p
                                        in case ee_utxos env (w, p) of
                                             ((w, p), Inl e) \<Rightarrow> ((w, p), Inl e)
                                           | ((w, p), Inr u) \<Rightarrow>
                                               ((w, map_option (touch now) p), Inr (tip, u))))))))"

text \<open>From the failover loop on: the ranges, the final enhancement, the outcome.\<close>

definition run_ranges :: "('w, 'n, 'a, 'k, 't, 'rs, 'u) engine_env \<Rightarrow> ('n, 'a) engine_config \<Rightarrow> bool \<Rightarrow> nat \<Rightarrow> 'u \<Rightarrow>
    'w \<times> progress option \<Rightarrow> ('w \<times> progress option) \<times> (slipstream_error + 'u sync_outcome) run" where
  "run_ranges env cfg tor tip u s =
     (let acfg = (if tor then cfg\<lparr>wire_failover := False\<rparr> else cfg);
          (s1, switches, r) = failover_loop cfg (ee_attempts env) acfg 0 [] s
      in case r of
           Running \<Rightarrow> (s1, Running)
         | Panicked \<Rightarrow> (s1, Panicked)
         | Returned (Inl e) \<Rightarrow> (s1, Returned (Inl e))
         | Returned (Inr report) \<Rightarrow>
             (let (s2, er, el) = ee_enhance env s1
              in case er of
                   Inl e \<Rightarrow> (s2, Returned (Inl e))
                 | Inr es \<Rightarrow>
                     (let enh = enhance_add (rp_enhance report) es;
                          out = \<lparr>so_report = report\<lparr>rp_enhance := enh\<rparr>, so_enhance = enh, so_transparent = u,
                                 so_enhance_elapsed = enhance_elapsed report + el, so_elapsed = ee_elapsed env,
                                 so_chain_tip = tip, wire_probe_ms = ee_probe_ms env, wire_switches = switches,
                                 so_net = ee_net_delta env\<rparr>
                      in ((fst s2, map_option note_pass_completed (snd s2)), Returned (Inr out)))))"

text \<open>\<open>w0\<close> is the wallet file before the pass opens it.\<close>

definition sync_once :: "('w, 'n, 'a, 'k, 't, 'rs, 'u) engine_env \<Rightarrow> ('n, 'a) engine_config \<Rightarrow> ('k \<times> nat) list \<Rightarrow> bool \<Rightarrow>
    'w \<Rightarrow> progress option \<Rightarrow> ('w \<times> progress option) \<times> (slipstream_error + 'u sync_outcome) run" where
  "sync_once env config accounts tor w0 p =
     (case validate config of
        Inl e \<Rightarrow> ((w0, p), Returned (Inl e))
      | Inr _ \<Rightarrow>
          if (\<exists>a \<in> set accounts. snd a = 0)
          then ((w0, p), Returned (Inl (Config ''birthday must be >= 1 (height 0 is not a valid wallet birthday)'')))
          else (let p = map_option (begin_pass (ee_now env)) p
                in case with_selected_endpoint (ee_net env) tor config of
                     None \<Rightarrow> ((w0, p), Panicked)
                   | Some cfg \<Rightarrow>
                       (case ee_open env of
                          Inl e \<Rightarrow> ((w0, p), Returned (Inl e))
                        | Inr w \<Rightarrow>
                            (case ee_connect env of
                               Inl e \<Rightarrow> ((w, p), Returned (Inl e))
                             | Inr _ \<Rightarrow>
                                 (case bootstrap env accounts (w, p) of
                                    (s, Inl e) \<Rightarrow> (s, Returned (Inl e))
                                  | (s, Inr _) \<Rightarrow>
                                      (case preflight env s of
                                         (s, Inl e) \<Rightarrow> (s, Returned (Inl e))
                                       | (s, Inr (tip, u)) \<Rightarrow> run_ranges env cfg tor tip u s))))))"

section \<open>Failing over\<close>

text \<open>
  What the scheduler and the fetch give the engine: a run whose detector is disarmed never ends in a
  wire collapse.
\<close>

definition disarmed_ok :: "(('n, 'a) engine_config \<Rightarrow> 's \<Rightarrow> 's \<times> (slipstream_error + 'r)) \<Rightarrow> bool" where
  "disarmed_ok attempt \<longleftrightarrow>
     (\<forall>c s m f. snd (attempt c s) = Inl (WireCollapse m f) \<longrightarrow> wire_failover c \<and> alternate_endpoints c \<noteq> [])"

definition has_other_endpoint :: "('n, 'a) engine_config \<Rightarrow> bool" where
  "has_other_endpoint cfg \<longleftrightarrow> (\<exists>e \<in> set (alternate_endpoints cfg). e \<noteq> cfg_endpoint cfg)"

lemma swap_remove_some: "i < length xs \<Longrightarrow> swap_remove i xs = Some (xs ! i, butlast (xs[i := last xs]))"
  by (simp add: swap_remove_def)

lemma chosen_less: "es \<noteq> [] \<Longrightarrow> po_chosen (probe_endpoints net es) < length es"
  using rank_less [of "po_results (probe_endpoints net es)"]
  by (simp add: probe_endpoints_def Let_def)

lemma failover_choice_some:
  "candidates \<noteq> [] \<Longrightarrow> \<exists>e \<in> set candidates. failover_choice net candidates = Some e"
  using chosen_less [of candidates net] nth_mem [OF chosen_less [of candidates net]]
  by (auto simp: failover_choice_def swap_remove_def)

lemma failover_candidates_ok:
  assumes "has_other_endpoint cfg" and "cur \<in> set cooled"
    and "failover_candidates cfg cooled cur = (cooled', candidates)"
  shows "candidates \<noteq> [] \<and> (\<forall>e \<in> set candidates. e \<noteq> cur \<and> e \<in> set (cfg_endpoint cfg # alternate_endpoints cfg))"
proof -
  let ?conf = "cfg_endpoint cfg # alternate_endpoints cfg"
  obtain e where "e \<in> set ?conf" "e \<noteq> cur" using assms(1) unfolding has_other_endpoint_def
    by (metis list.set_intros(1) list.set_intros(2))
  then have "filter (\<lambda>e. e \<noteq> cur) ?conf \<noteq> []" by (metis (mono_tags, lifting) filter_empty_conv)
  then show ?thesis using assms(2,3) by (auto simp: failover_candidates_def Let_def split: if_splits)
qed

lemma failover_step:
  assumes "attempt acfg s = (s', Inl (WireCollapse m f))" and "has_other_endpoint cfg"
  obtains cooled' e where "e \<noteq> cfg_endpoint acfg" "e \<in> set (cfg_endpoint cfg # alternate_endpoints cfg)"
    "failover_loop cfg ((attempt, net) # env) acfg switches cooled s =
       failover_loop cfg env (if switches + 1 \<ge> 2 then acfg\<lparr>cfg_endpoint := e, wire_failover := False\<rparr>
         else acfg\<lparr>cfg_endpoint := e\<rparr>) (switches + 1) cooled' s'"
proof -
  obtain cooled' candidates where c: "failover_candidates cfg (cooled @ [cfg_endpoint acfg]) (cfg_endpoint acfg) = (cooled', candidates)"
    by (cases "failover_candidates cfg (cooled @ [cfg_endpoint acfg]) (cfg_endpoint acfg)")
  have ok: "candidates \<noteq> []" "\<forall>e \<in> set candidates. e \<noteq> cfg_endpoint acfg \<and> e \<in> set (cfg_endpoint cfg # alternate_endpoints cfg)"
    using failover_candidates_ok [OF assms(2) _ c] by auto
  then obtain e where "e \<in> set candidates" "failover_choice net candidates = Some e"
    using failover_choice_some by blast
  then show thesis using ok c assms(1)
    by (intro that [of e cooled']) (simp_all add: Let_def MAX_WIRE_SWITCHES_def)
qed

lemma failover_loop_ends:
  assumes "has_other_endpoint cfg" and "\<forall>a \<in> set env. disarmed_ok (fst a)"
    and "switches \<le> 2" and "switches = 2 \<longrightarrow> \<not> wire_failover acfg" and "3 - switches \<le> length env"
  shows "\<exists>s' n r. failover_loop cfg env acfg switches cooled s = (s', n, Returned r) \<and> n \<le> 2 \<and>
    (\<forall>m f. r \<noteq> Inl (WireCollapse m f))"
  using assms(2-5)
proof (induction env arbitrary: acfg switches cooled s)
  case (Cons a env)
  obtain attempt net where a: "a = (attempt, net)" by (cases a)
  obtain s' r where at': "attempt acfg s = (s', r)" by (cases "attempt acfg s")
  show ?case
  proof (cases "\<exists>m f. r = Inl (WireCollapse m f)")
    case True
    then obtain m f where r: "r = Inl (WireCollapse m f)" by blast
    have "wire_failover acfg" using Cons.prems(1) at' r unfolding a disarmed_ok_def
      by (metis fst_conv list.set_intros(1) snd_conv)
    then have sw: "switches < 2" using Cons.prems(2,3) by (metis le_neq_implies_less)
    obtain cooled' e where step: "failover_loop cfg ((attempt, net) # env) acfg switches cooled s =
        failover_loop cfg env (if switches + 1 \<ge> 2 then acfg\<lparr>cfg_endpoint := e, wire_failover := False\<rparr>
          else acfg\<lparr>cfg_endpoint := e\<rparr>) (switches + 1) cooled' s'"
      by (rule failover_step [where attempt = attempt and acfg = acfg and s = s, OF at' [unfolded r] assms(1)])
    show ?thesis unfolding a step by (rule Cons.IH) (use Cons.prems sw in auto)
  next
    case False
    then have "failover_loop cfg (a # env) acfg switches cooled s = (s', switches, Returned r)"
      unfolding a using at' by (auto split: sum.splits slipstream_error.splits)
    then show ?thesis using Cons.prems(2) False by blast
  qed
qed simp

text \<open>
  Failover ends: with an alternate that differs from the endpoint of the pass, the ranges are run at
  most three times, with two switches at most, each to another configured endpoint; the loop never
  panics and never returns a wire collapse.
\<close>

theorem failover_ends:
  assumes "has_other_endpoint cfg" and "\<forall>a \<in> set env. disarmed_ok (fst a)" and "3 \<le> length env"
  shows "\<exists>s' n r. failover_loop cfg env cfg 0 [] s = (s', n, Returned r) \<and> n \<le> 2 \<and>
    (\<forall>m f. r \<noteq> Inl (WireCollapse m f))"
  by (rule failover_loop_ends [OF assms(1,2)]) (use assms(3) in auto)

definition host_a :: endpoint where "host_a = \<lparr>ep_host = ''a'', ep_port = 443, ep_tls = True\<rparr>"
definition host_b :: endpoint where "host_b = \<lparr>ep_host = ''b'', ep_port = 443, ep_tls = True\<rparr>"

definition two_hosts :: "(unit, unit) engine_config" where
  "two_hosts = (config_new () ''w'' host_a)\<lparr>alternate_endpoints := [host_b]\<rparr>"

text \<open>An attempt that collapses whenever it is armed; a network where only \<open>host_b\<close> answers.\<close>

definition weak_wire :: "(unit, unit) engine_config \<Rightarrow> nat \<Rightarrow> nat \<times> (slipstream_error + unit)" where
  "weak_wire c n = (n + 1, if wire_failover c \<and> alternate_endpoints c \<noteq> [] then Inl (WireCollapse 0 1) else Inr ())"

definition only_b :: probe_net where
  "only_b e = (if e = host_b then Some (Some (Some 100, \<lambda>a b. Some [1048576], 1)) else Some None)"

lemma weak_wire_ok: "disarmed_ok weak_wire"
  by (simp add: disarmed_ok_def weak_wire_def)

theorem failover_ends_witness:
  "\<exists>s' n r. failover_loop two_hosts (replicate 3 (weak_wire, only_b)) two_hosts 0 [] 0 = (s', n, Returned r) \<and> n \<le> 2"
proof -
  have "has_other_endpoint two_hosts" by (simp add: has_other_endpoint_def two_hosts_def config_new_def host_a_def host_b_def)
  from failover_ends [OF this, of "replicate 3 (weak_wire, only_b)" 0] weak_wire_ok show ?thesis by fastforce
qed


section \<open>Tor passes\<close>

definition with_probes :: "probe_net \<Rightarrow> ('w, 'n, 'a, 'k, 't, 'rs, 'u) engine_env \<Rightarrow> ('w, 'n, 'a, 'k, 't, 'rs, 'u) engine_env" where
  "with_probes net env = env\<lparr>ee_net := net, ee_attempts := map (\<lambda>(a, _). (a, net)) (ee_attempts env)\<rparr>"

lemma with_probes_sel [simp]:
  "ee_now (with_probes net env) = ee_now env" "ee_open (with_probes net env) = ee_open env"
  "ee_connect (with_probes net env) = ee_connect env" "ee_enhance (with_probes net env) = ee_enhance env"
  "ee_elapsed (with_probes net env) = ee_elapsed env" "ee_probe_ms (with_probes net env) = ee_probe_ms env"
  "ee_net_delta (with_probes net env) = ee_net_delta env"
  "ee_attempts (with_probes net env) = map (\<lambda>(a, _). (a, net)) (ee_attempts env)"
  by (simp_all add: with_probes_def)

lemma bootstrap_with_probes: "bootstrap (with_probes net env) accounts s = bootstrap env accounts s"
proof (induction accounts arbitrary: s)
  case Nil
  then show ?case by (cases s) simp
next
  case (Cons a accounts)
  then show ?case by (cases a; cases s) (simp add: with_probes_def split: sum.split bool.split prod.split)
qed

lemma preflight_with_probes: "preflight (with_probes net env) s = preflight env s"
  by (simp add: preflight_def roots_start_def with_probes_def cong: sum.case_cong bool.case_cong)

lemma disarmed_loop:
  "\<forall>a \<in> set env. disarmed_ok (fst a) \<Longrightarrow> \<not> wire_failover acfg \<Longrightarrow>
     failover_loop cfg (map (\<lambda>(a, _). (a, net)) env) acfg n cooled s = failover_loop cfg env acfg n cooled s"
proof (cases env)
  case (Cons a env')
  assume ok: "\<forall>a \<in> set env. disarmed_ok (fst a)" and off: "\<not> wire_failover acfg"
  obtain attempt net' where a: "a = (attempt, net')" by (cases a)
  obtain s' r where at': "attempt acfg s = (s', r)" by (cases "attempt acfg s")
  have "\<nexists>m f. r = Inl (WireCollapse m f)" using ok off at' unfolding Cons a disarmed_ok_def
    by (metis fst_conv list.set_intros(1) snd_conv)
  then show ?thesis using at' unfolding Cons a by (auto split: sum.splits slipstream_error.splits)
qed simp

text \<open>
  A pass over Tor never consults the probe, which would dial directly: whatever the probes would
  have answered, before the pass or during a failover, the pass is the same, and it runs on the
  configured endpoint with the detector disarmed.
\<close>

theorem tor_pass_never_probes:
  assumes "\<forall>a \<in> set (ee_attempts env). disarmed_ok (fst a)"
  shows "sync_once (with_probes net env) config accounts True w p = sync_once env config accounts True w p"
proof -
  have sel: "with_selected_endpoint n True config = Some config" for n
    by (simp add: with_selected_endpoint_def)
  have eq: "run_ranges (with_probes net env) config True tip u s = run_ranges env config True tip u s" for tip u s
    using disarmed_loop [OF assms, of "config\<lparr>wire_failover := False\<rparr>" config net 0 "[]" s]
    unfolding run_ranges_def with_probes_sel by simp
  show ?thesis
    unfolding sync_once_def sel bootstrap_with_probes preflight_with_probes with_probes_sel option.case eq ..
qed

definition quiet_env :: "(nat, unit, unit, unit, unit, unit, unit) engine_env" where
  "quiet_env = \<lparr>ee_net = only_b, ee_probe_ms = 0, ee_open = Inr 0, ee_connect = Inr (),
     ee_has_account = (\<lambda>k w. Inr True), ee_tree_state = (\<lambda>h. Inr ()), ee_import = (\<lambda>k t w. (w, Inr ())),
     ee_historic = (\<lambda>w. Inr True), ee_next_start = (\<lambda>w. Inl Stopped), ee_roots = (\<lambda>st p. (p, Inr ())),
     ee_put_roots = (\<lambda>st r w. (w, Inr ())), ee_tip = Inr 100, ee_update_tip = (\<lambda>t w. (w, Inr ())),
     ee_utxos = (\<lambda>s. (s, Inr ())), ee_attempts = [(\<lambda>c s. (s, if wire_failover c \<and> alternate_endpoints c \<noteq> []
       then Inl (WireCollapse 0 1) else Inr sync_report_default), only_b)],
     ee_enhance = (\<lambda>s. (s, Inr enhance_stats_default, 0)), ee_net_delta = ns_totals net_start, ee_now = 5,
     ee_elapsed = 1\<rparr>"

theorem tor_pass_never_probes_witness:
  "sync_once (with_probes (\<lambda>e. None) quiet_env) two_hosts [] True 0 None = sync_once quiet_env two_hosts [] True 0 None"
  by (rule tor_pass_never_probes) (simp add: quiet_env_def disarmed_ok_def)

section \<open>What a pass guarantees\<close>

text \<open>
  A pass checks its configuration and every birthday before it does anything: a bad one is a
  configuration error with the wallet and the progress untouched.  A pass that completes has a
  valid configuration, has proved the tip it returns, and has cleared every download failure.
\<close>

lemma run_ranges_completed:
  assumes "run_ranges env cfg tor tip u s = ((w', p'), Returned (Inr out))"
  shows "so_chain_tip out = tip \<and> (\<exists>q. p' = map_option note_pass_completed q)"
  using assms
  by (auto simp: run_ranges_def Let_def split: prod.splits run.splits sum.splits)

lemma begin_pass_sel [simp]: "tip_refreshes (begin_pass now p) = tip_refreshes p"
  by (simp add: begin_pass_def touch_def)

theorem pass_guards:
  "(validate config \<noteq> Inr () \<or> (\<exists>a \<in> set accounts. snd a = 0) \<longrightarrow>
      (\<exists>m. sync_once env config accounts tor w p = ((w, p), Returned (Inl (Config m))))) \<and>
   (\<forall>w' p' out. sync_once env config accounts tor w p = ((w', p'), Returned (Inr out)) \<longrightarrow>
      config_ok config \<and> (\<forall>a \<in> set accounts. 0 < snd a) \<and> ee_tip env = Inr (so_chain_tip out) \<and>
      (\<forall>q. p' = Some q \<longrightarrow> download_failures q = []))"
proof (intro conjI impI allI)
  assume bad: "validate config \<noteq> Inr () \<or> (\<exists>a \<in> set accounts. snd a = 0)"
  show "\<exists>m. sync_once env config accounts tor w p = ((w, p), Returned (Inl (Config m)))"
  proof (cases "validate config")
    case (Inl e)
    then show ?thesis using validate_config_error [OF Inl] by (auto simp: sync_once_def)
  next
    case (Inr u)
    then show ?thesis using bad by (auto simp: sync_once_def)
  qed
next
  fix w' p' out
  assume run: "sync_once env config accounts tor w p = ((w', p'), Returned (Inr out))"
  have valid: "validate config = Inr ()" using run by (auto simp: sync_once_def split: sum.splits)
  then show "config_ok config" by (simp add: validate_iff)
  have birthdays: "\<not> (\<exists>a \<in> set accounts. snd a = 0)"
    using run valid by (auto simp: sync_once_def split: if_splits)
  then show "\<forall>a \<in> set accounts. 0 < snd a" by auto
  obtain cfg s tip u s0 where pre: "preflight env s0 = (s, Inr (tip, u))"
    and ranges: "run_ranges env cfg tor tip u s = ((w', p'), Returned (Inr out))"
    using run valid birthdays
    by (auto simp: sync_once_def Let_def split: option.splits sum.splits prod.splits)
  have "ee_tip env = Inr tip"
    using pre by (auto simp: preflight_def Let_def split: prod.splits sum.splits)
  then show "ee_tip env = Inr (so_chain_tip out)" using run_ranges_completed [OF ranges] by simp
  show "download_failures q = []" if "p' = Some q" for q
    using run_ranges_completed [OF ranges] that
    by (auto simp: note_pass_completed_def clear_download_failures_def dest!: sym [of "Some q"])
qed

theorem pass_guards_witness:
  "\<exists>m. sync_once quiet_env two_hosts [((), 0)] False 3 None = ((3, None), Returned (Inl (Config m)))"
  using pass_guards [of two_hosts "[((), 0)]" quiet_env False 3 None] by simp

end
