(* ===== verification/Slip_Enhance.thy ===== *)
theory Slip_Enhance
  imports Slip_Stats Slip_Net "HOL-Library.Multiset"
begin

text \<open>
  Enhancement (\<open>src/core/src/enhance.rs\<close>): the wallet's requests for transaction data, answered in up
  to three rounds over a connection that is opened on first use; and the refresh of transparent
  outputs (\<open>src/core/src/transparent.rs\<close>).

  The wallet database is a record of operations; the transaction format is another crate's.  Fetches
  of a round run concurrently: the order in which their answers arrive is an input.  Heights are
  below \<open>2 ^ 32 - 1\<close>.
\<close>

section \<open>Requests and the wallet\<close>

datatype tx_status = TxidNotRecognized | NotInMainChain | Mined nat

datatype tx_status_filter = FilterMined | FilterMempool | FilterAll

record address_request =
  ta_address :: string
  ta_start :: nat
  ta_end :: "nat option"
  ta_request_at :: bool
  ta_unspent_only :: bool
  ta_filter :: tx_status_filter

datatype 'id data_request = GetStatus 'id | Enhancement 'id | InvolvingAddress address_request

record 'd raw_tx =
  raw_data :: 'd
  raw_height :: nat

record ('w, 'id, 'd, 'tx) enhance_ops =
  eo_requests :: "'w \<Rightarrow> string + 'id data_request list"
  eo_set_status :: "'id \<Rightarrow> tx_status \<Rightarrow> 'w \<Rightarrow> 'w \<times> (string + unit)"
  eo_parse :: "'d \<Rightarrow> string + 'tx"
  eo_store :: "'tx \<Rightarrow> nat option \<Rightarrow> 'w \<Rightarrow> 'w \<times> (string + unit)"
  eo_chain_height :: "'w \<Rightarrow> string + nat option"
  eo_notify_checked :: "address_request \<Rightarrow> nat \<Rightarrow> 'w \<Rightarrow> 'w \<times> (string + unit)"

text \<open>The state of a run: the wallet, the progress, the statistics, the skip keys, the connection.\<close>

record 'w enhance_run =
  en_wallet :: 'w
  en_progress :: "progress option"
  en_stats :: enhance_stats
  en_skipped :: "string set"
  en_client :: "unit option"

text \<open>What the world does during a round.\<close>

record ('id, 'd) round_env =
  re_connect :: "slipstream_error + unit"
  re_arrivals :: "('id \<times> bool) list \<Rightarrow> ('id \<times> bool) list"
  re_answer :: "'id \<Rightarrow> (status + 'd raw_tx) option"
  re_now :: "'id \<Rightarrow> nat"
  re_history :: "address_request \<Rightarrow> 'd raw_tx message list call_answer"
  re_address_now :: "address_request \<Rightarrow> nat"
  re_fetch_wait :: rat
  re_store :: rat
  re_address :: rat

section \<open>Transactions by id\<close>

definition mined_height_of :: "'d raw_tx \<Rightarrow> nat option" where
  "mined_height_of raw = (if 0 < raw_height raw \<and> raw_height raw \<le> u32_max then Some (raw_height raw) else None)"

definition note_stored :: "nat \<Rightarrow> 'w enhance_run \<Rightarrow> 'w enhance_run" where
  "note_stored now st = st\<lparr>en_stats := (en_stats st)\<lparr>es_txs_stored := es_txs_stored (en_stats st) + 1\<rparr>,
     en_progress := map_option (\<lambda>p. bump_tx_set_version now (add_enhanced 1 now p)) (en_progress st)\<rparr>"

definition note_status :: "'w enhance_run \<Rightarrow> 'w enhance_run" where
  "note_status st = st\<lparr>en_stats := (en_stats st)\<lparr>es_statuses_set := es_statuses_set (en_stats st) + 1\<rparr>\<rparr>"

text \<open>Reading and storing one transaction; \<open>tag\<close> tells the two callers' messages apart.\<close>

definition store_raw :: "('w, 'id, 'd, 'tx) enhance_ops \<Rightarrow> string \<Rightarrow> nat \<Rightarrow> 'd raw_tx \<Rightarrow> 'w enhance_run \<Rightarrow>
    'w enhance_run \<times> (slipstream_error + unit)" where
  "store_raw ops tag now raw st =
     (case eo_parse ops (raw_data raw) of
        Inl m \<Rightarrow> (st, Inl (Wallet (''tx parse'' @ tag @ '': '' @ m)))
      | Inr tx \<Rightarrow>
          (case eo_store ops tx (mined_height_of raw) (en_wallet st) of
             (w, Inl m) \<Rightarrow> (st\<lparr>en_wallet := w\<rparr>, Inl (Wallet (''decrypt_and_store'' @ tag @ '': '' @ m)))
           | (w, Inr _) \<Rightarrow> (note_stored now (st\<lparr>en_wallet := w\<rparr>), Inr ())))"

definition apply_txid_fetch :: "('w, 'id, 'd, 'tx) enhance_ops \<Rightarrow> 'id \<Rightarrow> bool \<Rightarrow> slipstream_error + 'd raw_tx option \<Rightarrow>
    nat \<Rightarrow> 'w enhance_run \<Rightarrow> 'w enhance_run \<times> (slipstream_error + unit)" where
  "apply_txid_fetch ops txid want_enhance fetched now st =
     (case fetched of
        Inl err \<Rightarrow> (st, Inl err)
      | Inr None \<Rightarrow>
          (case eo_set_status ops txid TxidNotRecognized (en_wallet st) of
             (w, Inl m) \<Rightarrow> (st\<lparr>en_wallet := w\<rparr>, Inl (Wallet (''set_transaction_status TxidNotRecognized: '' @ m)))
           | (w, Inr _) \<Rightarrow> (note_status (st\<lparr>en_wallet := w\<rparr>), Inr ()))
      | Inr (Some raw) \<Rightarrow>
          if want_enhance then store_raw ops '''' now raw st
          else (case eo_set_status ops txid
                       (case mined_height_of raw of Some h \<Rightarrow> Mined h | None \<Rightarrow> NotInMainChain) (en_wallet st) of
                  (w, Inl m) \<Rightarrow> (st\<lparr>en_wallet := w\<rparr>, Inl (Wallet (''set_transaction_status: '' @ m)))
                | (w, Inr _) \<Rightarrow>
                    ((note_status (st\<lparr>en_wallet := w\<rparr>))
                       \<lparr>en_progress := map_option (bump_tx_set_version now) (en_progress st)\<rparr>, Inr ())))"

section \<open>Address histories\<close>

definition effective_range_end :: "nat option \<Rightarrow> nat \<Rightarrow> nat" where
  "effective_range_end block_range_end chain_height =
     (case block_range_end of Some h \<Rightarrow> h | None \<Rightarrow> chain_height + 1)"

definition skip :: "string \<Rightarrow> 'w enhance_run \<Rightarrow> 'w enhance_run" where
  "skip key st = (if key \<in> en_skipped st then st
     else st\<lparr>en_skipped := insert key (en_skipped st),
             en_stats := (en_stats st)\<lparr>es_skipped := es_skipped (en_stats st) + 1\<rparr>\<rparr>)"

definition range_key :: "address_request \<Rightarrow> nat \<Rightarrow> string \<Rightarrow> string" where
  "range_key tia end' tag = ta_address tia @ '':'' @ nat_str (ta_start tia) @ ''-'' @ nat_str end' @ '':'' @ tag"

definition wants :: "tx_status_filter \<Rightarrow> 'd raw_tx \<Rightarrow> bool" where
  "wants f raw = (case f of
       FilterMined \<Rightarrow> mined_height_of raw \<noteq> None
     | FilterMempool \<Rightarrow> mined_height_of raw = None
     | FilterAll \<Rightarrow> True)"

fun store_history :: "('w, 'id, 'd, 'tx) enhance_ops \<Rightarrow> tx_status_filter \<Rightarrow> nat \<Rightarrow> 'd raw_tx list \<Rightarrow> 'w enhance_run \<Rightarrow>
    'w enhance_run \<times> (slipstream_error + unit)" where
  "store_history ops f now [] st = (st, Inr ())"
| "store_history ops f now (raw # raws) st =
     (if \<not> wants f raw then store_history ops f now raws st
      else case store_raw ops '' (taddr)'' now raw st of
             (st1, Inl e) \<Rightarrow> (st1, Inl e)
           | (st1, Inr _) \<Rightarrow> store_history ops f now raws st1)"

text \<open>Past the guards: the history of the address from the server.\<close>

definition fetch_history :: "('w, 'id, 'd, 'tx) enhance_ops \<Rightarrow> ('id, 'd) round_env \<Rightarrow> address_request \<Rightarrow> nat \<Rightarrow>
    'w enhance_run \<Rightarrow> 'w enhance_run \<times> (slipstream_error + unit)" where
  "fetch_history ops env tia end' st =
     (case lazy_get (en_client st) (re_connect env) of
        (c, Inl e) \<Rightarrow> (st\<lparr>en_client := c\<rparr>, Inl e)
      | (c, Inr _) \<Rightarrow>
          (let now = re_address_now env tia
           in case taddress_txids (re_history env tia) (en_progress st) of
                (p, Inl e) \<Rightarrow> (st\<lparr>en_client := c, en_progress := p\<rparr>, Inl (Wallet (''get_taddress_txids: '' @ display_error e)))
              | (p, Inr raws) \<Rightarrow>
                  (case store_history ops (ta_filter tia) now raws
                          (st\<lparr>en_client := c, en_progress := map_option (touch now) p\<rparr>) of
                     (st1, Inl e) \<Rightarrow> (st1, Inl e)
                   | (st1, Inr _) \<Rightarrow>
                       (case eo_notify_checked ops tia (end' - 1) (en_wallet st1) of
                          (w, Inl m) \<Rightarrow> (st1\<lparr>en_wallet := w\<rparr>, Inl (Wallet (''notify_address_checked: '' @ m)))
                        | (w, Inr _) \<Rightarrow> (st1\<lparr>en_wallet := w\<rparr>, Inr ())))))"

definition apply_address_request :: "('w, 'id, 'd, 'tx) enhance_ops \<Rightarrow> ('id, 'd) round_env \<Rightarrow> address_request \<Rightarrow>
    'w enhance_run \<Rightarrow> 'w enhance_run \<times> (slipstream_error + unit)" where
  "apply_address_request ops env tia st =
     (case (case ta_end tia of
              Some h \<Rightarrow> Inr (Some h)
            | None \<Rightarrow> (case eo_chain_height ops (en_wallet st) of
                         Inl m \<Rightarrow> Inl (Wallet (''chain_height for open-range clamp: '' @ m))
                       | Inr None \<Rightarrow> Inr None
                       | Inr (Some tip) \<Rightarrow> Inr (Some (effective_range_end None tip)))) of
        Inl e \<Rightarrow> (st, Inl e)
      | Inr None \<Rightarrow> (skip (ta_address tia @ '':open-no-tip'') st, Inr ())
      | Inr (Some end') \<Rightarrow>
          if ta_request_at tia then (skip (range_key tia end' ''request_at'') st, Inr ())
          else if ta_unspent_only tia then (skip (range_key tia end' ''unspent'') st, Inr ())
          else fetch_history ops env tia end' st)"

section \<open>A run\<close>

text \<open>The requests of a round: the fetches to make, taking a handle on the connection for each, and the addresses.\<close>

fun sort_requests :: "('id, 'd) round_env \<Rightarrow> 'id data_request list \<Rightarrow> unit option \<Rightarrow>
    unit option \<times> (slipstream_error + ('id \<times> bool) list \<times> address_request list)" where
  "sort_requests env [] c = (c, Inr ([], []))"
| "sort_requests env (InvolvingAddress tia # reqs) c =
     (case sort_requests env reqs c of
        (c', Inl e) \<Rightarrow> (c', Inl e)
      | (c', Inr (pending, tias)) \<Rightarrow> (c', Inr (pending, tia # tias)))"
| "sort_requests env (GetStatus txid # reqs) c =
     (case lazy_get c (re_connect env) of
        (c1, Inl e) \<Rightarrow> (c1, Inl e)
      | (c1, Inr _) \<Rightarrow>
          (case sort_requests env reqs c1 of
             (c', Inl e) \<Rightarrow> (c', Inl e)
           | (c', Inr (pending, tias)) \<Rightarrow> (c', Inr ((txid, False) # pending, tias))))"
| "sort_requests env (Enhancement txid # reqs) c =
     (case lazy_get c (re_connect env) of
        (c1, Inl e) \<Rightarrow> (c1, Inl e)
      | (c1, Inr _) \<Rightarrow>
          (case sort_requests env reqs c1 of
             (c', Inl e) \<Rightarrow> (c', Inl e)
           | (c', Inr (pending, tias)) \<Rightarrow> (c', Inr ((txid, True) # pending, tias))))"

fun apply_fetches :: "('w, 'id, 'd, 'tx) enhance_ops \<Rightarrow> ('id, 'd) round_env \<Rightarrow> ('id \<times> bool) list \<Rightarrow> 'w enhance_run \<Rightarrow>
    'w enhance_run \<times> (slipstream_error + unit)" where
  "apply_fetches ops env [] st = (st, Inr ())"
| "apply_fetches ops env ((txid, want) # arrivals) st =
     (let fetched = transaction_result (re_answer env txid); now = re_now env txid;
          st1 = (case fetched of
                   Inr _ \<Rightarrow> st\<lparr>en_progress := map_option (touch now) (en_progress st)\<rparr>
                 | Inl _ \<Rightarrow> st)
      in case apply_txid_fetch ops txid want fetched now st1 of
           (st2, Inl e) \<Rightarrow> (st2, Inl e)
         | (st2, Inr _) \<Rightarrow> apply_fetches ops env arrivals st2)"

fun apply_addresses :: "('w, 'id, 'd, 'tx) enhance_ops \<Rightarrow> ('id, 'd) round_env \<Rightarrow> address_request list \<Rightarrow> 'w enhance_run \<Rightarrow>
    'w enhance_run \<times> (slipstream_error + unit)" where
  "apply_addresses ops env [] st = (st, Inr ())"
| "apply_addresses ops env (tia # tias) st =
     (case apply_address_request ops env tia st of
        (st1, Inl e) \<Rightarrow> (st1, Inl e)
      | (st1, Inr _) \<Rightarrow> apply_addresses ops env tias st1)"

text \<open>One round with a non-empty list of requests.\<close>

definition enhance_round :: "('w, 'id, 'd, 'tx) enhance_ops \<Rightarrow> ('id, 'd) round_env \<Rightarrow> 'id data_request list \<Rightarrow>
    'w enhance_run \<Rightarrow> 'w enhance_run \<times> (slipstream_error + unit)" where
  "enhance_round ops env reqs st =
     (let s0 = en_stats st; st0 = st\<lparr>en_stats := s0\<lparr>es_requests := es_requests s0 + length reqs\<rparr>\<rparr>
      in case sort_requests env reqs (en_client st0) of
           (c, Inl e) \<Rightarrow> (st0\<lparr>en_client := c\<rparr>, Inl e)
         | (c, Inr (pending, tias)) \<Rightarrow>
             (case apply_fetches ops env (re_arrivals env pending) (st0\<lparr>en_client := c\<rparr>) of
                (st1, Inl e) \<Rightarrow> (st1, Inl e)
              | (st1, Inr _) \<Rightarrow>
                  (case apply_addresses ops env tias st1 of
                     (st2, Inl e) \<Rightarrow> (st2, Inl e)
                   | (st2, Inr _) \<Rightarrow>
                       (let s = en_stats st2
                        in (st2\<lparr>en_stats := s\<lparr>es_fetch_wait := es_fetch_wait s + re_fetch_wait env,
                                  es_store := es_store s + re_store env,
                                  es_address := es_address s + re_address env\<rparr>\<rparr>, Inr ())))))"

text \<open>The rounds from number \<open>k\<close> on, \<open>n\<close> of them at most.\<close>

fun enhance_rounds :: "('w, 'id, 'd, 'tx) enhance_ops \<Rightarrow> (nat \<Rightarrow> ('id, 'd) round_env) \<Rightarrow> nat \<Rightarrow> nat \<Rightarrow> 'w enhance_run \<Rightarrow>
    'w enhance_run \<times> (slipstream_error + unit)" where
  "enhance_rounds ops envs k 0 st = (st, Inr ())"
| "enhance_rounds ops envs k (Suc n) st =
     (case eo_requests ops (en_wallet st) of
        Inl m \<Rightarrow> (st, Inl (Wallet (''transaction_data_requests: '' @ m)))
      | Inr [] \<Rightarrow> (st, Inr ())
      | Inr (r # rs) \<Rightarrow>
          (case enhance_round ops (envs k) (r # rs) st of
             (st1, Inl e) \<Rightarrow> (st1, Inl e)
           | (st1, Inr _) \<Rightarrow> enhance_rounds ops envs (k + 1) n st1))"

definition run_enhancement_lazily :: "('w, 'id, 'd, 'tx) enhance_ops \<Rightarrow> (nat \<Rightarrow> ('id, 'd) round_env) \<Rightarrow> unit option \<Rightarrow>
    'w \<Rightarrow> progress option \<Rightarrow> string set \<Rightarrow> 'w enhance_run \<times> (slipstream_error + enhance_stats)" where
  "run_enhancement_lazily ops envs client w p skipped =
     (let (st, r) = enhance_rounds ops envs 0 3
            \<lparr>en_wallet = w, en_progress = p, en_stats = enhance_stats_default, en_skipped = skipped, en_client = client\<rparr>
      in (st, map_sum id (\<lambda>_. en_stats st) r))"

text \<open>Over a connection that is already open.\<close>

definition run_enhancement :: "('w, 'id, 'd, 'tx) enhance_ops \<Rightarrow> (nat \<Rightarrow> ('id, 'd) round_env) \<Rightarrow>
    'w \<Rightarrow> progress option \<Rightarrow> string set \<Rightarrow> 'w enhance_run \<times> (slipstream_error + enhance_stats)" where
  "run_enhancement ops envs w p skipped =
     run_enhancement_lazily ops (\<lambda>k. (envs k)\<lparr>re_connect := Inr ()\<rparr>) None w p skipped"

section \<open>Transparent outputs\<close>

record transparent_stats =
  ts_accounts :: nat
  ts_utxos :: nat

record 's utxo_reply =
  ur_txid :: "nat list"
  ur_index :: int
  ur_value :: int
  ur_height :: nat
  ur_script :: 's

text \<open>
  \<open>uo_zatoshis\<close> and \<open>uo_output\<close> are other crates' constructors: an amount from a number, a wallet output
  from its parts.
\<close>

record ('w, 'acc, 's, 'out) utxo_ops =
  uo_accounts :: "'w \<Rightarrow> string + 'acc list"
  uo_query_height :: "'acc \<Rightarrow> 'w \<Rightarrow> string + nat"
  uo_receivers :: "'acc \<Rightarrow> 'w \<Rightarrow> string + string list"
  uo_zatoshis :: "int \<Rightarrow> nat option"
  uo_output :: "nat list \<Rightarrow> nat \<Rightarrow> nat \<Rightarrow> 's \<Rightarrow> nat \<Rightarrow> 'out option"
  uo_put :: "'out \<Rightarrow> 'w \<Rightarrow> 'w \<times> (string + unit)"

definition output_of :: "('w, 'acc, 's, 'out) utxo_ops \<Rightarrow> 's utxo_reply \<Rightarrow> slipstream_error + 'out" where
  "output_of ops r =
     (if length (ur_txid r) \<noteq> 32 then Inl MisbehavingServer
      else if ur_index r < 0 then Inl MisbehavingServer
      else case uo_zatoshis ops (ur_value r) of
             None \<Rightarrow> Inl MisbehavingServer
           | Some v \<Rightarrow>
               if ur_height r > u32_max then Inl MisbehavingServer
               else case uo_output ops (ur_txid r) (nat (ur_index r)) v (ur_script r) (ur_height r) of
                      None \<Rightarrow> Inl MisbehavingServer
                    | Some out \<Rightarrow> Inr out)"

fun put_outputs :: "('w, 'acc, 's, 'out) utxo_ops \<Rightarrow> 's utxo_reply list \<Rightarrow> 'w \<Rightarrow> nat \<Rightarrow>
    'w \<times> (slipstream_error + nat)" where
  "put_outputs ops [] w n = (w, Inr n)"
| "put_outputs ops (r # replies) w n =
     (case output_of ops r of
        Inl e \<Rightarrow> (w, Inl e)
      | Inr out \<Rightarrow>
          (case uo_put ops out w of
             (w1, Inl m) \<Rightarrow> (w1, Inl (Wallet (''put_received_transparent_utxo: '' @ m)))
           | (w1, Inr _) \<Rightarrow> put_outputs ops replies w1 (n + 1)))"

text \<open>One account after the other; \<open>answer\<close> and \<open>now\<close> give the server's replies and the clock.\<close>

fun refresh_accounts :: "('w, 'acc, 's, 'out) utxo_ops \<Rightarrow> (string list \<Rightarrow> nat \<Rightarrow> 's utxo_reply message list call_answer) \<Rightarrow>
    ('acc \<Rightarrow> nat) \<Rightarrow> 'acc list \<Rightarrow> transparent_stats \<Rightarrow> 'w \<times> progress option \<Rightarrow>
    ('w \<times> progress option) \<times> (slipstream_error + transparent_stats)" where
  "refresh_accounts ops answer now [] ts s = (s, Inr ts)"
| "refresh_accounts ops answer now (a # as) ts (w, p) =
     (case uo_query_height ops a w of
        Inl m \<Rightarrow> ((w, p), Inl (Wallet (''utxo_query_height: '' @ m)))
      | Inr start \<Rightarrow>
          (case uo_receivers ops a w of
             Inl m \<Rightarrow> ((w, p), Inl (Wallet (''get_transparent_receivers: '' @ m)))
           | Inr [] \<Rightarrow> refresh_accounts ops answer now as (ts\<lparr>ts_accounts := ts_accounts ts + 1\<rparr>) (w, p)
           | Inr (addr # addrs) \<Rightarrow>
               (case address_utxos (answer (addr # addrs) start) p of
                  (p1, Inl e) \<Rightarrow> ((w, p1), Inl e)
                | (p1, Inr replies) \<Rightarrow>
                    (case put_outputs ops replies w (ts_utxos ts) of
                       (w1, Inl e) \<Rightarrow> ((w1, map_option (touch (now a)) p1), Inl e)
                     | (w1, Inr n) \<Rightarrow>
                         refresh_accounts ops answer now as (ts\<lparr>ts_utxos := n, ts_accounts := ts_accounts ts + 1\<rparr>)
                           (w1, map_option (touch (now a)) p1)))))"

definition refresh_utxos :: "('w, 'acc, 's, 'out) utxo_ops \<Rightarrow> (string list \<Rightarrow> nat \<Rightarrow> 's utxo_reply message list call_answer) \<Rightarrow>
    ('acc \<Rightarrow> nat) \<Rightarrow> 'w \<times> progress option \<Rightarrow> ('w \<times> progress option) \<times> (slipstream_error + transparent_stats)" where
  "refresh_utxos ops answer now s =
     (case uo_accounts ops (fst s) of
        Inl m \<Rightarrow> (s, Inl (Wallet (''get_account_ids: '' @ m)))
      | Inr accounts \<Rightarrow> refresh_accounts ops answer now accounts \<lparr>ts_accounts = 0, ts_utxos = 0\<rparr> s)"

section \<open>Skipped requests\<close>

text \<open>\<open>tallied base s0\<close>: the skips counted since are the keys that are new.\<close>

definition tallied :: "string set \<Rightarrow> nat \<Rightarrow> 'w enhance_run \<Rightarrow> bool" where
  "tallied base s0 st \<longleftrightarrow> finite (en_skipped st) \<and> base \<subseteq> en_skipped st \<and>
     es_skipped (en_stats st) = s0 + card (en_skipped st - base)"

lemma skip_tallied: "tallied base s0 st \<Longrightarrow> tallied base s0 (skip key st)"
proof (cases "key \<in> en_skipped st")
  case False
  assume t: "tallied base s0 st"
  then have "insert key (en_skipped st) - base = insert key (en_skipped st - base)" "key \<notin> en_skipped st - base"
    using False by (auto simp: tallied_def)
  then show ?thesis using t False by (auto simp: tallied_def skip_def)
qed (simp add: skip_def)

lemma store_raw_keeps:
  "store_raw ops tag now raw st = (st', r) \<Longrightarrow>
   en_skipped st' = en_skipped st \<and> es_skipped (en_stats st') = es_skipped (en_stats st) \<and> en_client st' = en_client st"
  by (auto simp: store_raw_def note_stored_def split: sum.splits prod.splits)

lemma apply_txid_fetch_keeps:
  "apply_txid_fetch ops txid want f now st = (st', r) \<Longrightarrow>
   en_skipped st' = en_skipped st \<and> es_skipped (en_stats st') = es_skipped (en_stats st) \<and> en_client st' = en_client st"
  by (auto simp: apply_txid_fetch_def note_status_def dest: store_raw_keeps
      split: sum.splits prod.splits option.splits if_splits)

lemma store_history_keeps:
  "store_history ops f now raws st = (st', r) \<Longrightarrow>
   en_skipped st' = en_skipped st \<and> es_skipped (en_stats st') = es_skipped (en_stats st)"
  by (induction ops f now raws st rule: store_history.induct)
    (auto dest!: store_raw_keeps split: if_splits prod.splits sum.splits)

lemma fetch_history_tallied:
  assumes run: "fetch_history ops env tia e st = (st', r)" and t: "tallied base s0 st"
  shows "tallied base s0 st'"
proof -
  obtain c g where lg: "lazy_get (en_client st) (re_connect env) = (c, g)" by force
  obtain p h where th: "taddress_txids (re_history env tia) (en_progress st) = (p, h)" by force
  show ?thesis
  proof (cases g)
    case (Inl x)
    then show ?thesis using run t by (auto simp: fetch_history_def lg tallied_def)
  next
    case g: (Inr u)
    show ?thesis
    proof (cases h)
      case (Inl x)
      then show ?thesis using run t g by (auto simp: fetch_history_def lg th tallied_def)
    next
      case h: (Inr raws)
      obtain st1 q where sh: "store_history ops (ta_filter tia) (re_address_now env tia) raws
          (st\<lparr>en_client := c, en_progress := map_option (touch (re_address_now env tia)) p\<rparr>) = (st1, q)" by force
      have "tallied base s0 st1" using store_history_keeps [OF sh] t by (simp add: tallied_def)
      then show ?thesis using run g h
        by (cases q) (auto simp: fetch_history_def lg th sh tallied_def split: prod.splits sum.splits)
    qed
  qed
qed

lemma apply_address_request_tallied:
  "apply_address_request ops env tia st = (st', r) \<Longrightarrow> tallied base s0 st \<Longrightarrow> tallied base s0 st'"
  by (auto simp: apply_address_request_def intro: skip_tallied fetch_history_tallied
      split: sum.splits option.splits if_splits)

lemma apply_addresses_tallied:
  "apply_addresses ops env tias st = (st', r) \<Longrightarrow> tallied base s0 st \<Longrightarrow> tallied base s0 st'"
  by (induction ops env tias st rule: apply_addresses.induct)
    (auto dest: apply_address_request_tallied split: prod.splits sum.splits)

definition heard :: "('id, 'd) round_env \<Rightarrow> 'id \<Rightarrow> 'w enhance_run \<Rightarrow> 'w enhance_run" where
  "heard env txid st =
     (case transaction_result (re_answer env txid) of
        Inr _ \<Rightarrow> st\<lparr>en_progress := map_option (touch (re_now env txid)) (en_progress st)\<rparr>
      | Inl _ \<Rightarrow> st)"

lemma heard_sel [simp]: "en_wallet (heard env txid st) = en_wallet st" "en_stats (heard env txid st) = en_stats st"
  "en_skipped (heard env txid st) = en_skipped st" "en_client (heard env txid st) = en_client st"
  by (auto simp: heard_def split: sum.splits)

lemma apply_fetches_Cons:
  "apply_fetches ops env ((txid, want) # arrivals) st =
     (case apply_txid_fetch ops txid want (transaction_result (re_answer env txid)) (re_now env txid) (heard env txid st) of
        (st2, Inl e) \<Rightarrow> (st2, Inl e)
      | (st2, Inr _) \<Rightarrow> apply_fetches ops env arrivals st2)"
  by (simp add: heard_def Let_def)

lemma apply_fetches_keeps:
  "apply_fetches ops env arr st = (st', r) \<Longrightarrow>
   en_skipped st' = en_skipped st \<and> es_skipped (en_stats st') = es_skipped (en_stats st)"
proof (induction arr arbitrary: st)
  case (Cons a arr)
  obtain txid want where a: "a = (txid, want)" by force
  obtain st2 q where f: "apply_txid_fetch ops txid want (transaction_result (re_answer env txid)) (re_now env txid)
      (heard env txid st) = (st2, q)" by force
  then have "(case q of Inl e \<Rightarrow> (st2, Inl e) | Inr _ \<Rightarrow> apply_fetches ops env arr st2) = (st', r)"
    using Cons.prems unfolding a apply_fetches_Cons f by simp
  then show ?case using apply_txid_fetch_keeps [OF f] Cons.IH [of st2] by (cases q) auto
qed simp

lemma enhance_round_tallied:
  assumes "enhance_round ops env reqs st = (st', r)" and "tallied base s0 st"
  shows "tallied base s0 st'"
  using assms
  by (auto simp: enhance_round_def Let_def tallied_def
      dest!: apply_fetches_keeps apply_addresses_tallied [where base = base and ?s0.0 = s0] split: prod.splits sum.splits)

lemma enhance_rounds_tallied:
  "enhance_rounds ops envs k n st = (st', r) \<Longrightarrow> tallied base s0 st \<Longrightarrow> tallied base s0 st'"
proof (induction n arbitrary: k st)
  case (Suc n)
  show ?case
  proof (cases "\<exists>q qs st1. eo_requests ops (en_wallet st) = Inr (q # qs) \<and> enhance_round ops (envs k) (q # qs) st = (st1, Inr ())")
    case True
    then obtain q qs st1 where "eo_requests ops (en_wallet st) = Inr (q # qs)"
      and one: "enhance_round ops (envs k) (q # qs) st = (st1, Inr ())" by blast
    then have "enhance_rounds ops envs (k + 1) n st1 = (st', r)" using Suc.prems(1) by simp
    then show ?thesis using Suc.IH enhance_round_tallied [OF one Suc.prems(2)] by blast
  next
    case False
    then have "st' = st \<or> (\<exists>q qs e. enhance_round ops (envs k) (q # qs) st = (st', Inl e))"
      using Suc.prems(1) by (auto split: sum.splits list.splits prod.splits)
    then show ?thesis using enhance_round_tallied Suc.prems(2) by blast
  qed
qed simp

lemma run_tallied:
  assumes "run_enhancement_lazily ops envs client w p skipped = (st, r)" and "finite skipped"
  shows "tallied skipped 0 st"
proof -
  let ?st = "\<lparr>en_wallet = w, en_progress = p, en_stats = enhance_stats_default, en_skipped = skipped, en_client = client\<rparr>"
  have "tallied skipped 0 ?st" using assms(2) by (simp add: tallied_def enhance_stats_default_def)
  moreover obtain r' where "enhance_rounds ops envs 0 3 ?st = (st, r')"
    using assms(1) unfolding run_enhancement_lazily_def by (auto split: prod.splits)
  ultimately show ?thesis using enhance_rounds_tallied by blast
qed

text \<open>A request the guards skip, at wallet \<open>w\<close>, and the key it is skipped under.\<close>

definition skip_key :: "('w, 'id, 'd, 'tx) enhance_ops \<Rightarrow> 'w \<Rightarrow> 'id data_request \<Rightarrow> string option" where
  "skip_key ops w q =
     (case q of
        InvolvingAddress tia \<Rightarrow>
          (case (case ta_end tia of Some h \<Rightarrow> Some h | None \<Rightarrow> (case eo_chain_height ops w of
                     Inr (Some tip) \<Rightarrow> Some (tip + 1) | _ \<Rightarrow> None)) of
             None \<Rightarrow> if eo_chain_height ops w = Inr None then Some (ta_address tia @ '':open-no-tip'') else None
           | Some e \<Rightarrow> if ta_request_at tia then Some (range_key tia e ''request_at'')
                       else if ta_unspent_only tia then Some (range_key tia e ''unspent'') else None)
      | _ \<Rightarrow> None)"

lemma address_skipped:
  assumes "skip_key ops (en_wallet st) (InvolvingAddress tia) = Some key"
  shows "apply_address_request ops env tia st = (skip key st, Inr ())"
  using assms
  by (auto simp: skip_key_def apply_address_request_def effective_range_end_def
      split: option.splits sum.splits if_splits)

lemma skip_sel [simp]: "en_wallet (skip key st) = en_wallet st" "en_client (skip key st) = en_client st"
  "en_progress (skip key st) = en_progress st" "en_skipped (skip key st) = insert key (en_skipped st)"
  by (auto simp: skip_def)

lemma addresses_skipped:
  assumes "\<forall>tia \<in> set tias. skip_key ops (en_wallet st) (InvolvingAddress tia) \<noteq> None"
  shows "\<exists>st'. apply_addresses ops env tias st = (st', Inr ()) \<and> en_wallet st' = en_wallet st \<and>
    en_client st' = en_client st \<and> en_progress st' = en_progress st \<and>
    en_skipped st' = en_skipped st \<union> (the \<circ> skip_key ops (en_wallet st) \<circ> InvolvingAddress) ` set tias"
  using assms
proof (induction tias arbitrary: st)
  case (Cons tia tias)
  obtain key where k: "skip_key ops (en_wallet st) (InvolvingAddress tia) = Some key" using Cons.prems by auto
  show ?case using Cons.IH [of "skip key st"] Cons.prems by (auto simp: address_skipped [OF k] k)
qed simp

lemma sort_skipped:
  assumes "\<forall>q \<in> set reqs. skip_key ops w q \<noteq> None"
  shows "\<exists>tias. sort_requests env reqs c = (c, Inr ([], tias)) \<and> reqs = map InvolvingAddress tias"
  using assms
proof (induction reqs)
  case (Cons q reqs)
  then obtain tia where q: "q = InvolvingAddress tia" by (cases q) (auto simp: skip_key_def)
  then show ?case using Cons by auto
qed simp

lemma round_skipped:
  assumes "\<forall>q \<in> set reqs. skip_key ops (en_wallet st) q \<noteq> None" and "re_arrivals env [] = []"
  shows "\<exists>st'. enhance_round ops env reqs st = (st', Inr ()) \<and> en_wallet st' = en_wallet st \<and>
    en_client st' = en_client st \<and> en_progress st' = en_progress st \<and>
    en_skipped st' = en_skipped st \<union> (the \<circ> skip_key ops (en_wallet st)) ` set reqs"
proof -
  obtain tias where tias: "sort_requests env reqs (en_client st) = (en_client st, Inr ([], tias))"
    "reqs = map InvolvingAddress tias" using sort_skipped [OF assms(1)] by blast
  let ?st = "st\<lparr>en_stats := (en_stats st)\<lparr>es_requests := es_requests (en_stats st) + length reqs\<rparr>\<rparr>"
  have "\<forall>tia \<in> set tias. skip_key ops (en_wallet ?st) (InvolvingAddress tia) \<noteq> None" using assms(1) tias(2) by auto
  then obtain st' where "apply_addresses ops env tias ?st = (st', Inr ())" "en_wallet st' = en_wallet ?st"
    "en_client st' = en_client ?st" "en_progress st' = en_progress ?st"
    "en_skipped st' = en_skipped ?st \<union> (the \<circ> skip_key ops (en_wallet ?st) \<circ> InvolvingAddress) ` set tias"
    using addresses_skipped [of tias ops ?st env] by blast
  then show ?thesis using tias assms(2) by (auto simp: enhance_round_def Let_def image_image)
qed

lemma rounds_skipped:
  assumes "eo_requests ops (en_wallet st) = Inr reqs" and "\<forall>q \<in> set reqs. skip_key ops (en_wallet st) q \<noteq> None"
    and "\<forall>k. re_arrivals (envs k) [] = []"
  shows "\<exists>st'. enhance_rounds ops envs k n st = (st', Inr ()) \<and> en_wallet st' = en_wallet st \<and>
    en_client st' = en_client st \<and> en_progress st' = en_progress st \<and>
    (n \<noteq> 0 \<longrightarrow> en_skipped st' = en_skipped st \<union> (the \<circ> skip_key ops (en_wallet st)) ` set reqs)"
  using assms
proof (induction n arbitrary: k st)
  case (Suc n)
  show ?case
  proof (cases reqs)
    case Nil
    then show ?thesis using Suc.prems(1) by simp
  next
    case (Cons q qs)
    obtain st1 where one: "enhance_round ops (envs k) reqs st = (st1, Inr ())" "en_wallet st1 = en_wallet st"
      "en_client st1 = en_client st" "en_progress st1 = en_progress st"
      "en_skipped st1 = en_skipped st \<union> (the \<circ> skip_key ops (en_wallet st)) ` set reqs"
      using round_skipped [of reqs ops st "envs k"] Suc.prems by blast
    obtain st' where "enhance_rounds ops envs (k + 1) n st1 = (st', Inr ())" "en_wallet st' = en_wallet st1"
      "en_client st' = en_client st1" "en_progress st' = en_progress st1"
      "n \<noteq> 0 \<longrightarrow> en_skipped st' = en_skipped st1 \<union> (the \<circ> skip_key ops (en_wallet st1)) ` set reqs"
      using Suc.IH [of st1 "k + 1"] Suc.prems one(2) by auto
    then show ?thesis using one Suc.prems(1) Cons by (cases "n = 0") auto
  qed
qed simp

text \<open>
  A run that has nothing to ask the server opens no connection, and so no Tor circuit, and touches
  neither the wallet nor the progress: when every request of the wallet is one of the address checks
  the guards skip, the run succeeds whatever connecting would have given.  Each skipped check is
  counted once over all runs that share the skip keys, however often it is issued again.
\<close>

theorem skipped_requests_open_no_connection:
  assumes "eo_requests ops w = Inr reqs" and "\<forall>q \<in> set reqs. skip_key ops w q \<noteq> None"
    and "\<forall>k. re_arrivals (envs k) [] = []" and "finite skipped"
  shows "\<exists>st stats. run_enhancement_lazily ops envs None w p skipped = (st, Inr stats) \<and>
    en_client st = None \<and> en_wallet st = w \<and> en_progress st = p \<and>
    en_skipped st = skipped \<union> (the \<circ> skip_key ops w) ` set reqs \<and>
    es_skipped stats = card ((the \<circ> skip_key ops w) ` set reqs - skipped)"
proof -
  let ?st = "\<lparr>en_wallet = w, en_progress = p, en_stats = enhance_stats_default, en_skipped = skipped, en_client = None\<rparr>"
  obtain st where st: "enhance_rounds ops envs 0 3 ?st = (st, Inr ())" "en_wallet st = w" "en_client st = None"
    "en_progress st = p" "en_skipped st = skipped \<union> (the \<circ> skip_key ops w) ` set reqs"
    using rounds_skipped [of ops ?st reqs envs 0 3] assms by auto
  then have run: "run_enhancement_lazily ops envs None w p skipped = (st, Inr (en_stats st))"
    by (simp add: run_enhancement_lazily_def)
  have "es_skipped (en_stats st) = card (en_skipped st - skipped)"
    using run_tallied [OF run assms(4)] by (simp add: tallied_def)
  then show ?thesis using run st by (auto simp: Un_Diff)
qed

definition demo_request :: address_request where
  "demo_request = \<lparr>ta_address = ''t1'', ta_start = 1, ta_end = Some 9, ta_request_at = True, ta_unspent_only = False,
     ta_filter = FilterAll\<rparr>"

definition demo_enhance_ops :: "address_request \<Rightarrow> (nat, nat, nat, nat) enhance_ops" where
  "demo_enhance_ops tia = \<lparr>eo_requests = (\<lambda>w. Inr [InvolvingAddress tia, InvolvingAddress tia]),
     eo_set_status = (\<lambda>i s w. (w, Inr ())), eo_parse = Inr, eo_store = (\<lambda>t h w. (w + 1, Inr ())),
     eo_chain_height = (\<lambda>w. Inr (Some 5)), eo_notify_checked = (\<lambda>t h w. (w, Inr ()))\<rparr>"

definition demo_round_env :: "(nat, nat) round_env" where
  "demo_round_env = \<lparr>re_connect = Inl (Transport ''down''), re_arrivals = rev, re_answer = (\<lambda>i. None),
     re_now = (\<lambda>i. 0), re_history = (\<lambda>t. CallTimedOut), re_address_now = (\<lambda>t. 0), re_fetch_wait = 0,
     re_store = 0, re_address = 0\<rparr>"

theorem skipped_requests_open_no_connection_witness:
  "\<exists>st stats. run_enhancement_lazily (demo_enhance_ops demo_request) (\<lambda>k. demo_round_env) None 0 None {} = (st, Inr stats) \<and>
     en_client st = None \<and> es_skipped stats = 1"
proof -
  let ?ops = "demo_enhance_ops demo_request"
  have "eo_requests ?ops 0 = Inr [InvolvingAddress demo_request, InvolvingAddress demo_request]"
    by (simp add: demo_enhance_ops_def)
  moreover have "skip_key ?ops 0 (InvolvingAddress demo_request) = Some (range_key demo_request 9 ''request_at'')"
    by (simp add: skip_key_def demo_request_def)
  moreover have "re_arrivals demo_round_env [] = []" by (simp add: demo_round_env_def)
  ultimately show ?thesis
    using skipped_requests_open_no_connection [of ?ops 0 _ "\<lambda>k. demo_round_env" "{}" None] by fastforce
qed

section \<open>A failed address history\<close>

text \<open>
  A server that does not answer an address history in time, or breaks it off, fails the run with a
  wallet error, which nothing retries, although the failure was one of transport.
\<close>

lemma history_failure:
  assumes "eo_requests ops w = Inr [InvolvingAddress tia]" and "ta_end tia = Some h"
    and "\<not> ta_request_at tia" and "\<not> ta_unspent_only tia" and "re_arrivals (envs 0) [] = []"
    and "taddress_txids (re_history (envs 0) tia) p = (p', Inl e)"
  shows "\<exists>st m. run_enhancement ops envs w p skipped = (st, Inl (Wallet m))"
  using assms
  by (simp add: run_enhancement_def run_enhancement_lazily_def enhance_round_def Let_def apply_address_request_def
      fetch_history_def lazy_get_def numeral_3_eq_3)

end
