(* ===== verification/Slip_Mempool.thy ===== *)
theory Slip_Mempool
  imports Slip_Enhance
begin

text \<open>
  Mempool monitoring (\<open>src/core/src/mempool.rs\<close>): one session is one stream of unconfirmed
  transactions, from its opening to its end.  Transactions seen in earlier sessions are skipped.
\<close>

datatype session_end = BlockBoundary | IdleReconnect

definition MEMPOOL_SESSION_IDLE :: nat where "MEMPOOL_SESSION_IDLE = 60"
definition MEMPOOL_SESSION_IDLE_NU7 :: nat where "MEMPOOL_SESSION_IDLE_NU7 = 40"
definition SEEN_TXIDS_CAP :: nat where "SEEN_TXIDS_CAP = 4096"

text \<open>\<open>nu7_active\<close> is the network's activation of the upgrade, another crate's parameters.\<close>

definition mempool_session_idle :: "(nat \<Rightarrow> bool) \<Rightarrow> nat \<Rightarrow> nat" where
  "mempool_session_idle nu7_active tip =
     (let n = min u64_max (tip + 1); next' = (if n \<le> u32_max then n else u32_max)
      in if nu7_active next' then MEMPOOL_SESSION_IDLE_NU7 else MEMPOOL_SESSION_IDLE)"

record session_stats =
  st_received :: nat
  st_stored_hits :: nat

text \<open>
  The wallet: \<open>mo_parse\<close> reads a transaction's bytes, \<open>mo_store\<close> decrypts and stores it if it involves
  the wallet, \<open>mo_is_stored\<close> looks it up.
\<close>

record ('w, 'd, 'id, 'tx) mempool_ops =
  mo_open :: "'w \<Rightarrow> slipstream_error + unit"
  mo_parse :: "'d \<Rightarrow> string + 'id \<times> 'tx"
  mo_store :: "'tx \<Rightarrow> nat option \<Rightarrow> 'w \<Rightarrow> 'w \<times> (string + unit)"
  mo_is_stored :: "'id \<Rightarrow> 'w \<Rightarrow> string + bool"

text \<open>What arrives: a transaction with the clock, an error, or the end of the stream.  No event means silence.\<close>

datatype 'd mempool_item = MempoolTx 'd nat | MempoolStatus string | MempoolClosed

record ('w, 'id) mempool_state =
  ms_wallet :: 'w
  ms_progress :: "progress option"
  ms_seen :: "'id set"
  ms_stats :: session_stats
  ms_tried :: "'id list"

text \<open>\<open>ms_tried\<close> records the transactions handed to the wallet, in order.\<close>

definition note_hit :: "nat \<Rightarrow> ('w, 'id) mempool_state \<Rightarrow> ('w, 'id) mempool_state" where
  "note_hit now ms = ms\<lparr>ms_stats := (ms_stats ms)\<lparr>st_stored_hits := st_stored_hits (ms_stats ms) + 1\<rparr>,
     ms_progress := map_option (\<lambda>p. bump_tx_set_version now (add_enhanced 1 now p)) (ms_progress ms)\<rparr>"

definition take_mempool_tx :: "('w, 'd, 'id, 'tx) mempool_ops \<Rightarrow> 'd \<Rightarrow> nat \<Rightarrow> ('w, 'id) mempool_state \<Rightarrow>
    ('w, 'id) mempool_state \<times> (slipstream_error + unit)" where
  "take_mempool_tx ops raw now ms0 =
     (let ms = ms0\<lparr>ms_stats := (ms_stats ms0)\<lparr>st_received := st_received (ms_stats ms0) + 1\<rparr>\<rparr>
      in case mo_parse ops raw of
           Inl _ \<Rightarrow> (ms, Inr ())
         | Inr (txid, tx) \<Rightarrow>
             if txid \<in> ms_seen ms then (ms, Inr ())
             else (let ms1 = ms\<lparr>ms_seen := insert txid (ms_seen ms), ms_tried := ms_tried ms @ [txid]\<rparr>
                   in case mo_store ops tx None (ms_wallet ms1) of
                        (w, Inl m) \<Rightarrow> (ms1\<lparr>ms_wallet := w\<rparr>, Inl (Wallet (''mempool decrypt_and_store: '' @ m)))
                      | (w, Inr _) \<Rightarrow>
                          (let ms2 = ms1\<lparr>ms_wallet := w\<rparr>
                           in case mo_is_stored ops txid w of
                                Inl m \<Rightarrow> (ms2, Inl (Wallet (''mempool hit check: '' @ m)))
                              | Inr True \<Rightarrow> (note_hit now ms2, Inr ())
                              | Inr False \<Rightarrow> (ms2, Inr ()))))"

fun mempool_loop :: "('w, 'd, 'id, 'tx) mempool_ops \<Rightarrow> 'd mempool_item list \<Rightarrow> ('w, 'id) mempool_state \<Rightarrow>
    ('w, 'id) mempool_state \<times> (slipstream_error + session_end)" where
  "mempool_loop ops [] ms = (ms, Inr IdleReconnect)"
| "mempool_loop ops (MempoolClosed # items) ms = (ms, Inr BlockBoundary)"
| "mempool_loop ops (MempoolStatus m # items) ms = (ms, Inl (Transport (''mempool stream: '' @ m)))"
| "mempool_loop ops (MempoolTx raw now # items) ms =
     (case take_mempool_tx ops raw now ms of
        (ms1, Inl e) \<Rightarrow> (ms1, Inl e)
      | (ms1, Inr _) \<Rightarrow> mempool_loop ops items ms1)"

text \<open>
  \<open>connected\<close> is the outcome of connecting; \<open>opened\<close> is that of opening the stream, \<^term>\<open>None\<close> when
  the idle bound passed first.
\<close>

definition run_mempool_session :: "('w, 'd, 'id, 'tx) mempool_ops \<Rightarrow> slipstream_error + unit \<Rightarrow>
    (string + 'd mempool_item list) option \<Rightarrow> 'w \<Rightarrow> progress option \<Rightarrow> 'id set \<Rightarrow> 'id list \<Rightarrow> net_state \<Rightarrow>
    ('w, 'id) mempool_state \<times> net_state \<times> (slipstream_error + session_end \<times> session_stats)" where
  "run_mempool_session ops conn opened w p seen tried ns =
     (let seen' = (if card seen > SEEN_TXIDS_CAP then {} else seen);
          ms = \<lparr>ms_wallet = w, ms_progress = p, ms_seen = seen', ms_stats = \<lparr>st_received = 0, st_stored_hits = 0\<rparr>,
                ms_tried = tried\<rparr>
      in case mo_open ops w of
           Inl e \<Rightarrow> (ms, ns, Inl e)
         | Inr _ \<Rightarrow>
             (case conn of
                Inl e \<Rightarrow> (ms, ns, Inl e)
              | Inr _ \<Rightarrow>
                  (case opened of
                     None \<Rightarrow> (ms, counted GetMempoolStream ns, Inr (IdleReconnect, ms_stats ms))
                   | Some a \<Rightarrow>
                       (case open_mempool_stream a ns of
                          (ns', Inl e) \<Rightarrow> (ms, ns', Inl e)
                        | (ns', Inr items) \<Rightarrow>
                            (case mempool_loop ops items ms of
                               (ms', Inl e) \<Rightarrow> (ms', ns', Inl e)
                             | (ms', Inr end') \<Rightarrow> (ms', ns', Inr (end', ms_stats ms')))))))"

section \<open>Each transaction once\<close>

text \<open>What a step may do to the transactions seen and tried.\<close>

definition extends_seen :: "('w, 'id) mempool_state \<Rightarrow> ('w, 'id) mempool_state \<Rightarrow> nat \<Rightarrow> bool" where
  "extends_seen ms ms' k \<longleftrightarrow>
     (\<exists>new. ms_tried ms' = ms_tried ms @ new \<and> distinct new \<and> set new \<inter> ms_seen ms = {} \<and>
        ms_seen ms' = ms_seen ms \<union> set new \<and> length new \<le> k)"

lemma extends_refl: "extends_seen ms ms k"
  by (auto simp: extends_seen_def)

lemma extends_trans:
  assumes "extends_seen a b j" and "extends_seen b c k"
  shows "extends_seen a c (j + k)"
proof -
  obtain n m where n: "ms_tried b = ms_tried a @ n" "distinct n" "set n \<inter> ms_seen a = {}" "ms_seen b = ms_seen a \<union> set n"
      "length n \<le> j"
    and m: "ms_tried c = ms_tried b @ m" "distinct m" "set m \<inter> ms_seen b = {}" "ms_seen c = ms_seen b \<union> set m"
      "length m \<le> k"
    using assms by (auto simp: extends_seen_def)
  then show ?thesis unfolding extends_seen_def by (intro exI [of _ "n @ m"]) auto
qed

lemma take_extends: "take_mempool_tx ops raw now ms = (ms', r) \<Longrightarrow> extends_seen ms ms' 1"
proof -
  assume run: "take_mempool_tx ops raw now ms = (ms', r)"
  have "(ms_tried ms' = ms_tried ms \<and> ms_seen ms' = ms_seen ms) \<or>
      (\<exists>txid. txid \<notin> ms_seen ms \<and> ms_tried ms' = ms_tried ms @ [txid] \<and> ms_seen ms' = insert txid (ms_seen ms))"
    using run
    by (auto simp: take_mempool_tx_def note_hit_def Let_def split: sum.splits prod.splits if_splits bool.splits)
  then show ?thesis unfolding extends_seen_def
    by (elim disjE exE) (auto intro: exI [of _ "[]"])
qed

lemma loop_extends: "mempool_loop ops items ms = (ms', r) \<Longrightarrow> extends_seen ms ms' (length items)"
proof (induction items arbitrary: ms)
  case (Cons item items)
  show ?case
  proof (cases item)
    case (MempoolTx raw now)
    obtain ms1 q where one: "take_mempool_tx ops raw now ms = (ms1, q)" by force
    then have "(case q of Inl e \<Rightarrow> (ms1, Inl e) | Inr _ \<Rightarrow> mempool_loop ops items ms1) = (ms', r)"
      using Cons.prems MempoolTx by simp
    then have "extends_seen ms1 ms' (length items)" using Cons.IH by (cases q) (auto intro: extends_refl)
    then show ?thesis using extends_trans [OF take_extends [OF one]] by simp
  qed (use Cons.prems in \<open>auto intro: extends_refl\<close>)
qed (simp add: extends_refl)

definition items_of :: "(string + 'd mempool_item list) option \<Rightarrow> 'd mempool_item list" where
  "items_of opened = (case opened of Some (Inr items) \<Rightarrow> items | _ \<Rightarrow> [])"

lemma session_extends:
  assumes run: "run_mempool_session ops conn opened w p seen tried ns = (ms', ns', r)" and "card seen \<le> SEEN_TXIDS_CAP"
  shows "\<exists>new. ms_tried ms' = tried @ new \<and> distinct new \<and> set new \<inter> seen = {} \<and> ms_seen ms' = seen \<union> set new \<and>
    length new \<le> length (items_of opened)"
proof -
  let ?ms = "\<lparr>ms_wallet = w, ms_progress = p, ms_seen = seen, ms_stats = \<lparr>st_received = 0, st_stored_hits = 0\<rparr>, ms_tried = tried\<rparr>"
  have "ms' = ?ms \<or> (\<exists>q. mempool_loop ops (items_of opened) ?ms = (ms', q))"
    using run assms(2)
    by (auto simp: run_mempool_session_def Let_def open_mempool_stream_def items_of_def
        split: sum.splits option.splits prod.splits if_splits)
  then have "extends_seen ?ms ms' (length (items_of opened))" using loop_extends extends_refl by blast
  then show ?thesis by (simp add: extends_seen_def)
qed

text \<open>Sessions one after the other, as the follow loop runs them.\<close>

fun mempool_sessions :: "('w, 'd, 'id, 'tx) mempool_ops \<Rightarrow>
    ((slipstream_error + unit) \<times> (string + 'd mempool_item list) option) list \<Rightarrow>
    'w \<Rightarrow> progress option \<Rightarrow> 'id set \<Rightarrow> 'id list \<Rightarrow> net_state \<Rightarrow> 'w \<times> progress option \<times> 'id set \<times> 'id list \<times> net_state" where
  "mempool_sessions ops [] w p seen tried ns = (w, p, seen, tried, ns)"
| "mempool_sessions ops ((conn, opened) # ss) w p seen tried ns =
     (let (ms, ns', _) = run_mempool_session ops conn opened w p seen tried ns
      in mempool_sessions ops ss (ms_wallet ms) (ms_progress ms) (ms_seen ms) (ms_tried ms) ns')"


definition demo_mempool :: "(nat set, nat, nat, nat) mempool_ops" where
  "demo_mempool = \<lparr>mo_open = (\<lambda>w. Inr ()), mo_parse = (\<lambda>d. Inr (d, d)),
     mo_store = (\<lambda>tx h w. if tx = 13 \<and> w = {} then (w, Inl ''database is locked'') else (insert tx w, Inr ())),
     mo_is_stored = (\<lambda>i w. Inr (i \<in> w))\<rparr>"


text \<open>
  C39.  A transaction counts as seen before it is stored.  When storing fails, the session fails; the next
  session receives the transaction again and skips it, so it is never stored, although the store
  would now succeed.
\<close>

theorem failed_store_is_never_retried:
  assumes "mo_parse ops raw = Inr (txid, tx)" and "txid \<notin> seen" and "mo_store ops tx None w = (w1, Inl m)"
    and "\<And>v. mo_open ops v = Inr ()" and "finite seen" and "card seen < SEEN_TXIDS_CAP"
    and "run_mempool_session ops (Inr ()) (Some (Inr [MempoolTx raw now1])) w p seen tried ns = (ms, ns1, r)"
  shows "(\<exists>e. r = Inl e) \<and>
    (\<exists>ms2 ns2 st. run_mempool_session ops (Inr ()) (Some (Inr [MempoolTx raw now2, MempoolClosed]))
        (ms_wallet ms) (ms_progress ms) (ms_seen ms) (ms_tried ms) ns1 = (ms2, ns2, Inr (BlockBoundary, st)) \<and>
      ms_wallet ms2 = w1 \<and> st_stored_hits st = 0)"
proof -
  have first: "ms_seen ms = insert txid seen" "ms_wallet ms = w1" "\<exists>e. r = Inl e"
    using assms by (auto simp: run_mempool_session_def open_mempool_stream_def take_mempool_tx_def Let_def)
  have "\<not> card (insert txid seen) > SEEN_TXIDS_CAP" using assms(2,5,6) by simp
  then show ?thesis using first assms(1,4)
    by (simp add: run_mempool_session_def open_mempool_stream_def take_mempool_tx_def Let_def)
qed

theorem failed_store_is_never_retried_witness:
  "\<exists>ms ns1 e ms2 ns2 st.
     run_mempool_session demo_mempool (Inr ()) (Some (Inr [MempoolTx 13 0])) {} None {} [] net_start = (ms, ns1, Inl e) \<and>
     run_mempool_session demo_mempool (Inr ()) (Some (Inr [MempoolTx 13 60, MempoolClosed]))
       (ms_wallet ms) (ms_progress ms) (ms_seen ms) (ms_tried ms) ns1 = (ms2, ns2, Inr (BlockBoundary, st)) \<and>
     ms_wallet ms2 = {}"
proof -
  obtain ms ns1 r where run: "run_mempool_session demo_mempool (Inr ()) (Some (Inr [MempoolTx 13 0])) {} None {} [] net_start
      = (ms, ns1, r)" by (metis prod_cases3)
  have ops: "mo_parse demo_mempool 13 = Inr (13, 13)"
    "mo_store demo_mempool 13 None {} = ({}, Inl ''database is locked'')" "\<And>v. mo_open demo_mempool v = Inr ()"
    by (simp_all add: demo_mempool_def)
  show ?thesis
    using failed_store_is_never_retried [OF ops(1) _ ops(2,3) _ _ run, of 60] run
    by (auto simp: SEEN_TXIDS_CAP_def)
qed

end
