(* ===== verification/Slip_Session.thy ===== *)
theory Slip_Session
  imports Slip_Engine Slip_Mempool
begin

text \<open>
  A sync session (\<open>src/core/src/session.rs\<close>): Tor bootstrap, the initial pass with its retries and
  revivals, then following the tip with mempool sessions in between, until the host stops the
  session for a wallet change.

  The session is a state machine.  Its phases are the loops of the source, one step is one iteration
  of the loop it is in, and a step's input is what the world answers during that iteration.
\<close>

section \<open>Schedules\<close>

definition FOLLOW_POLL_MIN_SECS :: nat where "FOLLOW_POLL_MIN_SECS = 10"
definition FOLLOW_POLL_MAX_SECS :: nat where "FOLLOW_POLL_MAX_SECS = 30"
definition MEMPOOL_FAILURE_CAP :: nat where "MEMPOOL_FAILURE_CAP = 5"
definition MEMPOOL_RETRY_FIRST :: nat where "MEMPOOL_RETRY_FIRST = 60"
definition MEMPOOL_RETRY_MAX :: nat where "MEMPOOL_RETRY_MAX = 600"
definition PASS_RETRY_MAX :: nat where "PASS_RETRY_MAX = 2"

datatype mempool_gate_event = StillOn nat | TurnedOff nat | RetryFailed nat

text \<open>Times are in seconds; the wait that set a retry is whole seconds.\<close>

record mempool_gate =
  mg_failures :: nat
  mg_retry :: "(rat \<times> nat) option"

definition mempool_gate_default :: mempool_gate where
  "mempool_gate_default = \<lparr>mg_failures = 0, mg_retry = None\<rparr>"

definition should_try :: "rat \<Rightarrow> mempool_gate \<Rightarrow> bool" where
  "should_try now g = (case mg_retry g of None \<Rightarrow> True | Some (at', _) \<Rightarrow> now \<ge> at')"

definition on_ok :: "mempool_gate \<Rightarrow> mempool_gate \<times> bool" where
  "on_ok g = (\<lparr>mg_failures = 0, mg_retry = None\<rparr>, mg_retry g \<noteq> None)"

definition on_err :: "rat \<Rightarrow> mempool_gate \<Rightarrow> mempool_gate \<times> mempool_gate_event" where
  "on_err now g =
     (let f = min u32_max (mg_failures g + 1)
      in case mg_retry g of
           Some (_, wait) \<Rightarrow>
             (let retry_in = min (wait * 2) MEMPOOL_RETRY_MAX
              in (\<lparr>mg_failures = f, mg_retry = Some (now + of_nat retry_in, retry_in)\<rparr>, RetryFailed retry_in))
         | None \<Rightarrow>
             if f \<ge> MEMPOOL_FAILURE_CAP
             then (\<lparr>mg_failures = f, mg_retry = Some (now + of_nat MEMPOOL_RETRY_FIRST, MEMPOOL_RETRY_FIRST)\<rparr>,
                   TurnedOff MEMPOOL_RETRY_FIRST)
             else (\<lparr>mg_failures = f, mg_retry = None\<rparr>, StillOn f))"

definition sync_retry_backoff :: "nat \<Rightarrow> nat" where
  "sync_retry_backoff attempt = min (3 * 2 ^ min (attempt - 1) 4) 30"

definition follow_poll_jitter :: "rat \<Rightarrow> nat" where
  "follow_poll_jitter rng_sample =
     (let span = of_nat (FOLLOW_POLL_MAX_SECS - FOLLOW_POLL_MIN_SECS + 1);
          offset = min (nat \<lfloor>rng_sample * span\<rfloor>) u64_max
      in FOLLOW_POLL_MIN_SECS + min offset (FOLLOW_POLL_MAX_SECS - FOLLOW_POLL_MIN_SECS))"

definition pass_retry_sleep :: "nat \<Rightarrow> nat" where
  "pass_retry_sleep attempt = (if attempt = 1 then 5 else 15)"

definition wedge_revival_backoff :: "nat \<Rightarrow> nat" where
  "wedge_revival_backoff attempt =
     (if attempt = 1 then 15 else if attempt = 2 then 30 else if attempt = 3 then 60
      else if attempt = 4 then 120 else 300)"

section \<open>What a failed pass leads to\<close>

definition should_retry :: "slipstream_error \<Rightarrow> nat \<Rightarrow> nat option" where
  "should_retry err attempt =
     (if is_transient err \<and> attempt \<le> PASS_RETRY_MAX then Some (pass_retry_sleep attempt) else None)"

datatype failed_pass = ReturnStop | RetryAfter nat | GiveUp

fun counts_as_failed_attempt :: "failed_pass \<Rightarrow> bool" where
  "counts_as_failed_attempt ReturnStop = False"
| "counts_as_failed_attempt (RetryAfter _) = True"
| "counts_as_failed_attempt GiveUp = True"

definition failed_pass_action :: "slipstream_error \<Rightarrow> nat \<Rightarrow> failed_pass" where
  "failed_pass_action err attempt =
     (if is_stop_for_wallet_change err then ReturnStop
      else case should_retry err attempt of Some sleep \<Rightarrow> RetryAfter sleep | None \<Rightarrow> GiveUp)"

datatype initial_failure = EndQuietly | RetryTransient | Revive

definition initial_pass_failure :: "slipstream_error \<Rightarrow> initial_failure" where
  "initial_pass_failure err =
     (if is_stop_for_wallet_change err then EndQuietly else if is_transient err then RetryTransient else Revive)"

datatype follow_failure = EndSession | StaySynced

definition catch_up_failure :: "slipstream_error \<Rightarrow> follow_failure" where
  "catch_up_failure err = (if is_stop_for_wallet_change err then EndSession else StaySynced)"

section \<open>A pass with its retries\<close>

text \<open>
  \<open>envs\<close> are the worlds the attempts meet.  The result also has the sleeps between the attempts.  A
  pass that is given a progress keeps it.
\<close>

fun run_pass_with_retry :: "('n, 'a) engine_config \<Rightarrow> ('k \<times> nat) list \<Rightarrow> bool \<Rightarrow> nat \<Rightarrow>
    ('w, 'n, 'a, 'k, 't, 'rs, 'u) engine_env list \<Rightarrow> 'w \<times> progress \<Rightarrow>
    ('w \<times> progress) \<times> nat list \<times> (slipstream_error + 'u sync_outcome) run" where
  "run_pass_with_retry cfg accounts tor attempt [] s = (s, [], Running)"
| "run_pass_with_retry cfg accounts tor attempt (env # envs) (w, p) =
     (case sync_once env cfg accounts tor w (Some p) of
        ((w1, p1), r) \<Rightarrow>
          (let s1 = (w1, case p1 of Some q \<Rightarrow> q | None \<Rightarrow> p)
           in case r of
                Running \<Rightarrow> (s1, [], Running)
              | Panicked \<Rightarrow> (s1, [], Panicked)
              | Returned (Inr out) \<Rightarrow> (s1, [], Returned (Inr out))
              | Returned (Inl err) \<Rightarrow>
                  (let action = failed_pass_action err (attempt + 1);
                       s2 = (if counts_as_failed_attempt action then (fst s1, note_attempt_failed (snd s1)) else s1);
                       attempt' = (if counts_as_failed_attempt action then attempt + 1 else attempt)
                   in case action of
                        ReturnStop \<Rightarrow> (s2, [], Returned (Inl err))
                      | GiveUp \<Rightarrow> (s2, [], Returned (Inl err))
                      | RetryAfter sleep_dur \<Rightarrow>
                          (let (s3, sleeps, res) = run_pass_with_retry cfg accounts tor attempt' envs s2
                           in (s3, sleep_dur # sleeps, res)))))"

section \<open>The session\<close>

text \<open>\<open>ses_log\<close> records what the session did, in order.\<close>

datatype effect = SetState sync_state | Push ffi_event | Slept nat

record ('w, 'id) session =
  ses_wallet :: 'w
  ses_progress :: progress
  ses_state :: sync_state
  ses_events :: "ffi_event list"
  ses_seen :: "'id set"
  ses_tried :: "'id list"
  ses_net :: net_state
  ses_log :: "effect list"

definition set_state :: "sync_state \<Rightarrow> ('w, 'id) session \<Rightarrow> ('w, 'id) session" where
  "set_state s ses = ses\<lparr>ses_state := s, ses_log := ses_log ses @ [SetState s]\<rparr>"

definition push_event :: "ffi_event \<Rightarrow> ('w, 'id) session \<Rightarrow> ('w, 'id) session" where
  "push_event e ses = ses\<lparr>ses_events := push_event_bounded (ses_events ses) e, ses_log := ses_log ses @ [Push e]\<rparr>"

definition sleeps_for :: "nat list \<Rightarrow> ('w, 'id) session \<Rightarrow> ('w, 'id) session" where
  "sleeps_for ns ses = ses\<lparr>ses_log := ses_log ses @ map Slept ns\<rparr>"

record ('n, 'a, 'k) session_config =
  sc_engine :: "('n, 'a) engine_config"
  sc_accounts :: "('k \<times> nat) list"
  sc_tor :: bool

text \<open>What the world answers during one iteration of the loop the session is in.\<close>

record ('w, 'n, 'a, 'k, 't, 'rs, 'u, 'd) session_input =
  in_boot :: "slipstream_error + unit"
  in_envs :: "('w, 'n, 'a, 'k, 't, 'rs, 'u) engine_env list"
  in_now :: rat
  in_mempool_connect :: "slipstream_error + unit"
  in_mempool :: "(string + 'd mempool_item list) option"
  in_now_failed :: rat
  in_sample :: rat
  in_probe :: "string option \<times> direct_answer list \<times> tor_answer list \<times> nat call_answer"

text \<open>
  \<open>Booting\<close> and \<open>Initial\<close> carry their failure counts, \<open>Following\<close> the last tip, the consecutive failures
  and the mempool gate.  \<open>Unfinished\<close>: the iteration has not come to an end; \<open>Unwound\<close>: it panicked.
\<close>

datatype phase = Booting nat | Initial nat nat | Following nat nat mempool_gate | Ended | Unwound | Unfinished

definition run_pass :: "('n, 'a, 'k) session_config \<Rightarrow> ('k \<times> nat) list \<Rightarrow> ('w, 'n, 'a, 'k, 't, 'rs, 'u, 'd) session_input \<Rightarrow>
    ('w, 'id) session \<Rightarrow> ('w, 'id) session \<times> (slipstream_error + 'u sync_outcome) run" where
  "run_pass cfg accounts inp ses =
     (case run_pass_with_retry (sc_engine cfg) accounts (sc_tor cfg) 0 (in_envs inp) (ses_wallet ses, ses_progress ses) of
        ((w, p), sleeps, res) \<Rightarrow> (sleeps_for sleeps (ses\<lparr>ses_wallet := w, ses_progress := p\<rparr>), res))"

definition finish_pass :: "'u sync_outcome \<Rightarrow> ('w, 'id) session \<Rightarrow> ('w, 'id) session" where
  "finish_pass out ses =
     push_event \<lparr>ev_tag = 3, ev_value = es_txs_stored (so_enhance out)\<rparr> (set_state Done ses)"

definition boot_step :: "('w, 'n, 'a, 'k, 't, 'rs, 'u, 'd) session_input \<Rightarrow> nat \<Rightarrow> ('w, 'id) session \<Rightarrow>
    phase \<times> ('w, 'id) session" where
  "boot_step inp boot_failures ses =
     (case in_boot inp of
        Inr _ \<Rightarrow> (Initial 0 0, ses)
      | Inl _ \<Rightarrow> (Booting (boot_failures + 1), sleeps_for [sync_retry_backoff (boot_failures + 1)] (set_state Idle ses)))"

definition initial_step :: "('n, 'a, 'k) session_config \<Rightarrow> ('w, 'n, 'a, 'k, 't, 'rs, 'u, 'd) session_input \<Rightarrow> nat \<Rightarrow> nat \<Rightarrow>
    ('w, 'id) session \<Rightarrow> phase \<times> ('w, 'id) session" where
  "initial_step cfg inp initial_failures revivals ses =
     (let (ses1, r) = run_pass cfg (sc_accounts cfg) inp (set_state Syncing ses)
      in case r of
           Running \<Rightarrow> (Unfinished, ses1)
         | Panicked \<Rightarrow> (Unwound, ses1)
         | Returned (Inr out) \<Rightarrow> (Following (so_chain_tip out) 0 mempool_gate_default, (finish_pass out ses1)\<lparr>ses_seen := {}\<rparr>)
         | Returned (Inl err) \<Rightarrow>
             (case initial_pass_failure err of
                EndQuietly \<Rightarrow> (Ended, set_state Idle ses1)
              | RetryTransient \<Rightarrow>
                  (Initial (initial_failures + 1) revivals,
                   sleeps_for [sync_retry_backoff (initial_failures + 1)] (set_state Idle ses1))
              | Revive \<Rightarrow>
                  (Initial initial_failures (revivals + 1),
                   sleeps_for [wedge_revival_backoff (revivals + 1)]
                     (push_event \<lparr>ev_tag = 4, ev_value = 1\<rparr> (set_state (Error 1) ses1)))))"

text \<open>Before the probe: a mempool session, or a sleep while monitoring is off.\<close>

definition mempool_tick :: "('w, 'd, 'id, 'tx) mempool_ops \<Rightarrow> ('w, 'n, 'a, 'k, 't, 'rs, 'u, 'd) session_input \<Rightarrow> mempool_gate \<Rightarrow>
    ('w, 'id) session \<Rightarrow> mempool_gate \<times> ('w, 'id) session" where
  "mempool_tick ops inp gate ses =
     (if should_try (in_now inp) gate
      then (case run_mempool_session ops (in_mempool_connect inp) (in_mempool inp) (ses_wallet ses) (Some (ses_progress ses))
                   (ses_seen ses) (ses_tried ses) (ses_net ses) of
              (ms, ns, r) \<Rightarrow>
                (let ses1 = ses\<lparr>ses_wallet := ms_wallet ms, ses_seen := ms_seen ms, ses_tried := ms_tried ms, ses_net := ns,
                       ses_progress := (case ms_progress ms of Some q \<Rightarrow> q | None \<Rightarrow> ses_progress ses)\<rparr>
                 in case r of
                      Inr _ \<Rightarrow> (fst (on_ok gate), ses1)
                    | Inl _ \<Rightarrow> (fst (on_err (in_now_failed inp) gate), sleeps_for [follow_poll_jitter (in_sample inp)] ses1)))
      else (gate, sleeps_for [follow_poll_jitter (in_sample inp)] ses))"

definition catch_up :: "('n, 'a, 'k) session_config \<Rightarrow> ('w, 'n, 'a, 'k, 't, 'rs, 'u, 'd) session_input \<Rightarrow> nat \<Rightarrow> nat \<Rightarrow> mempool_gate \<Rightarrow>
    ('w, 'id) session \<Rightarrow> phase \<times> ('w, 'id) session" where
  "catch_up cfg inp last_tip failures gate ses =
     (let (ses1, r) = run_pass cfg [] inp (set_state Syncing ses)
      in case r of
           Running \<Rightarrow> (Unfinished, ses1)
         | Panicked \<Rightarrow> (Unwound, ses1)
         | Returned (Inr out) \<Rightarrow> (Following (so_chain_tip out) 0 gate, finish_pass out ses1)
         | Returned (Inl err) \<Rightarrow>
             (case catch_up_failure err of
                EndSession \<Rightarrow> (Ended, set_state Idle ses1)
              | StaySynced \<Rightarrow> (Following last_tip (failures + 1) gate, set_state Done ses1)))"

definition follow_step :: "('w, 'd, 'id, 'tx) mempool_ops \<Rightarrow> ('n, 'a, 'k) session_config \<Rightarrow>
    ('w, 'n, 'a, 'k, 't, 'rs, 'u, 'd) session_input \<Rightarrow> nat \<Rightarrow> nat \<Rightarrow> mempool_gate \<Rightarrow> ('w, 'id) session \<Rightarrow> phase \<times> ('w, 'id) session" where
  "follow_step ops cfg inp last_tip failures gate ses =
     (let (gate1, ses1) = mempool_tick ops inp gate ses;
          (bad_uri, das, tas, a) = in_probe inp
      in case probe_tip (sc_engine cfg) (sc_tor cfg) bad_uri das tas a (ses_net ses1) of
           (None, ns) \<Rightarrow> (Unfinished, ses1\<lparr>ses_net := ns\<rparr>)
         | (Some (Inl _), ns) \<Rightarrow>
             (Following last_tip (failures + 1) gate1,
              ses1\<lparr>ses_net := ns, ses_progress := note_attempt_failed (ses_progress ses1)\<rparr>)
         | (Some (Inr observed), ns) \<Rightarrow>
             (let ses2 = ses1\<lparr>ses_net := ns\<rparr>
              in if should_resync last_tip observed then catch_up cfg inp last_tip 0 gate1 ses2
                 else (Following last_tip 0 gate1, ses2)))"

fun session_step :: "('w, 'd, 'id, 'tx) mempool_ops \<Rightarrow> ('n, 'a, 'k) session_config \<Rightarrow>
    ('w, 'n, 'a, 'k, 't, 'rs, 'u, 'd) session_input \<Rightarrow> phase \<times> ('w, 'id) session \<Rightarrow> phase \<times> ('w, 'id) session" where
  "session_step ops cfg inp (Booting n, ses) = boot_step inp n ses"
| "session_step ops cfg inp (Initial i r, ses) = initial_step cfg inp i r ses"
| "session_step ops cfg inp (Following tip f g, ses) = follow_step ops cfg inp tip f g ses"
| "session_step ops cfg inp (Ended, ses) = (Ended, ses)"
| "session_step ops cfg inp (Unwound, ses) = (Unwound, ses)"
| "session_step ops cfg inp (Unfinished, ses) = (Unfinished, ses)"

text \<open>The session begins when it has the pass lock.\<close>

definition session_begin :: "('n, 'a, 'k) session_config \<Rightarrow> ('w, 'id) session \<Rightarrow> phase \<times> ('w, 'id) session" where
  "session_begin cfg ses =
     (if sc_tor cfg then Booting 0 else Initial 0 0,
      push_event \<lparr>ev_tag = 1, ev_value = 0\<rparr> (ses\<lparr>ses_progress := begin_session (ses_progress ses)\<rparr>))"

definition run_session :: "('w, 'd, 'id, 'tx) mempool_ops \<Rightarrow> ('n, 'a, 'k) session_config \<Rightarrow>
    ('w, 'n, 'a, 'k, 't, 'rs, 'u, 'd) session_input list \<Rightarrow> ('w, 'id) session \<Rightarrow> phase \<times> ('w, 'id) session" where
  "run_session ops cfg inps ses = fold (session_step ops cfg) inps (session_begin cfg ses)"

section \<open>The schedules are bounded\<close>

lemma on_err_off:
  "mg_retry g = Some (at', wait) \<Longrightarrow> fst (on_err now g) =
     \<lparr>mg_failures = min u32_max (mg_failures g + 1),
      mg_retry = Some (now + of_nat (min (wait * 2) MEMPOOL_RETRY_MAX), min (wait * 2) MEMPOOL_RETRY_MAX)\<rparr>"
  by (simp add: on_err_def Let_def)

text \<open>
  Mempool monitoring survives four failures in a row; the fifth turns it off for a minute, and every
  further failure doubles the wait, up to ten minutes.  It never stays off for good.
\<close>

theorem mempool_backoff_schedule:
  "fold (\<lambda>now g. fst (on_err now g)) ts mempool_gate_default =
     \<lparr>mg_failures = min u32_max (length ts),
      mg_retry = (if length ts < 5 then None
                  else let wait = min 600 (60 * 2 ^ (length ts - 5)) in Some (last ts + of_nat wait, wait))\<rparr>"
proof (induction ts rule: rev_induct)
  case Nil
  then show ?case by (simp add: mempool_gate_default_def)
next
  case (snoc now ts)
  let ?n = "length ts"
  have f: "min u32_max (min u32_max ?n + 1) = min u32_max (?n + 1)" by simp
  consider "?n + 1 < 5" | "?n + 1 = 5" | "5 \<le> ?n" by linarith
  then show ?case
  proof cases
    case 3
    then obtain k where k: "?n = k + 5" by (metis add.commute le_Suc_ex)
    have "min (min 600 (60 * 2 ^ k) * 2) 600 = min 600 (60 * 2 ^ Suc k :: nat)" by simp
    moreover have "mg_retry (fold (\<lambda>now g. fst (on_err now g)) ts mempool_gate_default) =
        Some (last ts + of_nat (min 600 (60 * 2 ^ k)), min 600 (60 * 2 ^ k))"
      using snoc by (simp add: k Let_def)
    from on_err_off [OF this, of now] have "fst (on_err now (fold (\<lambda>now g. fst (on_err now g)) ts mempool_gate_default)) =
        \<lparr>mg_failures = min u32_max (?n + 1), mg_retry = Some (now + of_nat (min (min 600 (60 * 2 ^ k) * 2) 600), min (min 600 (60 * 2 ^ k) * 2) 600)\<rparr>"
      by (simp add: MEMPOOL_RETRY_MAX_def snoc)
    moreover have "length (ts @ [now]) - 5 = Suc k" "\<not> length (ts @ [now]) < 5" using k by simp_all
    ultimately show ?thesis by (simp only: fold_append fold_simps comp_def Let_def last_snoc length_append_singleton if_False) simp
  qed (use snoc in \<open>simp_all add: on_err_def MEMPOOL_FAILURE_CAP_def MEMPOOL_RETRY_FIRST_def u32_max_def\<close>)
qed

text \<open>The poll interval takes each of the 21 values from 10 to 30 seconds for a 21st of the samples.\<close>

lemma jitter_uniform:
  assumes "of_nat k / 21 \<le> x" and "x < (of_nat k + 1) / 21" and "k \<le> 20"
  shows "follow_poll_jitter x = 10 + k"
proof -
  have "of_int (int k) \<le> x * 21" "x * 21 < of_int (int k) + 1" using assms(1,2) by (simp_all add: field_simps)
  then have "\<lfloor>x * 21\<rfloor> = int k" by (rule floor_unique)
  then show ?thesis using assms(3)
    by (simp add: follow_poll_jitter_def FOLLOW_POLL_MIN_SECS_def FOLLOW_POLL_MAX_SECS_def Let_def u64_max_def)
qed

lemma jitter_bounds: "10 \<le> follow_poll_jitter x \<and> follow_poll_jitter x \<le> 30"
  by (simp add: follow_poll_jitter_def FOLLOW_POLL_MIN_SECS_def FOLLOW_POLL_MAX_SECS_def Let_def)

section \<open>The pass ladder\<close>

definition pass_decide :: "slipstream_error \<Rightarrow> nat \<Rightarrow> bool" where
  "pass_decide e k \<longleftrightarrow> is_transient e \<and> k \<le> PASS_RETRY_MAX"

interpretation pass_ladder: retry_ladder pass_decide 3
  by unfold_locales (simp_all add: pass_decide_def PASS_RETRY_MAX_def)

lemma action_cases:
  "failed_pass_action e k = (if e = StoppedForWalletChange then ReturnStop
     else if pass_decide e k then RetryAfter (pass_retry_sleep k) else GiveUp)"
  by (simp add: failed_pass_action_def should_retry_def pass_decide_def)

text \<open>The outcomes of the attempts, if each were followed by the next.\<close>

fun pass_outcomes :: "('n, 'a) engine_config \<Rightarrow> ('k \<times> nat) list \<Rightarrow> bool \<Rightarrow>
    ('w, 'n, 'a, 'k, 't, 'rs, 'u) engine_env list \<Rightarrow> 'w \<times> progress \<Rightarrow> (slipstream_error + 'u sync_outcome) list" where
  "pass_outcomes cfg accounts tor [] s = []"
| "pass_outcomes cfg accounts tor (env # envs) (w, p) =
     (case sync_once env cfg accounts tor w (Some p) of
        ((w1, p1), Returned r) \<Rightarrow>
          r # pass_outcomes cfg accounts tor envs (w1, note_attempt_failed (case p1 of Some q \<Rightarrow> q | None \<Rightarrow> p))
      | _ \<Rightarrow> [])"

lemma ladder_run:
  assumes "retry_run pass_decide n (pass_outcomes cfg accounts tor envs s) = Some (r, k)"
  shows "\<exists>s' sleeps. run_pass_with_retry cfg accounts tor n envs s = (s', sleeps, Returned r) \<and>
    sleeps = map pass_retry_sleep [n + 1..<k] \<and> n < k"
  using assms
proof (induction envs arbitrary: n s)
  case (Cons env envs)
  obtain w p where s: "s = (w, p)" by force
  obtain w1 p1 x where once: "sync_once env cfg accounts tor w (Some p) = ((w1, p1), x)" by (metis surj_pair)
  obtain y where x: "x = Returned y" using Cons.prems once s by (cases x) auto
  show ?case
  proof (cases y)
    case (Inr out)
    then show ?thesis using Cons.prems by (auto simp: s once x Let_def)
  next
    case (Inl e)
    show ?thesis
    proof (cases "pass_decide e (n + 1)")
      case True
      then have "e \<noteq> StoppedForWalletChange" by (auto simp: pass_decide_def)
      let ?s1 = "(w1, note_attempt_failed (case p1 of Some q \<Rightarrow> q | None \<Rightarrow> p))"
      have rest: "retry_run pass_decide (n + 1) (pass_outcomes cfg accounts tor envs ?s1) = Some (r, k)"
        using Cons.prems True by (simp add: s once x Inl)
      obtain s' sleeps where "run_pass_with_retry cfg accounts tor (n + 1) envs ?s1 = (s', sleeps, Returned r)"
        "sleeps = map pass_retry_sleep [n + 2..<k]" "n + 1 < k" using Cons.IH [OF rest] by auto
      then show ?thesis using True \<open>e \<noteq> StoppedForWalletChange\<close>
        by (auto simp: s once x Inl action_cases upt_conv_Cons Let_def)
    next
      case False
      then show ?thesis using Cons.prems by (auto simp: s once x Inl action_cases Let_def)
    qed
  qed
qed simp

lemma outcomes_length:
  assumes "\<And>env w p. env \<in> set envs \<Longrightarrow> \<exists>s' r. sync_once env cfg accounts tor w (Some p) = (s', Returned r)"
  shows "length (pass_outcomes cfg accounts tor envs s) = length envs"
  using assms
proof (induction envs arbitrary: s)
  case (Cons env envs)
  obtain w p where s: "s = (w, p)" by force
  obtain w1 p1 r where "sync_once env cfg accounts tor w (Some p) = ((w1, p1), Returned r)"
    using Cons.prems [of env w p] by auto
  then show ?case using Cons by (simp add: s)
qed simp

text \<open>
  C23.  A pass is tried three times at most: when the attempts return, so does the ladder, with the first
  result that is a success or not worth retrying, or with the third; it slept 5 and then 15 seconds in
  between.  A wallet-change stop comes back from the first attempt at once and is not counted as a
  failed attempt.
\<close>

theorem pass_ladder_ends:
  assumes "3 \<le> length envs"
    and "\<And>env w p. env \<in> set envs \<Longrightarrow> \<exists>s' r. sync_once env cfg accounts tor w (Some p) = (s', Returned r)"
  shows "\<exists>s' sleeps r. run_pass_with_retry cfg accounts tor 0 envs s = (s', sleeps, Returned r) \<and>
      sleeps \<in> {[], [5], [5, 15]} \<and> r = pass_outcomes cfg accounts tor envs s ! length sleeps \<and>
      (\<forall>i < length sleeps. \<exists>e. pass_outcomes cfg accounts tor envs s ! i = Inl e \<and> is_transient e) \<and>
      (\<forall>e. r = Inl e \<longrightarrow> is_transient e \<longrightarrow> sleeps = [5, 15])"
proof -
  let ?os = "pass_outcomes cfg accounts tor envs s"
  have len: "length ?os = length envs" by (rule outcomes_length [OF assms(2)])
  obtain r k where run: "retry_run pass_decide 0 ?os = Some (r, k)"
    using pass_ladder.terminates [of 0 ?os] assms(1) len by auto
  obtain s' sleeps where lad: "run_pass_with_retry cfg accounts tor 0 envs s = (s', sleeps, Returned r)"
      "sleeps = map pass_retry_sleep [1..<k]" "0 < k"
    using ladder_run [OF run] by auto
  have k: "k \<le> 3" using pass_ladder.attempts_bounded [OF run] by simp
  have pre: "?os ! (k - 1) = r" "\<forall>i < k - 1. \<exists>e. ?os ! i = Inl e \<and> pass_decide e (i + 1)"
      "\<forall>e. r = Inl e \<longrightarrow> \<not> pass_decide e k"
    using retry_run_prefix [OF run] by auto
  have "k = 1 \<or> k = 2 \<or> k = 3" using k lad(3) by linarith
  then have sl: "sleeps = take (k - 1) [5, 15]"
    by (auto simp: lad(2) pass_retry_sleep_def upt_conv_Cons)
  have "k < 3 \<Longrightarrow> r = Inl e \<Longrightarrow> \<not> is_transient e" for e using pre(3) by (auto simp: pass_decide_def PASS_RETRY_MAX_def)
  moreover have "length sleeps = k - 1" using k by (simp add: sl)
  moreover have "sleeps \<in> {[], [5], [5, 15]}" using \<open>k = 1 \<or> k = 2 \<or> k = 3\<close> by (auto simp: sl)
  moreover have "k = 3 \<Longrightarrow> sleeps = [5, 15]" by (simp add: sl)
  ultimately show ?thesis using lad(1) pre(1,2) k
    by (intro exI [of _ s'] exI [of _ sleeps] exI [of _ r]) (auto simp: pass_decide_def le_less)
qed

definition offline_env :: "(nat, unit, unit, unit, unit, unit, unit) engine_env" where
  "offline_env = quiet_env\<lparr>ee_connect := Inl (Transport ''down'')\<rparr>"

lemma offline_pass:
  "sync_once offline_env two_hosts [] True w (Some p) =
     ((0, Some (begin_pass 5 p)), Returned (Inl (Transport ''down'')))"
  by (simp add: sync_once_def offline_env_def quiet_env_def two_hosts_def config_new_def validate_def
      host_a_def with_selected_endpoint_def Let_def)

theorem pass_ladder_ends_witness:
  "\<exists>s'. run_pass_with_retry two_hosts [] True 0 (replicate 3 offline_env) (0, progress_default) =
     (s', [5, 15], Returned (Inl (Transport ''down'')))"
proof -
  have "\<And>env w p. env \<in> set (replicate 3 offline_env) \<Longrightarrow>
      \<exists>s' r. sync_once env two_hosts [] True w (Some p) = (s', Returned r)"
    by (simp add: offline_pass)
  moreover have "pass_outcomes two_hosts [] True (replicate 3 offline_env) (0, progress_default) =
      replicate 3 (Inl (Transport ''down''))"
    by (simp add: offline_pass numeral_3_eq_3)
  ultimately show ?thesis
    using pass_ladder_ends [of "replicate 3 offline_env" two_hosts "[]" True "(0, progress_default)"]
    by (auto simp: numeral_3_eq_3)
qed

section \<open>How a session ends\<close>

text \<open>The result of the pass a step runs, if it runs one.\<close>

definition step_pass :: "('w, 'd, 'id, 'tx) mempool_ops \<Rightarrow> ('n, 'a, 'k) session_config \<Rightarrow>
    ('w, 'n, 'a, 'k, 't, 'rs, 'u, 'd) session_input \<Rightarrow> phase \<times> ('w, 'id) session \<Rightarrow>
    (slipstream_error + 'u sync_outcome) run option" where
  "step_pass ops cfg inp s =
     (case s of
        (Initial i r, ses) \<Rightarrow> Some (snd (run_pass cfg (sc_accounts cfg) inp (set_state Syncing ses)))
      | (Following tip f g, ses) \<Rightarrow>
          (let (gate1, ses1) = mempool_tick ops inp g ses; (bad_uri, das, tas, a) = in_probe inp
           in case probe_tip (sc_engine cfg) (sc_tor cfg) bad_uri das tas a (ses_net ses1) of
                (Some (Inr observed), ns) \<Rightarrow>
                  if should_resync tip observed
                  then Some (snd (run_pass cfg [] inp (set_state Syncing (ses1\<lparr>ses_net := ns\<rparr>)))) else None
              | _ \<Rightarrow> None)
      | _ \<Rightarrow> None)"

text \<open>An alarm: an error state or an error event.\<close>

fun alarm :: "effect \<Rightarrow> bool" where
  "alarm (SetState (Error _)) = True"
| "alarm (Push e) = (ev_tag e = 4)"
| "alarm _ = False"

definition quiet_since :: "('w, 'id) session \<Rightarrow> ('w, 'id) session \<Rightarrow> bool" where
  "quiet_since ses ses' \<longleftrightarrow> (\<exists>new. ses_log ses' = ses_log ses @ new \<and> (\<forall>x \<in> set new. \<not> alarm x \<and> (\<forall>e. x \<noteq> Push e \<or> ev_tag e \<noteq> 1)))"

lemma quiet_refl: "ses_log ses' = ses_log ses \<Longrightarrow> quiet_since ses ses'"
  by (simp add: quiet_since_def)

lemma quiet_trans: "quiet_since a b \<Longrightarrow> quiet_since b c \<Longrightarrow> quiet_since a c"
  by (fastforce simp: quiet_since_def)

lemma quiet_sleeps: "quiet_since ses (sleeps_for ns ses)"
  by (auto simp: quiet_since_def sleeps_for_def)

lemma quiet_set_state: "(\<forall>n. s \<noteq> Error n) \<Longrightarrow> quiet_since ses (set_state s ses)"
  by (cases s) (auto simp: quiet_since_def set_state_def)

lemma quiet_push: "ev_tag e \<noteq> 4 \<Longrightarrow> ev_tag e \<noteq> 1 \<Longrightarrow> quiet_since ses (push_event e ses)"
  by (auto simp: quiet_since_def push_event_def)

lemma quiet_run_pass: "run_pass cfg accounts inp ses = (ses', r) \<Longrightarrow> quiet_since ses ses' \<and> ses_state ses' = ses_state ses"
  by (auto simp: run_pass_def quiet_since_def sleeps_for_def split: prod.splits)

lemma quiet_tick: "mempool_tick ops inp g ses = (g', ses') \<Longrightarrow> quiet_since ses ses' \<and> ses_state ses' = ses_state ses"
  by (auto simp: mempool_tick_def quiet_since_def sleeps_for_def Let_def split: if_splits prod.splits sum.splits)

lemma quiet_finish: "quiet_since ses (finish_pass out ses)"
  unfolding finish_pass_def by (rule quiet_trans [OF quiet_set_state quiet_push]) auto

lemma state_simps [simp]: "ses_state (set_state s ses) = s" "ses_state (push_event e ses) = ses_state ses"
  "ses_state (sleeps_for ns ses) = ses_state ses" "ses_state (finish_pass out ses) = Done"
  by (simp_all add: set_state_def push_event_def sleeps_for_def finish_pass_def)

lemma initial_step_ends:
  "fst (initial_step cfg inp i r ses) = Ended \<longleftrightarrow>
     snd (run_pass cfg (sc_accounts cfg) inp (set_state Syncing ses)) = Returned (Inl StoppedForWalletChange)"
  by (auto simp: initial_step_def Let_def initial_pass_failure_def case_prod_unfold
      split: run.splits sum.splits initial_failure.splits)

lemma catch_up_ends:
  "fst (catch_up cfg inp tip f g ses) = Ended \<longleftrightarrow>
     snd (run_pass cfg [] inp (set_state Syncing ses)) = Returned (Inl StoppedForWalletChange)"
  by (auto simp: catch_up_def Let_def catch_up_failure_def case_prod_unfold
      split: run.splits sum.splits follow_failure.splits)

lemma initial_step_quiet_end:
  assumes "initial_step cfg inp i r ses = (Ended, ses')"
  shows "ses_state ses' = Idle \<and> quiet_since ses ses'"
proof -
  obtain ses1 x where run: "run_pass cfg (sc_accounts cfg) inp (set_state Syncing ses) = (ses1, x)" by force
  then have "ses' = set_state Idle ses1"
    using assms by (auto simp: initial_step_def split: run.splits sum.splits initial_failure.splits)
  moreover have "quiet_since ses ses1"
    using quiet_trans [OF quiet_set_state] quiet_run_pass [OF run] by blast
  ultimately show ?thesis using quiet_trans [OF _ quiet_set_state] by auto
qed

lemma catch_up_quiet:
  assumes "catch_up cfg inp tip f g ses = (ph, ses')"
  shows "quiet_since ses ses' \<and> (ph = Ended \<longrightarrow> ses_state ses' = Idle) \<and> (\<forall>tip f g. ph = Following tip f g \<longrightarrow> ses_state ses' = Done) \<and>
    (\<forall>i r. ph \<noteq> Initial i r) \<and> (\<forall>n. ph \<noteq> Booting n)"
proof -
  obtain ses1 x where run: "run_pass cfg [] inp (set_state Syncing ses) = (ses1, x)" by force
  have q: "quiet_since ses ses1"
    using quiet_trans [OF quiet_set_state] quiet_run_pass [OF run] by blast
  have "ses' \<in> {ses1, set_state Idle ses1, set_state Done ses1} \<or> (\<exists>out. x = Returned (Inr out) \<and> ses' = finish_pass out ses1)"
    using assms run by (auto simp: catch_up_def split: run.splits sum.splits follow_failure.splits)
  then have "quiet_since ses1 ses'" using quiet_refl quiet_finish quiet_set_state by blast
  then show ?thesis using quiet_trans [OF q] assms run
    by (auto simp: catch_up_def split: run.splits sum.splits follow_failure.splits)
qed

lemma follow_step_quiet:
  assumes "follow_step ops cfg inp tip f g ses = (ph, ses')" and "ses_state ses = Done"
  shows "quiet_since ses ses' \<and> (ph = Ended \<longrightarrow> ses_state ses' = Idle) \<and> (\<forall>tip f g. ph = Following tip f g \<longrightarrow> ses_state ses' = Done) \<and>
    (\<forall>i r. ph \<noteq> Initial i r) \<and> (\<forall>n. ph \<noteq> Booting n)"
proof -
  obtain g1 ses1 where tick: "mempool_tick ops inp g ses = (g1, ses1)" by force
  obtain u d t a where pr: "in_probe inp = (u, d, t, a)" by (metis prod_cases4)
  obtain x ns where probe: "probe_tip (sc_engine cfg) (sc_tor cfg) u d t a (ses_net ses1) = (x, ns)" by force
  have q: "quiet_since ses ses1" "ses_state ses1 = Done" using quiet_tick [OF tick] assms(2) by auto
  consider "ses_log ses' = ses_log ses1" "ses_state ses' = Done" "ph = Unfinished \<or> (\<exists>tip f g. ph = Following tip f g)"
    | "catch_up cfg inp tip 0 g1 (ses1\<lparr>ses_net := ns\<rparr>) = (ph, ses')"
    using assms(1) q(2) by (auto simp: follow_step_def tick pr probe Let_def split: option.splits sum.splits if_splits)
  then show ?thesis
  proof cases
    case 1
    then show ?thesis using quiet_trans [OF q(1) quiet_refl] by auto
  next
    case 2
    have "quiet_since ses (ses1\<lparr>ses_net := ns\<rparr>)" by (rule quiet_trans [OF q(1) quiet_refl]) simp
    then show ?thesis using catch_up_quiet [OF 2] quiet_trans by blast
  qed
qed

lemma session_step_ends:
  assumes "fst s \<noteq> Ended"
  shows "fst (session_step ops cfg inp s) = Ended \<longleftrightarrow> step_pass ops cfg inp s = Some (Returned (Inl StoppedForWalletChange))"
proof -
  obtain ph ses where s: "s = (ph, ses)" by force
  show ?thesis
  proof (cases ph)
    case (Following tip f g)
    obtain g1 ses1 where tick: "mempool_tick ops inp g ses = (g1, ses1)" by force
    obtain u d t a where pr: "in_probe inp = (u, d, t, a)" by (metis prod_cases4)
    obtain x ns where probe: "probe_tip (sc_engine cfg) (sc_tor cfg) u d t a (ses_net ses1) = (x, ns)" by force
    show ?thesis using catch_up_ends [of cfg inp tip 0 g1 "ses1\<lparr>ses_net := ns\<rparr>"]
      by (auto simp: s Following step_pass_def follow_step_def tick pr probe Let_def split: option.splits sum.splits)
  qed (use assms in \<open>auto simp: s step_pass_def initial_step_ends boot_step_def split: sum.splits\<close>)
qed

section \<open>Every reachable state\<close>

inductive session_reaches :: "('w, 'd, 'id, 'tx) mempool_ops \<Rightarrow> ('n, 'a, 'k) session_config \<Rightarrow> ('w, 'id) session \<Rightarrow>
    ('w, 'n, 'a, 'k, 't, 'rs, 'u, 'd) session_input list \<Rightarrow> phase \<times> ('w, 'id) session \<Rightarrow> bool"
  for ops cfg ses0 where
  begins: "session_reaches ops cfg ses0 [] (session_begin cfg ses0)"
| steps: "session_reaches ops cfg ses0 inps s \<Longrightarrow> session_reaches ops cfg ses0 (inps @ [inp]) (session_step ops cfg inp s)"

lemma run_session_reaches: "session_reaches ops cfg ses0 inps (run_session ops cfg inps ses0)"
proof (induction inps rule: rev_induct)
  case Nil
  then show ?case by (simp add: run_session_def begins)
next
  case (snoc inp inps)
  then show ?case using steps [of ops cfg ses0 inps _ inp] by (simp add: run_session_def)
qed

text \<open>
  The invariant: the started event came once; before the first success nothing was announced as done;
  while following, the host sees the session done; an ended session is idle; and no alarm follows the
  first success.
\<close>

fun calm_after_done :: "effect list \<Rightarrow> bool" where
  "calm_after_done [] = True"
| "calm_after_done (x # lg) = (if x = SetState Done then \<forall>y \<in> set lg. \<not> alarm y else calm_after_done lg)"

definition started_once :: "effect list \<Rightarrow> bool" where
  "started_once lg \<longleftrightarrow> length (filter (\<lambda>x. \<exists>e. x = Push e \<and> ev_tag e = 1) lg) = 1"

definition session_inv :: "phase \<times> ('w, 'id) session \<Rightarrow> bool" where
  "session_inv s =
     (case s of (ph, ses) \<Rightarrow>
        started_once (ses_log ses) \<and> calm_after_done (ses_log ses) \<and>
        ((\<exists>n. ph = Booting n) \<or> (\<exists>i r. ph = Initial i r) \<longrightarrow> SetState Done \<notin> set (ses_log ses)) \<and>
        ((\<exists>tip f g. ph = Following tip f g) \<longrightarrow> ses_state ses = Done) \<and>
        (ph = Ended \<longrightarrow> ses_state ses = Idle))"

lemma calm_append:
  "calm_after_done lg \<Longrightarrow> SetState Done \<notin> set lg \<and> SetState Done \<notin> set new \<or> (\<forall>x \<in> set new. \<not> alarm x) \<Longrightarrow>
   calm_after_done (lg @ new)"
proof (induction lg)
  case Nil
  then show ?case by (induction new) auto
qed auto

lemma quiet_log:
  assumes "quiet_since ses ses'" and "started_once (ses_log ses)" and "calm_after_done (ses_log ses)"
  shows "started_once (ses_log ses') \<and> calm_after_done (ses_log ses')"
proof -
  obtain new where new: "ses_log ses' = ses_log ses @ new" "\<forall>x \<in> set new. \<not> alarm x \<and> (\<forall>e. x \<noteq> Push e \<or> ev_tag e \<noteq> 1)"
    using assms(1) by (auto simp: quiet_since_def)
  have "filter (\<lambda>x. \<exists>e. x = Push e \<and> ev_tag e = 1) new = []" using new(2) by (auto simp: filter_empty_conv)
  then show ?thesis using new assms(2,3) calm_append by (auto simp: started_once_def)
qed

lemma initial_step_inv:
  assumes inv: "session_inv (Initial i r, ses)" and step: "initial_step cfg inp i r ses = (ph', ses')"
  shows "session_inv (ph', ses')"
proof -
  obtain ses1 x where run: "run_pass cfg (sc_accounts cfg) inp (set_state Syncing ses) = (ses1, x)" by force
  obtain sl where log1: "ses_log ses1 = ses_log ses @ SetState Syncing # map Slept sl"
    using run by (auto simp: run_pass_def set_state_def sleeps_for_def split: prod.splits)
  have st: "started_once (ses_log ses)" "calm_after_done (ses_log ses)" "SetState Done \<notin> set (ses_log ses)"
    using inv by (auto simp: session_inv_def)
  have q1: "started_once (ses_log ses1) \<and> calm_after_done (ses_log ses1)"
    using quiet_log [OF _ st(1,2), of ses1] quiet_trans [OF quiet_set_state] quiet_run_pass [OF run] by blast
  have no_done: "SetState Done \<notin> set (ses_log ses1)" using st(3) log1 by auto
  consider (quiet) "ses' = ses1" "ph' \<in> {Unfinished, Unwound}"
    | (ok) out where "x = Returned (Inr out)" "ses' = (finish_pass out ses1)\<lparr>ses_seen := {}\<rparr>" "\<exists>t f g. ph' = Following t f g"
    | (stop) "ses' = set_state Idle ses1" "ph' = Ended"
    | (retry) n where "ses' = sleeps_for [n] (set_state Idle ses1)" "\<exists>i r. ph' = Initial i r"
    | (revive) n where "ses' = sleeps_for [n] (push_event \<lparr>ev_tag = 4, ev_value = 1\<rparr> (set_state (Error 1) ses1))"
        "\<exists>i r. ph' = Initial i r"
    using step run by (auto simp: initial_step_def split: run.splits sum.splits initial_failure.splits)
  then show ?thesis
  proof cases
    case quiet
    then show ?thesis using q1 by (auto simp: session_inv_def)
  next
    case ok
    then show ?thesis using quiet_log [OF quiet_finish, of ses1 out] q1 by (auto simp: session_inv_def)
  next
    case stop
    then show ?thesis using quiet_log [OF quiet_set_state [of Idle ses1]] q1 by (auto simp: session_inv_def)
  next
    case retry
    have "quiet_since ses1 ses'" unfolding retry(1) by (rule quiet_trans [OF quiet_set_state quiet_sleeps]) simp
    then have "started_once (ses_log ses') \<and> calm_after_done (ses_log ses')" using quiet_log q1 by blast
    moreover have "SetState Done \<notin> set (ses_log ses')" using no_done by (simp add: retry(1) sleeps_for_def set_state_def)
    ultimately show ?thesis using retry(2) by (auto simp: session_inv_def)
  next
    case revive
    have "calm_after_done (ses_log ses')"
      using calm_append [of "ses_log ses1"] q1 no_done by (auto simp: revive(1) sleeps_for_def push_event_def set_state_def)
    then show ?thesis using q1 no_done revive
      by (auto simp: session_inv_def sleeps_for_def set_state_def push_event_def started_once_def)
  qed
qed

lemma session_step_inv: "session_inv s \<Longrightarrow> session_inv (session_step ops cfg inp s)"
proof -
  assume inv: "session_inv s"
  obtain ph ses where s: "s = (ph, ses)" by force
  obtain ph' ses' where s': "session_step ops cfg inp s = (ph', ses')" by force
  have st: "started_once (ses_log ses)" "calm_after_done (ses_log ses)" using inv by (auto simp: s session_inv_def)
  have "session_inv (ph', ses')"
  proof (cases ph)
    case (Booting n)
    have "quiet_since ses (sleeps_for [sync_retry_backoff (n + 1)] (set_state Idle ses))"
      by (rule quiet_trans [OF quiet_set_state quiet_sleeps]) simp
    then show ?thesis using quiet_log [OF _ st] inv s' s Booting
      by (auto simp: boot_step_def session_inv_def sleeps_for_def set_state_def split: sum.splits)
  next
    case (Initial i r)
    then show ?thesis using initial_step_inv inv s s' by fastforce
  next
    case (Following tip f g)
    then have "follow_step ops cfg inp tip f g ses = (ph', ses')" "ses_state ses = Done"
      using inv s s' by (auto simp: session_inv_def)
    from follow_step_quiet [OF this] quiet_log [OF _ st] show ?thesis by (auto simp: session_inv_def)
  qed (use inv s s' in auto)
  then show ?thesis using s' by simp
qed

lemma reachable_inv:
  assumes "session_reaches ops cfg ses0 inps s" and "ses_log ses0 = []"
  shows "session_inv s"
  using assms(1)
proof induction
  case begins
  then show ?case using assms(2)
    by (auto simp: session_inv_def session_begin_def push_event_def started_once_def)
qed (rule session_step_inv)

text \<open>
  C16.  A session ends exactly when a pass comes back stopped for a wallet change, in the initial pass or in
  a catch-up pass: no other failure, however often it repeats, ends a session.  The session then ends
  quietly: idle, without an alarm.
\<close>

theorem session_ends_exactly_on_stop:
  assumes "session_reaches ops cfg ses0 inps (ph, ses)" and "ses_log ses0 = []" and "ph \<noteq> Ended"
    and "session_step ops cfg inp (ph, ses) = (ph', ses')"
  shows "(ph' = Ended \<longleftrightarrow> step_pass ops cfg inp (ph, ses) = Some (Returned (Inl StoppedForWalletChange))) \<and>
    (ph' = Ended \<longrightarrow> ses_state ses' = Idle \<and> quiet_since ses ses')"
proof -
  have inv: "session_inv (ph, ses)" using reachable_inv [OF assms(1,2)] .
  have "ph' = Ended \<longleftrightarrow> step_pass ops cfg inp (ph, ses) = Some (Returned (Inl StoppedForWalletChange))"
    using session_step_ends [of "(ph, ses)" ops cfg inp] assms(3,4) by simp
  moreover have "ses_state ses' = Idle \<and> quiet_since ses ses'" if e: "ph' = Ended"
  proof (cases ph)
    case (Booting n)
    then show ?thesis using assms(4) e by (auto simp: boot_step_def split: sum.splits)
  next
    case (Initial i r)
    then show ?thesis using assms(4) e initial_step_quiet_end by fastforce
  next
    case (Following tip f g)
    then have "follow_step ops cfg inp tip f g ses = (Ended, ses')" "ses_state ses = Done"
      using assms(4) e inv by (auto simp: session_inv_def)
    from follow_step_quiet [OF this] show ?thesis by simp
  qed (use assms(3,4) e in auto)
  ultimately show ?thesis by blast
qed


definition demo_session :: "(nat, nat) session" where
  "demo_session = \<lparr>ses_wallet = 0, ses_progress = progress_default, ses_state = Idle, ses_events = [], ses_seen = {},
     ses_tried = [], ses_net = net_start, ses_log = []\<rparr>"

definition demo_session_config :: "(unit, unit, unit) session_config" where
  "demo_session_config = \<lparr>sc_engine = two_hosts, sc_accounts = [], sc_tor = True\<rparr>"

definition stopped_env :: "(nat, unit, unit, unit, unit, unit, unit) engine_env" where
  "stopped_env = quiet_env\<lparr>ee_connect := Inl StoppedForWalletChange\<rparr>"

definition demo_input :: "(nat, unit, unit, unit, unit, unit, unit) engine_env \<Rightarrow>
    (nat, unit, unit, unit, unit, unit, unit, nat) session_input" where
  "demo_input env = \<lparr>in_boot = Inr (), in_envs = [env, env, env], in_now = 0, in_mempool_connect = Inr (), in_mempool = None,
     in_now_failed = 0, in_sample = 0, in_probe = (None, [], [], CallTimedOut)\<rparr>"

definition locked_mempool :: "(nat, nat, nat, nat) mempool_ops" where
  "locked_mempool = \<lparr>mo_open = (\<lambda>w. Inr ()), mo_parse = (\<lambda>d. Inr (d, d)), mo_store = (\<lambda>tx h w. (w, Inl ''locked'')),
     mo_is_stored = (\<lambda>i w. Inr False)\<rparr>"


lemma stopped_pass:
  "sync_once stopped_env two_hosts [] True w (Some p) = ((0, Some (begin_pass 5 p)), Returned (Inl StoppedForWalletChange))"
  by (simp add: sync_once_def stopped_env_def quiet_env_def two_hosts_def config_new_def validate_def
      host_a_def with_selected_endpoint_def Let_def)

theorem session_ends_exactly_on_stop_witness:
  "\<exists>ses ses'. session_step locked_mempool demo_session_config (demo_input stopped_env)
       (Initial 0 0, ses) = (Ended, ses') \<and>
     session_reaches locked_mempool demo_session_config demo_session [demo_input stopped_env] (Initial 0 0, ses) \<and>
     ses_state ses' = Idle"
proof -
  let ?cfg = demo_session_config and ?inp = "demo_input stopped_env"
  let ?s = "run_session locked_mempool ?cfg [?inp] demo_session"
  obtain ses where s: "?s = (Initial 0 0, ses)"
    by (simp add: run_session_def session_begin_def demo_session_config_def boot_step_def demo_input_def)
  then have reach: "session_reaches locked_mempool ?cfg demo_session [?inp] (Initial 0 0, ses)"
    using run_session_reaches [of locked_mempool ?cfg demo_session "[?inp]"] by simp
  obtain ph' ses' where step: "session_step locked_mempool ?cfg ?inp (Initial 0 0, ses) = (ph', ses')" by force
  have "step_pass locked_mempool ?cfg ?inp (Initial 0 0, ses) = Some (Returned (Inl StoppedForWalletChange))"
    by (simp add: step_pass_def run_pass_def demo_session_config_def demo_input_def stopped_pass action_cases Let_def)
  then show ?thesis
    using session_ends_exactly_on_stop [OF reach _ _ step] step reach by (auto simp: demo_session_def)
qed

section \<open>A failed address history\<close>

text \<open>
  C40.  The session promises never to show an error for a failure of transport.  An address history the
  server does not deliver fails the enhancement with a wallet error, so an initial pass that fails on
  it is not retried as a transport failure: the host sees an error state and an error event.
\<close>

theorem history_failure_surfaces_error:
  assumes "eo_requests eops w = Inr [InvolvingAddress tia]" and "ta_end tia = Some h"
    and "\<not> ta_request_at tia" and "\<not> ta_unspent_only tia" and "re_arrivals (envs 0) [] = []"
    and "taddress_txids (re_history (envs 0) tia) p = (p', Inl (Transport m))"
  shows "\<exists>st err. run_enhancement eops envs w p skipped = (st, Inl err) \<and> initial_pass_failure err = Revive"
proof -
  obtain st m' where "run_enhancement eops envs w p skipped = (st, Inl (Wallet m'))"
    using history_failure [where envs = envs and skipped = skipped, OF assms] by blast
  then show ?thesis by (intro exI [of _ st] exI [of _ "Wallet m'"]) (simp add: initial_pass_failure_def)
qed

theorem history_failure_surfaces_error_witness:
  "\<exists>st err. run_enhancement ((demo_enhance_ops (demo_request\<lparr>ta_request_at := False\<rparr>))
      \<lparr>eo_requests := \<lambda>w. Inr [InvolvingAddress (demo_request\<lparr>ta_request_at := False\<rparr>)]\<rparr>)
     (\<lambda>k. demo_round_env) 0 None {} = (st, Inl err) \<and> initial_pass_failure err = Revive"
proof -
  let ?tia = "demo_request\<lparr>ta_request_at := False\<rparr>"
  let ?ops = "(demo_enhance_ops ?tia)\<lparr>eo_requests := \<lambda>w. Inr [InvolvingAddress ?tia]\<rparr>"
  have "taddress_txids (re_history demo_round_env ?tia) None =
      (None, Inl (Transport (''get_taddress_txids'' @ '': timed out after '' @ nat_str UNARY_TIMEOUT @ ''s'')))"
    by (simp add: demo_round_env_def taddress_txids_def with_unary_timeout_def)
  then show ?thesis
    using history_failure_surfaces_error [of ?ops 0 ?tia 9 "\<lambda>k. demo_round_env" None None _ "{}"]
    by (simp add: demo_request_def demo_round_env_def)
qed

end
