(* ===== verification/Slip_Scan.thy ===== *)
theory Slip_Scan
  imports Slip_Source Slip_Fence Slip_Progress Slip_Stats Slip_Config
begin

text \<open>
  The scan of a range (\<open>src/core/src/scan.rs\<close>): chunks are scanned in sub-batches, each call of the
  wallet library's scanner needing the chain state at the height below its first block.  In server
  mode that state is fetched while the previous sub-batch is scanned; in local mode it is derived from
  the scanned blocks and checked against the server now and then.

  The scanner, the chain states and the wallet (with its write-behind lane) are other code: the record
  \<open>scan_ops\<close>.  One fetch per height is made during a scan, so the server's answer is a function of the
  height.  Measured times are inputs; the liveness stamps that tree-state fetches make on their own
  tasks are left out.
\<close>

section \<open>Pure parts\<close>

definition MIN_BATCH :: nat where "MIN_BATCH = 1000"

text \<open>\<open>clamp\<close> panics when the minimum exceeds the maximum: \<^term>\<open>None\<close>.\<close>

definition next_batch_len :: "nat \<Rightarrow> nat \<Rightarrow> nat \<Rightarrow> nat \<Rightarrow> nat \<Rightarrow> nat option" where
  "next_batch_len prev_len prev_elapsed_ms target_ms mn mx =
     (if prev_elapsed_ms = 0 then Some mx
      else if mn > mx then None
      else Some (max mn (min mx (saturating_mul64 prev_len target_ms div prev_elapsed_ms))))"

definition should_interleave_enhancement :: "nat \<Rightarrow> nat \<Rightarrow> bool" where
  "should_interleave_enhancement chunks_done every \<longleftrightarrow> every > 0 \<and> chunks_done > 0 \<and> chunks_done mod every = 0"

definition needs_server_boundary_state :: "bool \<Rightarrow> bool \<Rightarrow> nat \<Rightarrow> nat \<Rightarrow> bool" where
  "needs_server_boundary_state local_mode audit boundary range_end = (if local_mode then audit else boundary < range_end)"

definition local_treestate_active :: "('n, 'a) engine_config \<Rightarrow> bool \<Rightarrow> bool" where
  "local_treestate_active cfg fuse \<longleftrightarrow> local_treestate cfg \<and> \<not> fuse"

text \<open>An error of the scanner: its source refused a block, a continuity break, or something else.\<close>

datatype scan_failure = SourceRefused | ContinuityBreak nat | ScanFailed string

definition map_scan_error :: "scan_failure \<Rightarrow> slipstream_error" where
  "map_scan_error e = (case e of
       SourceRefused \<Rightarrow> StoppedForWalletChange
     | ContinuityBreak at' \<Rightarrow> ScanContinuity at'
     | ScanFailed m \<Rightarrow> Wallet (''scan_cached_blocks: '' @ m))"

section \<open>The world of a scan\<close>

record scan_summary =
  sm_scanned :: "nat \<times> nat"
  sm_sapling :: nat
  sm_orchard :: nat

record ('s, 't, 'c, 'l) scan_ops =
  so_seed_state :: "nat \<Rightarrow> slipstream_error + 't"
  so_prefetch :: "nat \<Rightarrow> string + (slipstream_error + 't)"
  so_to_chain :: "'t \<Rightarrow> string + 'c"
  so_seed :: "'c \<Rightarrow> 'l"
  so_absorb :: "compact_block \<Rightarrow> 'l \<Rightarrow> string + 'l"
  so_chain_state :: "nat \<Rightarrow> bytes \<Rightarrow> 'l \<Rightarrow> 'c"
  so_scan :: "chunk \<Rightarrow> nat \<Rightarrow> 'c \<Rightarrow> nat \<Rightarrow> 's \<Rightarrow> 's \<times> (scan_failure + scan_summary)"
  so_submit :: "'s \<Rightarrow> 's \<times> (slipstream_error + unit)"
  so_drain :: "'s \<Rightarrow> 's \<times> (slipstream_error + unit)"
  so_enhance :: "'s \<times> progress option \<Rightarrow> ('s \<times> progress option) \<times> (slipstream_error + enhance_stats)"
  so_reseed :: "'s \<Rightarrow> 's \<times> (string + unit)"
  so_open :: "'s \<Rightarrow> 's \<times> (slipstream_error + unit)"
  so_drop_stash :: "'s \<Rightarrow> 's"
  so_finish_graft :: "'s \<Rightarrow> 's \<times> (slipstream_error + unit)"
  so_lane_times :: "'s \<Rightarrow> rat \<times> rat"
  so_census :: "'s \<Rightarrow> shard_census \<times> shard_census"

text \<open>The times of a sub-batch, and which audits have finished by its end.\<close>

record sub_times =
  tm_spawn :: rat
  tm_state_prep :: rat
  tm_elapsed_ms :: nat
  tm_walk1 :: rat
  tm_walk2 :: rat
  tm_submit_wait :: rat
  tm_submit :: rat
  tm_absorb :: rat
  tm_prefetch_wait :: rat
  tm_finished :: "nat \<Rightarrow> bool"

record chunk_times =
  tm_recv_wait :: rat
  tm_now :: nat
  tm_drain :: rat
  tm_enhance :: rat
  tm_reseed :: rat

text \<open>
  The state of the loop.  \<open>sn_calls\<close> records the calls of the scanner: the first height, the chain
  state and the number of blocks.
\<close>

record ('s, 't, 'c, 'l) scan_state =
  sn_store :: 's
  sn_progress :: "progress option"
  sn_stats :: scan_stats
  sn_next :: 't
  sn_local :: "'l option"
  sn_boundary :: "(nat \<times> bytes) option"
  sn_index :: nat
  sn_audits :: "(nat \<times> 'c) list"
  sn_notes :: nat
  sn_batch_len :: nat
  sn_first :: bool
  sn_fence :: decryption_fence
  sn_fuse :: bool
  sn_calls :: "(nat \<times> 'c \<times> nat) list"

section \<open>Audits\<close>

text \<open>Settling the audits; those still running stay unless all are awaited.\<close>

fun drain_audits :: "('s, 't, 'c, 'l) scan_ops \<Rightarrow> bool \<Rightarrow> (nat \<Rightarrow> bool) \<Rightarrow> (nat \<times> 'c) list \<Rightarrow>
    slipstream_error + (nat \<times> 'c) list" where
  "drain_audits ops force_all finished [] = Inr []"
| "drain_audits ops force_all finished ((h, expected) # audits) =
     (if \<not> force_all \<and> \<not> finished h then map_sum id (Cons (h, expected)) (drain_audits ops force_all finished audits)
      else case so_prefetch ops h of
             Inl _ \<Rightarrow> drain_audits ops force_all finished audits
           | Inr (Inl _) \<Rightarrow> drain_audits ops force_all finished audits
           | Inr (Inr server) \<Rightarrow>
               (case so_to_chain ops server of
                  Inl _ \<Rightarrow> drain_audits ops force_all finished audits
                | Inr server_state \<Rightarrow>
                    if server_state \<noteq> expected
                    then Inl (Wallet (''local treestate MISMATCH vs server at height '' @ nat_str h @
                           '' '' @ [CHR 0xE2, CHR 0x80, CHR 0x94] @
                           '' pass aborted, fuse tripped (server path on revival)''))
                    else drain_audits ops force_all finished audits))"

definition settle :: "('s, 't, 'c, 'l) scan_ops \<Rightarrow> bool \<Rightarrow> (nat \<Rightarrow> bool) \<Rightarrow> ('s, 't, 'c, 'l) scan_state \<Rightarrow>
    ('s, 't, 'c, 'l) scan_state \<times> (slipstream_error + unit)" where
  "settle ops force_all finished st =
     (case drain_audits ops force_all finished (sn_audits st) of
        Inl e \<Rightarrow> (st\<lparr>sn_audits := [], sn_fuse := True\<rparr>, Inl e)
      | Inr audits \<Rightarrow> (st\<lparr>sn_audits := audits\<rparr>, Inr ()))"

section \<open>One sub-batch\<close>

definition from_state_of :: "('s, 't, 'c, 'l) scan_ops \<Rightarrow> ('s, 't, 'c, 'l) scan_state \<Rightarrow> slipstream_error + 'c" where
  "from_state_of ops st =
     (case (sn_local st, sn_boundary st) of
        (Some ts, Some (bh, bhash)) \<Rightarrow>
          if bh > u32_max then Inl (Wallet (''height '' @ nat_str bh @ '' exceeds u32''))
          else Inr (so_chain_state ops bh bhash ts)
      | _ \<Rightarrow> map_sum (\<lambda>e. Wallet (''chain state: '' @ e)) id (so_to_chain ops (sn_next st)))"

text \<open>Absorbing the blocks of heights \<open>h\<close> to \<open>h + n - 1\<close>.\<close>

fun absorb_blocks :: "('s, 't, 'c, 'l) scan_ops \<Rightarrow> chunk \<Rightarrow> nat \<Rightarrow> nat \<Rightarrow> nat \<Rightarrow> 'l \<Rightarrow> slipstream_error + 'l" where
  "absorb_blocks ops ch chunk_start h 0 ts = Inr ts"
| "absorb_blocks ops ch chunk_start h (Suc n) ts =
     (let idx = h - chunk_start
      in if idx \<ge> length (chunk_blocks_of ch)
         then Inl (Wallet (''local treestate: chunk missing block '' @ nat_str h))
         else (let b = chunk_blocks_of ch ! idx
               in if height b \<noteq> h \<or> length (hash b) \<noteq> 32
                  then Inl (Wallet (''local treestate: block at index '' @ nat_str idx @ '' is malformed (height '' @
                         nat_str (height b) @ '' hash_len '' @ nat_str (length (hash b)) @ '')''))
                  else case so_absorb ops b ts of
                         Inl e \<Rightarrow> Inl (Wallet (''local treestate absorb: '' @ e))
                       | Inr ts' \<Rightarrow> absorb_blocks ops ch chunk_start (h + 1) n ts'))"

text \<open>After the scan: the local frontiers take in the sub-batch.\<close>

definition absorb_step :: "('s, 't, 'c, 'l) scan_ops \<Rightarrow> chunk \<Rightarrow> nat \<Rightarrow> nat \<Rightarrow> nat \<Rightarrow> rat \<Rightarrow> ('s, 't, 'c, 'l) scan_state \<Rightarrow>
    ('s, 't, 'c, 'l) scan_state \<times> (slipstream_error + unit)" where
  "absorb_step ops ch chunk_start sub_start len t st =
     (case sn_local st of
        None \<Rightarrow> (st, Inr ())
      | Some ts \<Rightarrow>
          (case absorb_blocks ops ch chunk_start sub_start len ts of
             Inl e \<Rightarrow> (st, Inl e)
           | Inr ts' \<Rightarrow>
               (let sub_end = sub_start + len - 1
                in (st\<lparr>sn_local := Some ts',
                       sn_boundary := Some (sub_end, hash (chunk_blocks_of ch ! (sub_end - chunk_start))),
                       sn_stats := (sn_stats st)\<lparr>treestate_absorb := treestate_absorb (sn_stats st) + t\<rparr>\<rparr>, Inr ()))))"

text \<open>Then the fetch made alongside: the next state, or an audit.\<close>

definition consume_prefetch :: "('s, 't, 'c, 'l) scan_ops \<Rightarrow> bool \<Rightarrow> nat \<Rightarrow> rat \<Rightarrow> ('s, 't, 'c, 'l) scan_state \<Rightarrow>
    ('s, 't, 'c, 'l) scan_state \<times> (slipstream_error + unit)" where
  "consume_prefetch ops local_mode sub_end t st =
     (if local_mode
      then (case (sn_local st, sn_boundary st) of
              (Some ts, Some (bh, bhash)) \<Rightarrow>
                if bh > u32_max then (st, Inl (Wallet (''height '' @ nat_str bh @ '' exceeds u32'')))
                else (st\<lparr>sn_audits := sn_audits st @ [(bh, so_chain_state ops bh bhash ts)]\<rparr>, Inr ())
            | _ \<Rightarrow> (st, Inr ()))
      else (case so_prefetch ops sub_end of
              Inl m \<Rightarrow> (st, Inl (Transport (''prefetch task: '' @ m)))
            | Inr (Inl e) \<Rightarrow> (st, Inl e)
            | Inr (Inr ts) \<Rightarrow>
                (st\<lparr>sn_next := ts, sn_stats := (sn_stats st)\<lparr>prefetch_wait := prefetch_wait (sn_stats st) + t\<rparr>\<rparr>, Inr ())))"

text \<open>Up to the call of the scanner: the state it starts from, and the fence of the first call.\<close>

definition prepare_batch :: "('s, 't, 'c, 'l) scan_ops \<Rightarrow> bool \<Rightarrow> sub_times \<Rightarrow> nat \<Rightarrow> ('s, 't, 'c, 'l) scan_state \<Rightarrow>
    ('s, 't, 'c, 'l) scan_state \<times> (slipstream_error + 'c)" where
  "prepare_batch ops local_mode tm sub_start st =
     (let st1 = st\<lparr>sn_index := sn_index st + 1,
                   sn_stats := (sn_stats st)\<lparr>prefetch_spawn := prefetch_spawn (sn_stats st) + tm_spawn tm\<rparr>\<rparr>
      in case from_state_of ops st1 of
           Inl e \<Rightarrow> (st1, Inl e)
         | Inr from_state \<Rightarrow>
             (let st2 = st1\<lparr>sn_local := (if local_mode \<and> sn_local st1 = None then Some (so_seed ops from_state) else sn_local st1),
                            sn_stats := (sn_stats st1)\<lparr>state_prep := state_prep (sn_stats st1) + tm_state_prep tm\<rparr>\<rparr>
              in if sub_start > u32_max then (st2, Inl (Wallet (''height '' @ nat_str sub_start @ '' exceeds u32'')))
                 else (st2\<lparr>sn_first := False,
                           sn_fence := (if sn_first st2
                                        then (case owed (sn_fence st2) of Some r \<Rightarrow> pay r (sn_fence st2) | None \<Rightarrow> sn_fence st2)
                                        else sn_fence st2)\<rparr>, Inr from_state)))"

text \<open>The call itself, and with write-behind the submission of what it decrypted.\<close>

definition scan_batch :: "('s, 't, 'c, 'l) scan_ops \<Rightarrow> bool \<Rightarrow> sub_times \<Rightarrow> chunk \<Rightarrow> nat \<Rightarrow> 'c \<Rightarrow> nat \<Rightarrow> ('s, 't, 'c, 'l) scan_state \<Rightarrow>
    ('s, 't, 'c, 'l) scan_state \<times> (slipstream_error + scan_summary)" where
  "scan_batch ops wb tm ch sub_start from_state len st =
     (let (store, r) = so_scan ops ch sub_start from_state len (sn_store st); s0 = sn_stats st;
          st1 = st\<lparr>sn_store := store, sn_calls := sn_calls st @ [(sub_start, from_state, len)],
                   sn_stats := s0\<lparr>scan_pass1 := scan_pass1 s0 + tm_walk1 tm, scan_pass2 := scan_pass2 s0 + tm_walk2 tm\<rparr>\<rparr>
      in case r of
           Inl e \<Rightarrow> (st1, Inl (map_scan_error e))
         | Inr summary \<Rightarrow>
             if wb
             then (case so_submit ops (sn_store st1) of
                     (store', Inl e) \<Rightarrow> (st1\<lparr>sn_store := store'\<rparr>, Inl e)
                   | (store', Inr _) \<Rightarrow>
                       (let s1 = sn_stats st1
                        in (st1\<lparr>sn_store := store',
                                sn_stats := s1\<lparr>submit_wait := submit_wait s1 + tm_submit_wait tm,
                                               submit_extra := submit_extra s1 + duration_sub (tm_submit tm) (tm_submit_wait tm)\<rparr>\<rparr>,
                            Inr summary)))
             else (st1, Inr summary))"

text \<open>After the call: the frontiers, the fetch, the audits.\<close>

definition finish_batch :: "('s, 't, 'c, 'l) scan_ops \<Rightarrow> bool \<Rightarrow> bool \<Rightarrow> sub_times \<Rightarrow> chunk \<Rightarrow> nat \<Rightarrow> nat \<Rightarrow> nat \<Rightarrow>
    ('s, 't, 'c, 'l) scan_state \<Rightarrow> ('s, 't, 'c, 'l) scan_state \<times> (slipstream_error + unit)" where
  "finish_batch ops local_mode prefetch tm ch chunk_start sub_start len st =
     (let s0 = sn_stats st;
          st0 = st\<lparr>sn_stats := s0\<lparr>scan_call := scan_call s0 + of_nat (tm_elapsed_ms tm) / 1000\<rparr>\<rparr>
      in case absorb_step ops ch chunk_start sub_start len (tm_absorb tm) st0 of
           (st1, Inl e) \<Rightarrow> (st1, Inl e)
         | (st1, Inr _) \<Rightarrow>
             (case (if prefetch then consume_prefetch ops local_mode (sub_start + len - 1) (tm_prefetch_wait tm) st1 else (st1, Inr ())) of
                (st2, Inl e) \<Rightarrow> (st2, Inl e)
              | (st2, Inr _) \<Rightarrow> settle ops False (tm_finished tm) st2))"

text \<open>The next batch length; the controller may panic.\<close>

definition adapt :: "('n, 'a) engine_config \<Rightarrow> nat \<Rightarrow> nat \<Rightarrow> nat \<Rightarrow> ('s, 't, 'c, 'l) scan_state \<Rightarrow> ('s, 't, 'c, 'l) scan_state option" where
  "adapt cfg len elapsed_ms chunk_len st =
     (case scan_batch_target_ms cfg of
        None \<Rightarrow> Some st
      | Some target_ms \<Rightarrow>
          map_option (\<lambda>n. st\<lparr>sn_batch_len := n\<rparr>) (next_batch_len len elapsed_ms target_ms MIN_BATCH (min chunk_len u32_max)))"

definition sub_batch :: "('s, 't, 'c, 'l) scan_ops \<Rightarrow> ('n, 'a) engine_config \<Rightarrow> bool \<Rightarrow> nat \<Rightarrow> sub_times \<Rightarrow> chunk \<Rightarrow> nat \<Rightarrow> nat \<Rightarrow> nat \<Rightarrow>
    ('s, 't, 'c, 'l) scan_state \<Rightarrow> ('s, 't, 'c, 'l) scan_state \<times> (slipstream_error + scan_summary) run" where
  "sub_batch ops cfg local_mode range_end tm ch chunk_start sub_start len st =
     (let sub_end = sub_start + len - 1;
          audit_this = (local_mode \<and> treestate_verify_sample cfg > 0 \<and> sn_index st mod treestate_verify_sample cfg = 0);
          prefetch = needs_server_boundary_state local_mode audit_this sub_end range_end
      in case prepare_batch ops local_mode tm sub_start st of
           (st1, Inl e) \<Rightarrow> (st1, Returned (Inl e))
         | (st1, Inr from_state) \<Rightarrow>
             (case scan_batch ops (write_behind cfg) tm ch sub_start from_state len st1 of
                (st2, Inl e) \<Rightarrow> (st2, Returned (Inl e))
              | (st2, Inr summary) \<Rightarrow>
                  (case finish_batch ops local_mode prefetch tm ch chunk_start sub_start len st2 of
                     (st3, Inl e) \<Rightarrow> (st3, Returned (Inl e))
                   | (st3, Inr _) \<Rightarrow>
                       (case adapt cfg len (tm_elapsed_ms tm) (length (chunk_blocks_of ch)) st3 of
                          None \<Rightarrow> (st3, Panicked)
                        | Some st4 \<Rightarrow> (st4, Returned (Inr summary))))))"

section \<open>One chunk\<close>

text \<open>
  The sub-batches of a chunk, with the totals so far.  Every iteration advances by a block at least, so
  as many iterations as the chunk has blocks are enough (\<open>fuel\<close>).
\<close>

fun sub_batches :: "('s, 't, 'c, 'l) scan_ops \<Rightarrow> ('n, 'a) engine_config \<Rightarrow> bool \<Rightarrow> nat \<Rightarrow> (nat \<Rightarrow> sub_times) \<Rightarrow> chunk \<Rightarrow> nat \<Rightarrow> nat \<Rightarrow>
    nat \<Rightarrow> nat \<Rightarrow> nat \<times> nat \<times> nat \<Rightarrow> ('s, 't, 'c, 'l) scan_state \<Rightarrow>
    ('s, 't, 'c, 'l) scan_state \<times> (slipstream_error + nat \<times> nat \<times> nat) run" where
  "sub_batches ops cfg local_mode range_end tms ch chunk_start chunk_end fuel sub_start (blocks, sapling, orchard) st =
     (let remaining = chunk_end + 1 - sub_start
      in if remaining = 0 then (st, Returned (Inr (blocks, sapling, orchard)))
         else case fuel of
                0 \<Rightarrow> (st, Running)
              | Suc fuel' \<Rightarrow>
                  (let len = min (sn_batch_len st) remaining
                   in case sub_batch ops cfg local_mode range_end (tms (sn_index st)) ch chunk_start sub_start len st of
                        (st1, Running) \<Rightarrow> (st1, Running)
                      | (st1, Panicked) \<Rightarrow> (st1, Panicked)
                      | (st1, Returned (Inl e)) \<Rightarrow> (st1, Returned (Inl e))
                      | (st1, Returned (Inr sm)) \<Rightarrow>
                          sub_batches ops cfg local_mode range_end tms ch chunk_start chunk_end fuel' (sub_start + len)
                            (blocks + (snd (sm_scanned sm) - fst (sm_scanned sm)), sapling + sm_sapling sm, orchard + sm_orchard sm)
                            st1))"

definition interleave :: "('s, 't, 'c, 'l) scan_ops \<Rightarrow> ('n, 'a) engine_config \<Rightarrow> chunk_times \<Rightarrow> ('s, 't, 'c, 'l) scan_state \<Rightarrow>
    ('s, 't, 'c, 'l) scan_state \<times> (slipstream_error + unit)" where
  "interleave ops cfg ct st =
     (if \<not> (should_interleave_enhancement (ss_chunks (sn_stats st)) (enhance_every_chunks cfg) \<and> sn_notes st > 0)
      then (st, Inr ())
      else (let st0 = st\<lparr>sn_notes := 0\<rparr>
            in case (if write_behind cfg then so_drain ops (sn_store st0) else (sn_store st0, Inr ())) of
                 (store, Inl e) \<Rightarrow> (st0\<lparr>sn_store := store\<rparr>, Inl e)
               | (store, Inr _) \<Rightarrow>
                   (let s0 = sn_stats st0;
                        s1 = (if write_behind cfg then s0\<lparr>interleave_drain := interleave_drain s0 + tm_drain ct\<rparr> else s0);
                        ((store2, p2), r) = so_enhance ops (store, sn_progress st0);
                        s2 = (case r of Inr es \<Rightarrow> s1\<lparr>interleaved_enhance := enhance_add (interleaved_enhance s1) es\<rparr> | Inl _ \<Rightarrow> s1);
                        s3 = s2\<lparr>interleaved_enhance_elapsed := interleaved_enhance_elapsed s2 + tm_enhance ct\<rparr>;
                        st1 = st0\<lparr>sn_store := store2, sn_progress := p2, sn_stats := s3\<rparr>
                    in if write_behind cfg
                       then (case so_reseed ops store2 of
                               (store3, Inl e) \<Rightarrow> (st1\<lparr>sn_store := store3\<rparr>, Inl (Wallet (''write-behind reseed: '' @ e)))
                             | (store3, Inr _) \<Rightarrow>
                                 (st1\<lparr>sn_store := store3, sn_stats := s3\<lparr>reseed := reseed s3 + tm_reseed ct\<rparr>\<rparr>, Inr ()))
                       else (st1, Inr ()))))"

definition scan_chunk :: "('s, 't, 'c, 'l) scan_ops \<Rightarrow> ('n, 'a) engine_config \<Rightarrow> bool \<Rightarrow> nat \<Rightarrow> (nat \<Rightarrow> sub_times) \<Rightarrow> chunk_times \<Rightarrow> chunk \<Rightarrow>
    ('s, 't, 'c, 'l) scan_state \<Rightarrow> ('s, 't, 'c, 'l) scan_state \<times> (slipstream_error + unit) run" where
  "scan_chunk ops cfg local_mode range_end tms ct ch st =
     (let st0 = st\<lparr>sn_stats := (sn_stats st)\<lparr>recv_wait := recv_wait (sn_stats st) + tm_recv_wait ct\<rparr>\<rparr>
      in case (start_height ch, end_height ch) of
           (Some chunk_start, Some chunk_end) \<Rightarrow>
             if chunk_end > range_end
             then (st0, Returned (Inl (Wallet (''chunk '' @ nat_str chunk_start @ ''..='' @ nat_str chunk_end @
                     '' runs past the range end '' @ nat_str range_end))))
             else (let chunk_len = length (chunk_blocks_of ch);
                       st1 = (if scan_batch_target_ms cfg = None \<or> sn_batch_len st0 = 0
                              then st0\<lparr>sn_batch_len := min chunk_len u32_max\<rparr> else st0)
                   in case sub_batches ops cfg local_mode range_end tms ch chunk_start chunk_end chunk_len chunk_start (0, 0, 0) st1 of
                        (st2, Running) \<Rightarrow> (st2, Running)
                      | (st2, Panicked) \<Rightarrow> (st2, Panicked)
                      | (st2, Returned (Inl e)) \<Rightarrow> (st2, Returned (Inl e))
                      | (st2, Returned (Inr (blocks, sapling, orchard))) \<Rightarrow>
                          (let s = sn_stats st2;
                               st3 = st2\<lparr>sn_stats := s\<lparr>ss_blocks := ss_blocks s + blocks, ss_chunks := ss_chunks s + 1,
                                           ss_sapling_received := ss_sapling_received s + sapling,
                                           ss_orchard_received := ss_orchard_received s + orchard\<rparr>,
                                         sn_notes := sn_notes st2 + (sapling + orchard),
                                         sn_progress := map_option (add_scanned blocks (tm_now ct)) (sn_progress st2)\<rparr>;
                               (st4, r) = interleave ops cfg ct st3
                           in (st4, Returned r)))
         | _ \<Rightarrow> (st0, Returned (Inl (Wallet ''empty chunk''))))"

section \<open>The range\<close>

text \<open>The chunks that arrive, then the end of the queue.\<close>

fun scan_loop :: "('s, 't, 'c, 'l) scan_ops \<Rightarrow> ('n, 'a) engine_config \<Rightarrow> bool \<Rightarrow> nat \<Rightarrow> (nat \<Rightarrow> sub_times) \<Rightarrow> (nat \<Rightarrow> chunk_times) \<Rightarrow>
    chunk list \<Rightarrow> ('s, 't, 'c, 'l) scan_state \<Rightarrow> ('s, 't, 'c, 'l) scan_state \<times> (slipstream_error + unit) run" where
  "scan_loop ops cfg local_mode range_end tms cts [] st =
     (let (st', r) = settle ops True (\<lambda>h. True) st in (st', Returned r))"
| "scan_loop ops cfg local_mode range_end tms cts (ch # chunks) st =
     (case scan_chunk ops cfg local_mode range_end tms (cts (ss_chunks (sn_stats st))) ch st of
        (st1, Running) \<Rightarrow> (st1, Running)
      | (st1, Panicked) \<Rightarrow> (st1, Panicked)
      | (st1, Returned (Inl e)) \<Rightarrow> (st1, Returned (Inl e))
      | (st1, Returned (Inr _)) \<Rightarrow> scan_loop ops cfg local_mode range_end tms cts chunks st1)"

definition scan_begin :: "'s \<Rightarrow> progress option \<Rightarrow> decryption_fence \<Rightarrow> bool \<Rightarrow> 't \<Rightarrow> ('s, 't, 'c, 'l) scan_state" where
  "scan_begin store p fence fuse t =
     \<lparr>sn_store = store, sn_progress = p, sn_stats = scan_stats_default, sn_next = t, sn_local = None,
      sn_boundary = None, sn_index = 0, sn_audits = [], sn_notes = 0, sn_batch_len = 0, sn_first = True,
      sn_fence = fence, sn_fuse = fuse, sn_calls = []\<rparr>"

text \<open>The loop from its seed state on.\<close>

definition scan_chunks_inner :: "('s, 't, 'c, 'l) scan_ops \<Rightarrow> ('n, 'a) engine_config \<Rightarrow> nat \<Rightarrow> nat \<Rightarrow> (nat \<Rightarrow> sub_times) \<Rightarrow> (nat \<Rightarrow> chunk_times) \<Rightarrow>
    chunk list \<Rightarrow> decryption_fence \<Rightarrow> bool \<Rightarrow> 's \<Rightarrow> progress option \<Rightarrow>
    ('s \<times> progress option \<times> decryption_fence \<times> bool) \<times> (nat \<times> 'c \<times> nat) list \<times> (slipstream_error + scan_stats) run" where
  "scan_chunks_inner ops cfg range_start range_end tms cts chunks fence fuse store p =
     (case so_seed_state ops (range_start - 1) of
        Inl e \<Rightarrow> ((store, p, fence, fuse), [], Returned (Inl e))
      | Inr t \<Rightarrow>
          (case scan_loop ops cfg (local_treestate_active cfg fuse) range_end tms cts chunks
                  (scan_begin store p fence fuse t) of
             (st, r) \<Rightarrow>
               ((sn_store st, sn_progress st, sn_fence st, sn_fuse st), sn_calls st,
                case r of
                  Running \<Rightarrow> Running
                | Panicked \<Rightarrow> Panicked
                | Returned (Inl e) \<Rightarrow> Returned (Inl e)
                | Returned (Inr _) \<Rightarrow>
                    Returned (Inr ((sn_stats st)\<lparr>ss_census_sapling := fst (so_census ops (sn_store st)),
                                                ss_census_orchard := snd (so_census ops (sn_store st))\<rparr>)))))"

text \<open>The barrier at the end: the lane is drained whatever happened, and its failure takes precedence.\<close>

definition scan_barrier :: "('s, 't, 'c, 'l) scan_ops \<Rightarrow> nat \<Rightarrow> rat \<Rightarrow> 's \<Rightarrow> progress option \<Rightarrow> slipstream_error + scan_stats \<Rightarrow>
    ('s \<times> progress option) \<times> (slipstream_error + scan_stats)" where
  "scan_barrier ops now drain_time store p result =
     (case so_drain ops (so_drop_stash ops store) of
        (store1, Inl persist_err) \<Rightarrow> ((store1, p), Inl persist_err)
      | (store1, Inr _) \<Rightarrow>
          (case result of
             Inl scan_err \<Rightarrow> ((store1, p), Inl scan_err)
           | Inr stats \<Rightarrow>
               (case so_finish_graft ops store1 of
                  (store2, Inl e) \<Rightarrow> ((store2, p), Inl e)
                | (store2, Inr _) \<Rightarrow>
                    ((store2, map_option (touch now) p),
                     Inr (stats\<lparr>final_drain := drain_time, persist_wait := fst (so_lane_times ops store2),
                               persist_busy := snd (so_lane_times ops store2),
                               ss_census_sapling := fst (so_census ops store2),
                               ss_census_orchard := snd (so_census ops store2)\<rparr>)))))"

definition scan_chunks :: "('s, 't, 'c, 'l) scan_ops \<Rightarrow> ('n, 'a) engine_config \<Rightarrow> nat \<Rightarrow> nat \<Rightarrow> (nat \<Rightarrow> sub_times) \<Rightarrow> (nat \<Rightarrow> chunk_times) \<Rightarrow>
    nat \<Rightarrow> rat \<Rightarrow> chunk list \<Rightarrow> decryption_fence \<Rightarrow> bool \<Rightarrow> 's \<Rightarrow> progress option \<Rightarrow>
    ('s \<times> progress option \<times> decryption_fence \<times> bool) \<times> (nat \<times> 'c \<times> nat) list \<times> (slipstream_error + scan_stats) run" where
  "scan_chunks ops cfg range_start range_end tms cts now drain_time chunks fence fuse store p =
     (if range_start = 0 then ((store, p, fence, fuse), [], Returned (Inl (Wallet ''range_start must be >= 1'')))
      else if range_end < range_start
      then ((store, p, fence, fuse), [],
            Returned (Inl (Wallet (''range_end '' @ nat_str range_end @ '' is below range_start '' @ nat_str range_start))))
      else case (if write_behind cfg then so_open ops store else (store, Inr ())) of
             (store0, Inl e) \<Rightarrow> ((store0, p, fence, fuse), [], Returned (Inl e))
           | (store0, Inr _) \<Rightarrow>
               (case scan_chunks_inner ops cfg range_start range_end tms cts chunks fence fuse store0 p of
                  ((store1, p1, fence1, fuse1), calls, r) \<Rightarrow>
                    (case r of
                       Returned result \<Rightarrow>
                         if write_behind cfg
                         then (case scan_barrier ops now drain_time store1 p1 result of
                                 ((store2, p2), res) \<Rightarrow> ((store2, p2, fence1, fuse1), calls, Returned res))
                         else ((store1, p1, fence1, fuse1), calls, r)
                     | _ \<Rightarrow> ((store1, p1, fence1, fuse1), calls, r))))"

section \<open>The calls tile the range\<close>

text \<open>Calls of the scanner one after the other, from height \<open>h\<close> to below height \<open>e\<close>.\<close>

fun tiled :: "nat \<Rightarrow> (nat \<times> 'c \<times> nat) list \<Rightarrow> nat \<Rightarrow> bool" where
  "tiled h [] e = (h = e)"
| "tiled h ((k, c, n) # calls) e = (k = h \<and> 0 < n \<and> tiled (h + n) calls e)"

lemma tiled_snoc: "tiled h (calls @ [(k, c, n)]) e \<longleftrightarrow> tiled h calls k \<and> 0 < n \<and> e = k + n"
  by (induction h calls k rule: tiled.induct) auto

text \<open>
  What the scan relies on: the server answers with the tree state of the height it was asked for, and a
  chain state built for a height has that height (\<open>ch\<close>).
\<close>

definition states_at :: "('c \<Rightarrow> nat) \<Rightarrow> ('s, 't, 'c, 'l) scan_ops \<Rightarrow> bool" where
  "states_at ch ops \<longleftrightarrow>
     (\<forall>h t c. so_seed_state ops h = Inr t \<longrightarrow> so_to_chain ops t = Inr c \<longrightarrow> ch c = h) \<and>
     (\<forall>h t c. so_prefetch ops h = Inr (Inr t) \<longrightarrow> so_to_chain ops t = Inr c \<longrightarrow> ch c = h) \<and>
     (\<forall>h b l. ch (so_chain_state ops h b l) = h)"

definition calls_ok :: "('c \<Rightarrow> nat) \<Rightarrow> nat \<Rightarrow> (nat \<times> 'c \<times> nat) list \<Rightarrow> nat \<Rightarrow> bool" where
  "calls_ok ch start calls e \<longleftrightarrow> tiled start calls e \<and> (\<forall>(h, c, n) \<in> set calls. ch c + 1 = h)"

lemma calls_ok_snoc:
  "calls_ok ch start calls k \<Longrightarrow> 0 < n \<Longrightarrow> ch c + 1 = k \<Longrightarrow> calls_ok ch start (calls @ [(k, c, n)]) (k + n)"
  by (auto simp: calls_ok_def tiled_snoc)

text \<open>Before the sub-batch at \<open>sub_start\<close>.\<close>

definition scan_inv :: "('c \<Rightarrow> nat) \<Rightarrow> ('s, 't, 'c, 'l) scan_ops \<Rightarrow> bool \<Rightarrow> nat \<Rightarrow> nat \<Rightarrow> nat \<Rightarrow> ('s, 't, 'c, 'l) scan_state \<Rightarrow> bool" where
  "scan_inv ch ops local_mode start range_end sub_start st \<longleftrightarrow>
     calls_ok ch start (sn_calls st) sub_start \<and> 0 < sub_start \<and>
     (if local_mode then sn_local st = None \<and> sn_boundary st = None \<or> (\<exists>ts b. sn_local st = Some ts \<and> sn_boundary st = Some (sub_start - 1, b))
      else sn_local st = None) \<and>
     (sub_start \<le> range_end \<longrightarrow> (\<forall>c. from_state_of ops st = Inr c \<longrightarrow> ch c + 1 = sub_start))"

lemma from_state_cong:
  "sn_local st' = sn_local st \<Longrightarrow> sn_boundary st' = sn_boundary st \<Longrightarrow> sn_next st' = sn_next st \<Longrightarrow>
   from_state_of ops st' = from_state_of ops st"
  by (simp only: from_state_of_def)

lemma prepare_batch_run:
  assumes "prepare_batch ops local_mode tm sub_start st = (st', r)"
  shows "sn_calls st' = sn_calls st \<and> sn_boundary st' = sn_boundary st \<and> sn_next st' = sn_next st \<and>
    sn_batch_len st' = sn_batch_len st \<and> sn_audits st' = sn_audits st \<and>
    (\<forall>c. r = Inr c \<longrightarrow> from_state_of ops st = Inr c \<and> sub_start \<le> u32_max \<and> sn_index st' = sn_index st + 1 \<and>
      sn_local st' = (if local_mode \<and> sn_local st = None then Some (so_seed ops c) else sn_local st))"
proof -
  have f: "from_state_of ops (st\<lparr>sn_index := i, sn_stats := x\<rparr>) = from_state_of ops st" for i x
    by (rule from_state_cong) simp_all
  show ?thesis using assms unfolding prepare_batch_def Let_def f
    by (auto split: sum.splits if_splits)
qed

lemma scan_batch_run:
  assumes "scan_batch ops wb tm chk sub_start c len st = (st', r)"
  shows "sn_calls st' = sn_calls st @ [(sub_start, c, len)] \<and> sn_boundary st' = sn_boundary st \<and> sn_next st' = sn_next st \<and>
    sn_batch_len st' = sn_batch_len st \<and> sn_audits st' = sn_audits st \<and> sn_local st' = sn_local st \<and> sn_index st' = sn_index st"
  using assms unfolding scan_batch_def Let_def
  by (auto split: sum.splits prod.splits if_splits)

lemma absorb_step_run:
  assumes "absorb_step ops chk cs sub_start len t st = (st', r)"
  shows "sn_calls st' = sn_calls st \<and> sn_next st' = sn_next st \<and> sn_batch_len st' = sn_batch_len st \<and> sn_audits st' = sn_audits st \<and>
    sn_index st' = sn_index st \<and>
    (r = Inr () \<longrightarrow> (sn_local st = None \<longrightarrow> st' = st) \<and>
       (sn_local st \<noteq> None \<longrightarrow> (\<exists>ts b. sn_local st' = Some ts \<and> sn_boundary st' = Some (sub_start + len - 1, b))))"
  using assms unfolding absorb_step_def Let_def
  by (auto split: sum.splits option.splits)

lemma consume_prefetch_run:
  assumes "consume_prefetch ops local_mode sub_end t st = (st', r)"
  shows "sn_calls st' = sn_calls st \<and> sn_local st' = sn_local st \<and> sn_boundary st' = sn_boundary st \<and>
    sn_batch_len st' = sn_batch_len st \<and> sn_index st' = sn_index st \<and>
    (r = Inr () \<longrightarrow> (if local_mode
       then sn_next st' = sn_next st \<and>
            (\<forall>ts bh b. sn_local st = Some ts \<longrightarrow> sn_boundary st = Some (bh, b) \<longrightarrow>
               sn_audits st' = sn_audits st @ [(bh, so_chain_state ops bh b ts)])
       else so_prefetch ops sub_end = Inr (Inr (sn_next st')) \<and> sn_audits st' = sn_audits st))"
  using assms unfolding consume_prefetch_def
  by (auto split: sum.splits option.splits if_splits)

lemma settle_run:
  assumes "settle ops force fin st = (st', r)"
  shows "sn_calls st' = sn_calls st \<and> sn_local st' = sn_local st \<and> sn_boundary st' = sn_boundary st \<and> sn_next st' = sn_next st \<and>
    sn_batch_len st' = sn_batch_len st \<and> sn_index st' = sn_index st \<and>
    (r = Inr () \<longrightarrow> drain_audits ops force fin (sn_audits st) = Inr (sn_audits st'))"
  using assms unfolding settle_def by (auto split: sum.splits)

lemma finish_batch_run:
  assumes run: "finish_batch ops local_mode prefetch tm chk cs sub_start len st = (st', r)"
  shows "sn_calls st' = sn_calls st \<and> sn_batch_len st' = sn_batch_len st \<and> sn_index st' = sn_index st \<and>
    (r = Inr () \<longrightarrow>
       (sn_local st = None \<longrightarrow> sn_local st' = None \<and> sn_boundary st' = sn_boundary st) \<and>
       (sn_local st \<noteq> None \<longrightarrow> (\<exists>ts b. sn_local st' = Some ts \<and> sn_boundary st' = Some (sub_start + len - 1, b))) \<and>
       (\<not> local_mode \<longrightarrow> prefetch \<longrightarrow> so_prefetch ops (sub_start + len - 1) = Inr (Inr (sn_next st'))))"
proof -
  let ?st0 = "st\<lparr>sn_stats := (sn_stats st)\<lparr>scan_call := scan_call (sn_stats st) + of_nat (tm_elapsed_ms tm) / 1000\<rparr>\<rparr>"
  obtain st1 r1 where a: "absorb_step ops chk cs sub_start len (tm_absorb tm) ?st0 = (st1, r1)" by force
  obtain st2 r2 where c: "(if prefetch then consume_prefetch ops local_mode (sub_start + len - 1) (tm_prefetch_wait tm) st1
      else (st1, Inr ())) = (st2, r2)" by force
  have body: "(case r1 of Inl e \<Rightarrow> (st1, Inl e) | Inr _ \<Rightarrow>
      (case r2 of Inl e \<Rightarrow> (st2, Inl e) | Inr _ \<Rightarrow> settle ops False (tm_finished tm) st2)) = (st', r)"
    using run unfolding finish_batch_def Let_def a by (simp add: c split: sum.splits)
  note A = absorb_step_run [OF a]
  have C: "sn_calls st2 = sn_calls st1 \<and> sn_local st2 = sn_local st1 \<and> sn_boundary st2 = sn_boundary st1 \<and>
      sn_batch_len st2 = sn_batch_len st1 \<and> sn_index st2 = sn_index st1 \<and>
      (r2 = Inr () \<longrightarrow> \<not> local_mode \<longrightarrow> prefetch \<longrightarrow> so_prefetch ops (sub_start + len - 1) = Inr (Inr (sn_next st2)))"
    using c consume_prefetch_run [of ops local_mode "sub_start + len - 1" "tm_prefetch_wait tm" st1 st2 r2]
    by (auto split: if_splits)
  show ?thesis
  proof (cases r1)
    case (Inl e)
    then show ?thesis using A body by auto
  next
    case r1: (Inr u)
    show ?thesis
    proof (cases r2)
      case (Inl e)
      then show ?thesis using A C body r1 by auto
    next
      case (Inr v)
      then have s: "settle ops False (tm_finished tm) st2 = (st', r)" using body r1 by simp
      have r12: "r1 = Inr ()" "r2 = Inr ()" using r1 Inr by simp_all
      show ?thesis using A C settle_run [OF s] r12 by (cases "sn_local st") auto
    qed
  qed
qed

lemma adapt_course:
  assumes "adapt cfg len ms n st = Some st'"
  shows "sn_calls st' = sn_calls st \<and> sn_local st' = sn_local st \<and> sn_boundary st' = sn_boundary st \<and> sn_next st' = sn_next st \<and>
    sn_audits st' = sn_audits st \<and> sn_index st' = sn_index st"
  using assms by (auto simp: adapt_def split: option.splits)

lemma adapt_run:
  assumes "adapt cfg len ms n st = Some st'" and "0 < n" and "0 < sn_batch_len st"
  shows "0 < sn_batch_len st'"
  using assms by (auto simp: adapt_def next_batch_len_def MIN_BATCH_def split: option.splits if_splits)

lemma sub_batch_run:
  assumes run: "sub_batch ops cfg local_mode range_end tm chk cs sub_start len st = (st', x)"
    and ok: "states_at ch ops" and inv: "scan_inv ch ops local_mode start range_end sub_start st"
    and len: "0 < len" "sub_start + len \<le> range_end + 1"
  shows "(\<exists>e \<le> range_end + 1. calls_ok ch start (sn_calls st') e) \<and>
    (\<forall>sm. x = Returned (Inr sm) \<longrightarrow> scan_inv ch ops local_mode start range_end (sub_start + len) st')"
proof -
  let ?pf = "needs_server_boundary_state local_mode
      (local_mode \<and> treestate_verify_sample cfg > 0 \<and> sn_index st mod treestate_verify_sample cfg = 0) (sub_start + len - 1) range_end"
  obtain st1 r1 where p: "prepare_batch ops local_mode tm sub_start st = (st1, r1)" by force
  note P = prepare_batch_run [OF p]
  have calls: "calls_ok ch start (sn_calls st) sub_start" using inv by (simp add: scan_inv_def)
  show ?thesis
  proof (cases r1)
    case (Inl e)
    then have "st' = st1" "x = Returned (Inl e)" using run by (auto simp: sub_batch_def p Let_def)
    then show ?thesis using P calls len by (auto intro!: exI [of _ sub_start])
  next
    case r1: (Inr c)
    obtain st2 r2 where s: "scan_batch ops (write_behind cfg) tm chk sub_start c len st1 = (st2, r2)" by force
    note S = scan_batch_run [OF s]
    have "ch c + 1 = sub_start" using inv P r1 len by (simp add: scan_inv_def)
    then have calls2: "calls_ok ch start (sn_calls st2) (sub_start + len)"
      using calls_ok_snoc [OF calls len(1)] P S r1 by simp
    show ?thesis
    proof (cases r2)
      case (Inl e)
      then have "st' = st2" "x = Returned (Inl e)" using run by (auto simp: sub_batch_def p s r1 Let_def)
      then show ?thesis using calls2 len by (auto intro!: exI [of _ "sub_start + len"])
    next
      case r2: (Inr sm)
      obtain st3 r3 where f: "finish_batch ops local_mode ?pf tm chk cs sub_start len st2 = (st3, r3)" by force
      note F = finish_batch_run [OF f]
      have body: "(case r3 of Inl e \<Rightarrow> (st3, Returned (Inl e)) | Inr _ \<Rightarrow>
          (case adapt cfg len (tm_elapsed_ms tm) (length (chunk_blocks_of chk)) st3 of
             None \<Rightarrow> (st3, Panicked) | Some st4 \<Rightarrow> (st4, Returned (Inr sm)))) = (st', x)"
        using run unfolding sub_batch_def Let_def p r1 prod.case sum.case s r2 f .
      have calls3: "calls_ok ch start (sn_calls st3) (sub_start + len)" using calls2 F by simp
      show ?thesis
      proof (cases "\<exists>st4. r3 = Inr () \<and> adapt cfg len (tm_elapsed_ms tm) (length (chunk_blocks_of chk)) st3 = Some st4")
        case False
        then have "st' = st3 \<and> (\<forall>sm. x \<noteq> Returned (Inr sm))" using body by (auto split: sum.splits option.splits)
        then show ?thesis using calls3 len by (auto intro!: exI [of _ "sub_start + len"])
      next
        case True
        then obtain st4 where r3: "r3 = Inr ()" and ad: "adapt cfg len (tm_elapsed_ms tm) (length (chunk_blocks_of chk)) st3 = Some st4"
          by blast
        then have out: "st' = st4" "x = Returned (Inr sm)" using body by auto
        note D = adapt_course [OF ad]
        have loc: "if local_mode then sn_local st4 = None \<and> sn_boundary st4 = None \<or> (\<exists>ts b. sn_local st4 = Some ts \<and> sn_boundary st4 = Some (sub_start + len - 1, b))
            else sn_local st4 = None"
          using inv D F S P r1 r3 by (cases "sn_local st") (auto simp: scan_inv_def)
        have "ch d + 1 = sub_start + len" if later: "sub_start + len \<le> range_end" and d: "from_state_of ops st4 = Inr d" for d
        proof (cases local_mode)
          case True
          then have "\<exists>ts b. sn_local st4 = Some ts \<and> sn_boundary st4 = Some (sub_start + len - 1, b)"
            using inv D F S P r1 r3 by (cases "sn_local st") (auto simp: scan_inv_def)
          then show ?thesis using d ok len(1) by (auto simp: from_state_of_def states_at_def split: if_splits)
        next
          case False
          have nl: "sn_local st4 = None" using loc False by simp
          have pf: ?pf using False later len(1) by (simp add: needs_server_boundary_state_def)
          have "so_prefetch ops (sub_start + len - 1) = Inr (Inr (sn_next st4))" using F r3 False pf D by simp
          moreover have "so_to_chain ops (sn_next st4) = Inr d"
            using d nl by (auto simp: from_state_of_def map_sum_def split: sum.splits)
          ultimately show ?thesis using ok len(1) by (auto simp: states_at_def)
        qed
        then show ?thesis using out calls3 D loc len by (auto simp: scan_inv_def)
      qed
    qed
  qed
qed

lemma scan_inv_end: "scan_inv ch ops local_mode start range_end h st \<Longrightarrow> calls_ok ch start (sn_calls st) h"
  by (simp add: scan_inv_def)

lemma scan_inv_cong:
  assumes "scan_inv ch ops local_mode start range_end h st" and "sn_calls st' = sn_calls st" and "sn_local st' = sn_local st"
    and "sn_boundary st' = sn_boundary st" and "sn_next st' = sn_next st"
  shows "scan_inv ch ops local_mode start range_end h st'"
  using assms(1) unfolding scan_inv_def assms(2-4) from_state_cong [OF assms(3-5)] .

lemma sub_batches_done:
  assumes "chunk_end + 1 - sub_start = 0"
  shows "sub_batches ops cfg local_mode range_end tms chk cs chunk_end fuel sub_start tot st = (st, Returned (Inr tot))"
proof -
  obtain b s1 o1 where tot: "tot = (b, s1, o1)" by (metis prod_cases3)
  show ?thesis unfolding tot using assms by (subst sub_batches.simps) simp
qed

lemma sub_batches_more:
  assumes "chunk_end + 1 - sub_start \<noteq> 0"
  shows "sub_batches ops cfg local_mode range_end tms chk cs chunk_end (Suc fuel) sub_start (b, s1, o1) st =
    (let len = min (sn_batch_len st) (chunk_end + 1 - sub_start)
     in case sub_batch ops cfg local_mode range_end (tms (sn_index st)) chk cs sub_start len st of
          (st1, y) \<Rightarrow> (case y of Running \<Rightarrow> (st1, Running) | Panicked \<Rightarrow> (st1, Panicked)
            | Returned (Inl e) \<Rightarrow> (st1, Returned (Inl e))
            | Returned (Inr sm) \<Rightarrow> sub_batches ops cfg local_mode range_end tms chk cs chunk_end fuel (sub_start + len)
                (b + (snd (sm_scanned sm) - fst (sm_scanned sm)), s1 + sm_sapling sm, o1 + sm_orchard sm) st1))"
  using assms by (subst sub_batches.simps) (simp add: Let_def)

declare sub_batches.simps [simp del]

lemma interleave_run:
  assumes run: "interleave ops cfg ct st = (st', r)"
  shows "sn_calls st' = sn_calls st \<and> sn_local st' = sn_local st \<and> sn_boundary st' = sn_boundary st \<and> sn_next st' = sn_next st \<and>
    sn_batch_len st' = sn_batch_len st \<and> sn_audits st' = sn_audits st \<and> sn_index st' = sn_index st"
proof (cases "should_interleave_enhancement (ss_chunks (sn_stats st)) (enhance_every_chunks cfg) \<and> sn_notes st > 0")
  case False
  then show ?thesis using run by (auto simp: interleave_def)
next
  case True
  let ?st0 = "st\<lparr>sn_notes := 0\<rparr>"
  obtain store d where dr: "(if write_behind cfg then so_drain ops (sn_store ?st0) else (sn_store ?st0, Inr ())) = (store, d)" by force
  obtain store2 p2 e where en: "so_enhance ops (store, sn_progress st) = ((store2, p2), e)" by (metis surj_pair)
  obtain store3 q where rs: "so_reseed ops store2 = (store3, q)" by force
  show ?thesis
  proof (cases d)
    case (Inl x)
    then have "st' = ?st0\<lparr>sn_store := store\<rparr>" using run True unfolding interleave_def Let_def dr by simp
    then show ?thesis by simp
  next
    case (Inr u)
    then show ?thesis
      using run True unfolding interleave_def Let_def dr by (auto simp: en rs split: sum.splits if_splits)
  qed
qed

text \<open>A sub-batch comes to an end, and leaves a batch length to go on with.\<close>

lemma sub_batch_ends:
  assumes run: "sub_batch ops cfg local_mode range_end tm chk cs sub_start len st = (st', x)"
    and "0 < length (chunk_blocks_of chk)" and "0 < sn_batch_len st"
  shows "x \<noteq> Running \<and> (\<forall>sm. x = Returned (Inr sm) \<longrightarrow> 0 < sn_batch_len st')"
proof -
  let ?pf = "needs_server_boundary_state local_mode
      (local_mode \<and> treestate_verify_sample cfg > 0 \<and> sn_index st mod treestate_verify_sample cfg = 0) (sub_start + len - 1) range_end"
  obtain st1 r1 where p: "prepare_batch ops local_mode tm sub_start st = (st1, r1)" by force
  show ?thesis
  proof (cases r1)
    case (Inl e)
    then show ?thesis using run by (auto simp: sub_batch_def p Let_def)
  next
    case r1: (Inr c)
    obtain st2 r2 where s: "scan_batch ops (write_behind cfg) tm chk sub_start c len st1 = (st2, r2)" by force
    obtain st3 r3 where f: "finish_batch ops local_mode ?pf tm chk cs sub_start len st2 = (st3, r3)" by force
    have "0 < sn_batch_len st3"
      using finish_batch_run [OF f] scan_batch_run [OF s] prepare_batch_run [OF p] assms(3) by simp
    note D = adapt_run [OF _ assms(2) this]
    show ?thesis
    proof (cases r2)
      case (Inl e)
      then show ?thesis using run by (auto simp: sub_batch_def p s r1 Let_def)
    next
      case (Inr sm)
      then have "(case r3 of Inl e \<Rightarrow> (st3, Returned (Inl e)) | Inr _ \<Rightarrow>
          (case adapt cfg len (tm_elapsed_ms tm) (length (chunk_blocks_of chk)) st3 of
             None \<Rightarrow> (st3, Panicked) | Some st4 \<Rightarrow> (st4, Returned (Inr sm)))) = (st', x)"
        using run unfolding sub_batch_def Let_def p r1 prod.case sum.case s Inr f by simp
      then show ?thesis using D by (auto split: sum.splits option.splits)
    qed
  qed
qed

section \<open>Carrying an invariant through a scan\<close>

text \<open>Chunks whose blocks have the heights from \<open>h\<close> to below \<open>e\<close>, without a gap.\<close>

fun chunk_run :: "nat \<Rightarrow> chunk list \<Rightarrow> nat \<Rightarrow> bool" where
  "chunk_run h [] e = (h = e)"
| "chunk_run h (c # cs) e =
     (chunk_blocks_of c \<noteq> [] \<and> start_height c = Some h \<and> end_height c = Some (h + length (chunk_blocks_of c) - 1) \<and>
      chunk_run (h + length (chunk_blocks_of c)) cs e)"

lemma chunk_run_le: "chunk_run h cs e \<Longrightarrow> h \<le> e"
  by (induction h cs e rule: chunk_run.induct) auto

text \<open>What the states of two points of a scan have in common when only bookkeeping lies between them.\<close>

definition same_course :: "('s, 't, 'c, 'l) scan_state \<Rightarrow> ('s, 't, 'c, 'l) scan_state \<Rightarrow> bool" where
  "same_course st st' \<longleftrightarrow> sn_calls st' = sn_calls st \<and> sn_local st' = sn_local st \<and> sn_boundary st' = sn_boundary st \<and>
     sn_next st' = sn_next st \<and> sn_audits st' = sn_audits st \<and> sn_index st' = sn_index st"

lemma interleave_course: "interleave ops cfg ct st = (st', r) \<Longrightarrow> same_course st st' \<and> sn_batch_len st' = sn_batch_len st"
  by (drule interleave_run) (simp add: same_course_def)

text \<open>
  The contract between one sub-batch and the loops around it: \<open>I h\<close> holds before the sub-batch that
  begins at height \<open>h\<close>, \<open>J\<close> holds wherever the scan may end.
\<close>

locale scan_course =
  fixes ops :: "('s, 't, 'c, 'l) scan_ops" and cfg :: "('n, 'a) engine_config" and local_mode :: bool and range_end :: nat
    and I :: "nat \<Rightarrow> ('s, 't, 'c, 'l) scan_state \<Rightarrow> bool" and J :: "('s, 't, 'c, 'l) scan_state \<Rightarrow> bool"
  assumes batch: "sub_batch ops cfg local_mode range_end tm chk cs h len st = (st', x) \<Longrightarrow> I h st \<Longrightarrow> 0 < len \<Longrightarrow>
      h + len \<le> range_end + 1 \<Longrightarrow> J st' \<and> (\<forall>sm. x = Returned (Inr sm) \<longrightarrow> I (h + len) st')"
    and ends: "I h st \<Longrightarrow> h \<le> range_end + 1 \<Longrightarrow> J st"
    and course: "I h st \<Longrightarrow> same_course st st' \<Longrightarrow> I h st'"
    and keeps: "J st \<Longrightarrow> same_course st st' \<Longrightarrow> J st'"
    and settles: "J st \<Longrightarrow> settle ops True (\<lambda>h. True) st = (st', r) \<Longrightarrow> J st'"
begin

lemma batches:
  assumes "sub_batches ops cfg local_mode range_end tms chk cs chunk_end fuel h tot st = (st', x)" and "I h st"
    and "chunk_end \<le> range_end" and "h \<le> chunk_end + 1" and "chunk_end + 1 - h \<le> fuel"
    and "0 < length (chunk_blocks_of chk)" and "0 < sn_batch_len st"
  shows "x \<noteq> Running \<and> J st' \<and> (\<forall>y. x = Returned (Inr y) \<longrightarrow> I (chunk_end + 1) st' \<and> 0 < sn_batch_len st')"
  using assms
proof (induction fuel arbitrary: h tot st)
  case 0
  then have "h = chunk_end + 1" by simp
  then show ?case using 0 ends by (auto simp: sub_batches_done)
next
  case (Suc fuel)
  obtain b s1 o1 where tot: "tot = (b, s1, o1)" by (metis prod_cases3)
  show ?case
  proof (cases "chunk_end + 1 - h = 0")
    case True
    then have "h = chunk_end + 1" using Suc.prems(4) by simp
    then show ?thesis using Suc.prems ends by (auto simp: sub_batches_done)
  next
    case False
    define len where "len = min (sn_batch_len st) (chunk_end + 1 - h)"
    have len: "0 < len" "h + len \<le> chunk_end + 1" using False Suc.prems(4,7) by (auto simp: len_def)
    obtain st1 y where one: "sub_batch ops cfg local_mode range_end (tms (sn_index st)) chk cs h len st = (st1, y)" by force
    have B: "J st1 \<and> (\<forall>sm. y = Returned (Inr sm) \<longrightarrow> I (h + len) st1)"
      using batch [OF one Suc.prems(2) len(1)] len Suc.prems(3) by simp
    note E = sub_batch_ends [OF one Suc.prems(6,7)]
    have eq: "(case y of Running \<Rightarrow> (st1, Running) | Panicked \<Rightarrow> (st1, Panicked) | Returned (Inl e) \<Rightarrow> (st1, Returned (Inl e))
        | Returned (Inr sm) \<Rightarrow> sub_batches ops cfg local_mode range_end tms chk cs chunk_end fuel (h + len)
            (b + (snd (sm_scanned sm) - fst (sm_scanned sm)), s1 + sm_sapling sm, o1 + sm_orchard sm) st1) = (st', x)"
      using Suc.prems(1) unfolding tot sub_batches_more [OF False] Let_def len_def [symmetric] one prod.case .
    show ?thesis
    proof (cases "\<exists>sm. y = Returned (Inr sm)")
      case True
      then obtain sm where y: "y = Returned (Inr sm)" by blast
      let ?t = "(b + (snd (sm_scanned sm) - fst (sm_scanned sm)), s1 + sm_sapling sm, o1 + sm_orchard sm)"
      have rest: "sub_batches ops cfg local_mode range_end tms chk cs chunk_end fuel (h + len) ?t st1 = (st', x)"
        using eq by (simp add: y)
      show ?thesis
        by (rule Suc.IH [OF rest _ Suc.prems(3)]) (use B E y len Suc.prems(5,6) in simp_all)
    next
      case False
      then have "st' = st1" "x \<noteq> Running" "\<forall>z. x \<noteq> Returned (Inr z)" using eq E by (auto split: run.splits sum.splits)
      then show ?thesis using B by auto
    qed
  qed
qed

lemma one_chunk:
  assumes run: "scan_chunk ops cfg local_mode range_end tms ct chk st = (st', x)" and inv: "I h st"
    and chk: "chunk_blocks_of chk \<noteq> []" "start_height chk = Some h" "end_height chk = Some (h + length (chunk_blocks_of chk) - 1)"
    and e: "h + length (chunk_blocks_of chk) \<le> range_end + 1"
  shows "x \<noteq> Running \<and> J st' \<and> (\<forall>y. x = Returned (Inr y) \<longrightarrow> I (h + length (chunk_blocks_of chk)) st')"
proof -
  let ?n = "length (chunk_blocks_of chk)"
  let ?st0 = "st\<lparr>sn_stats := (sn_stats st)\<lparr>recv_wait := recv_wait (sn_stats st) + tm_recv_wait ct\<rparr>\<rparr>"
  define st1 where "st1 = (if scan_batch_target_ms cfg = None \<or> sn_batch_len ?st0 = 0
      then ?st0\<lparr>sn_batch_len := min ?n u32_max\<rparr> else ?st0)"
  have n: "0 < ?n" using chk(1) by simp
  have pos: "0 < sn_batch_len st1" using n by (auto simp: st1_def u32_max_def)
  have inv1: "I h st1" by (rule course [OF inv]) (simp add: st1_def same_course_def)
  obtain st2 y where bs: "sub_batches ops cfg local_mode range_end tms chk h (h + ?n - 1) ?n h (0, 0, 0) st1 = (st2, y)" by force
  have B: "y \<noteq> Running \<and> J st2 \<and> (\<forall>z. y = Returned (Inr z) \<longrightarrow> I (h + ?n) st2 \<and> 0 < sn_batch_len st2)"
    using batches [OF bs inv1] e n pos by simp
  have le: "\<not> h + ?n - 1 > range_end" using e n by simp
  have eq: "(case y of Running \<Rightarrow> (st2, Running) | Panicked \<Rightarrow> (st2, Panicked) | Returned (Inl e) \<Rightarrow> (st2, Returned (Inl e))
      | Returned (Inr (blocks, sapling, orchard)) \<Rightarrow>
          (let s = sn_stats st2;
               st3 = st2\<lparr>sn_stats := s\<lparr>ss_blocks := ss_blocks s + blocks, ss_chunks := ss_chunks s + 1,
                           ss_sapling_received := ss_sapling_received s + sapling,
                           ss_orchard_received := ss_orchard_received s + orchard\<rparr>,
                         sn_notes := sn_notes st2 + (sapling + orchard),
                         sn_progress := map_option (add_scanned blocks (tm_now ct)) (sn_progress st2)\<rparr>;
               (st4, r) = interleave ops cfg ct st3
           in (st4, Returned r))) = (st', x)"
    using run le unfolding scan_chunk_def Let_def chk(2,3) st1_def [symmetric] option.case prod.case bs by simp
  show ?thesis
  proof (cases "\<exists>z. y = Returned (Inr z)")
    case True
    then obtain b s1 o1 where y: "y = Returned (Inr (b, s1, o1))" by auto
    obtain st3 r where it: "interleave ops cfg ct st3 = (st', r)" "x = Returned r" "same_course st2 st3"
      using eq by (auto simp: y Let_def same_course_def split: prod.splits)
    have sc: "same_course st2 st'" using it(3) interleave_course [OF it(1)] by (simp add: same_course_def)
    then have "I (h + ?n) st'" using course B y by blast
    then show ?thesis using it(2) B sc keeps by auto
  next
    case False
    then have "st' = st2" "x \<noteq> Running" "\<forall>z. x \<noteq> Returned (Inr z)" using eq B by (auto split: run.splits sum.splits)
    then show ?thesis using B by auto
  qed
qed

lemma loop:
  assumes "scan_loop ops cfg local_mode range_end tms cts chunks st = (st', x)" and "I h st"
    and "chunk_run h chunks e" and "e \<le> range_end + 1"
  shows "x \<noteq> Running \<and> J st' \<and>
    (\<forall>y. x = Returned (Inr y) \<longrightarrow> (\<exists>st1. I e st1 \<and> settle ops True (\<lambda>h. True) st1 = (st', Inr ())))"
  using assms
proof (induction chunks arbitrary: h st)
  case Nil
  obtain st1 r where s: "settle ops True (\<lambda>h. True) st = (st1, r)" by force
  have "J st" using ends Nil.prems by simp
  then have "J st1" using settles s by blast
  then show ?case using Nil.prems s by auto
next
  case (Cons chk chunks)
  let ?n = "length (chunk_blocks_of chk)"
  obtain st1 y where one: "scan_chunk ops cfg local_mode range_end tms (cts (ss_chunks (sn_stats st))) chk st = (st1, y)" by force
  have run: "chunk_run (h + ?n) chunks e" using Cons.prems(3) by simp
  have "h + ?n \<le> range_end + 1" using chunk_run_le [OF run] Cons.prems(4) by simp
  then have C: "y \<noteq> Running \<and> J st1 \<and> (\<forall>z. y = Returned (Inr z) \<longrightarrow> I (h + ?n) st1)"
    using one_chunk [OF one Cons.prems(2)] Cons.prems(3) by simp
  show ?case
  proof (cases "\<exists>z. y = Returned (Inr z)")
    case True
    then have "scan_loop ops cfg local_mode range_end tms cts chunks st1 = (st', x)" "I (h + ?n) st1"
      using Cons.prems(1) one C by auto
    then show ?thesis using Cons.IH run Cons.prems(4) by blast
  next
    case False
    then have "st' = st1" "x \<noteq> Running" "\<forall>z. x \<noteq> Returned (Inr z)"
      using Cons.prems(1) one C by (auto split: run.splits sum.splits)
    then show ?thesis using C by auto
  qed
qed

end

interpretation tiling: scan_course ops cfg local_mode range_end
  "\<lambda>h st. states_at ch ops \<longrightarrow> scan_inv ch ops local_mode start range_end h st"
  "\<lambda>st. states_at ch ops \<longrightarrow> (\<exists>e \<le> range_end + 1. calls_ok ch start (sn_calls st) e)"
  for ops :: "('s, 't, 'c, 'l) scan_ops" and cfg :: "('n, 'a) engine_config" and local_mode range_end ch start
proof unfold_locales
  fix tm chk cs h len and st st' :: "('s, 't, 'c, 'l) scan_state" and x
  assume "sub_batch ops cfg local_mode range_end tm chk cs h len st = (st', x)"
    "states_at ch ops \<longrightarrow> scan_inv ch ops local_mode start range_end h st" "0 < len" "h + len \<le> range_end + 1"
  then show "(states_at ch ops \<longrightarrow> (\<exists>e \<le> range_end + 1. calls_ok ch start (sn_calls st') e)) \<and>
      (\<forall>sm. x = Returned (Inr sm) \<longrightarrow> states_at ch ops \<longrightarrow> scan_inv ch ops local_mode start range_end (h + len) st')"
    using sub_batch_run by blast
next
  fix st st' :: "('s, 't, 'c, 'l) scan_state" and r
  assume "states_at ch ops \<longrightarrow> (\<exists>e \<le> range_end + 1. calls_ok ch start (sn_calls st) e)" "settle ops True (\<lambda>h. True) st = (st', r)"
  then show "states_at ch ops \<longrightarrow> (\<exists>e \<le> range_end + 1. calls_ok ch start (sn_calls st') e)"
    using settle_run by fastforce
next
  fix h and st st' :: "('s, 't, 'c, 'l) scan_state"
  assume "states_at ch ops \<longrightarrow> scan_inv ch ops local_mode start range_end h st" "same_course st st'"
  then show "states_at ch ops \<longrightarrow> scan_inv ch ops local_mode start range_end h st'"
    using scan_inv_cong by (auto simp: same_course_def)
qed (auto simp: same_course_def dest: scan_inv_end)

text \<open>Every outcome of a scan comes from the loop, or from before its first call.\<close>

lemma scan_chunks_loop:
  assumes "scan_chunks ops cfg range_start range_end tms cts now dt chunks fence fuse store p = (out, calls, x)"
  shows "(calls = [] \<and> (\<exists>e. x = Returned (Inl e))) \<or>
    (0 < range_start \<and> (\<exists>store0 t st y. so_seed_state ops (range_start - 1) = Inr t \<and>
      scan_loop ops cfg (local_treestate_active cfg fuse) range_end tms cts chunks
        (scan_begin store0 p fence fuse t) = (st, y) \<and>
      calls = sn_calls st \<and> (y \<noteq> Running \<longrightarrow> x \<noteq> Running) \<and> (\<forall>stats. x = Returned (Inr stats) \<longrightarrow> y = Returned (Inr ()))))"
proof -
  obtain store0 q where op: "(if write_behind cfg then so_open ops store else (store, Inr ())) = (store0, q)" by force
  obtain st1 p1 f1 u1 cs1 r1 where inn:
    "scan_chunks_inner ops cfg range_start range_end tms cts chunks fence fuse store0 p = ((st1, p1, f1, u1), cs1, r1)"
    by (metis prod.exhaust)
  show ?thesis
  proof (cases "range_start = 0 \<or> range_end < range_start \<or> (\<exists>e. q = Inl e)")
    case True
    then show ?thesis using assms by (auto simp: scan_chunks_def op split: if_splits)
  next
    case False
    then have q: "q = Inr ()" by (cases q) auto
    have outer: "calls = cs1 \<and> (r1 \<noteq> Running \<longrightarrow> x \<noteq> Running) \<and> (\<forall>stats. x = Returned (Inr stats) \<longrightarrow> (\<exists>s. r1 = Returned (Inr s))) \<and>
        (\<forall>e. r1 = Returned (Inl e) \<longrightarrow> (\<exists>e. x = Returned (Inl e)))"
      using assms False unfolding scan_chunks_def op q inn
      by (auto simp: inn scan_barrier_def split: run.splits if_splits prod.splits sum.splits)
    show ?thesis
    proof (cases "so_seed_state ops (range_start - 1)")
      case (Inl e)
      then have "cs1 = []" "r1 = Returned (Inl e)" using inn by (auto simp: scan_chunks_inner_def)
      then show ?thesis using outer by auto
    next
      case (Inr t)
      let ?st = "scan_begin store0 p fence fuse t"
      obtain st y where lp: "scan_loop ops cfg (local_treestate_active cfg fuse) range_end tms cts chunks ?st = (st, y)" by force
      have "cs1 = sn_calls st \<and> (y \<noteq> Running \<longrightarrow> r1 \<noteq> Running) \<and> (\<forall>s. r1 = Returned (Inr s) \<longrightarrow> y = Returned (Inr ()))"
        using inn Inr lp by (auto simp: scan_chunks_inner_def split: run.splits sum.splits)
      then have "calls = sn_calls st \<and> (y \<noteq> Running \<longrightarrow> x \<noteq> Running) \<and> (\<forall>stats. x = Returned (Inr stats) \<longrightarrow> y = Returned (Inr ()))"
        using outer by blast
      then show ?thesis using False Inr lp
        by (intro disjI2 conjI exI [of _ store0] exI [of _ t] exI [of _ st] exI [of _ y]) auto
    qed
  qed
qed

text \<open>
  C10.  The scan of a range calls the scanner on consecutive runs of blocks, each from the chain state at
  the height just below its first block, in server mode and in local mode, whatever the batch lengths
  the controller chooses; so also for a scan that fails half way.  A scan that succeeds has covered the
  range exactly.  The scan comes to an end: no sub-batch loop runs on.
\<close>

theorem scan_tiles_range:
  fixes ops :: "('s, 't, 'c, 'l) scan_ops"
  assumes "states_at ch ops" and "chunk_run range_start chunks (range_end + 1)"
    and "scan_chunks ops cfg range_start range_end tms cts now dt chunks fence fuse store p = (out, calls, x)"
  shows "x \<noteq> Running \<and> (\<exists>e \<le> range_end + 1. calls_ok ch range_start calls e) \<and>
    (\<forall>stats. x = Returned (Inr stats) \<longrightarrow> calls_ok ch range_start calls (range_end + 1))"
  using scan_chunks_loop [OF assms(3)]
proof (elim disjE conjE exE)
  fix e assume "calls = []" "x = Returned (Inl e)"
  moreover have "range_start \<le> range_end + 1" by (rule chunk_run_le [OF assms(2)])
  ultimately show ?thesis by (auto simp: calls_ok_def)
next
  fix store0 :: 's and t :: 't and st :: "('s, 't, 'c, 'l) scan_state" and y
  let ?st = "scan_begin store0 p fence fuse t :: ('s, 't, 'c, 'l) scan_state"
  let ?lm = "local_treestate_active cfg fuse"
  assume pos: "0 < range_start" and seed: "so_seed_state ops (range_start - 1) = Inr t"
    and lp: "scan_loop ops cfg ?lm range_end tms cts chunks ?st = (st, y)" and c: "calls = sn_calls st"
    and run: "y \<noteq> Running \<longrightarrow> x \<noteq> Running" and good: "\<forall>stats. x = Returned (Inr stats) \<longrightarrow> y = Returned (Inr ())"
  have "ch d + 1 = range_start" if "from_state_of ops ?st = Inr d" for d
    using that assms(1) seed pos by (auto simp: scan_begin_def from_state_of_def states_at_def map_sum_def split: sum.splits)
  then have inv: "states_at ch ops \<longrightarrow> scan_inv ch ops ?lm range_start range_end range_start ?st"
    using pos by (simp add: scan_inv_def calls_ok_def scan_begin_def)
  note L = tiling.loop [OF lp inv assms(2) order_refl]
  have "calls_ok ch range_start calls (range_end + 1)" if ok: "x = Returned (Inr stats)" for stats
  proof -
    obtain st1 where "scan_inv ch ops ?lm range_start range_end (range_end + 1) st1" "settle ops True (\<lambda>h. True) st1 = (st, Inr ())"
      using L good ok assms(1) by blast
    then show ?thesis using scan_inv_end settle_run c by fastforce
  qed
  then show ?thesis using L run c assms(1) by blast
qed

section \<open>What the audits establish\<close>

text \<open>The server, where it has an answer for a height, answers with the state \<open>c\<close>.\<close>

definition agrees :: "('s, 't, 'c, 'l) scan_ops \<Rightarrow> nat \<Rightarrow> 'c \<Rightarrow> bool" where
  "agrees ops h c \<longleftrightarrow> (case so_prefetch ops h of
       Inr (Inr t) \<Rightarrow> (case so_to_chain ops t of Inr d \<Rightarrow> c = d | Inl _ \<Rightarrow> True)
     | _ \<Rightarrow> True)"

lemma drain_audits_settles:
  assumes "drain_audits ops force fin audits = Inr rest" and "(h, c) \<in> set audits"
  shows "(h, c) \<in> set rest \<or> agrees ops h c"
  using assms
  by (induction ops force fin audits arbitrary: rest rule: drain_audits.induct)
    (auto simp: agrees_def map_sum_def split: if_splits sum.splits)

lemma drain_audits_forced:
  "drain_audits ops True fin audits = Inr rest \<Longrightarrow> rest = []"
  by (induction ops True fin audits arbitrary: rest rule: drain_audits.induct) (auto split: if_splits sum.splits)

text \<open>A state is vouched for when its audit is on its way or the server has confirmed it.\<close>

definition vouched :: "('s, 't, 'c, 'l) scan_ops \<Rightarrow> ('s, 't, 'c, 'l) scan_state \<Rightarrow> nat \<Rightarrow> 'c \<Rightarrow> bool" where
  "vouched ops st h c \<longleftrightarrow> (h, c) \<in> set (sn_audits st) \<or> agrees ops h c"

lemma settle_vouched: "settle ops force fin st = (st', Inr ()) \<Longrightarrow> vouched ops st h c \<Longrightarrow> vouched ops st' h c"
  by (drule settle_run) (use drain_audits_settles in \<open>fastforce simp: vouched_def\<close>)

lemma finish_batch_audits:
  assumes run: "finish_batch ops True prefetch tm chk cs sub_start len st = (st', Inr ())"
  shows "(\<forall>h c. vouched ops st h c \<longrightarrow> vouched ops st' h c) \<and>
    (prefetch \<longrightarrow> sn_local st \<noteq> None \<longrightarrow> (\<forall>c. from_state_of ops st' = Inr c \<longrightarrow> vouched ops st' (sub_start + len - 1) c))"
proof -
  let ?st0 = "st\<lparr>sn_stats := (sn_stats st)\<lparr>scan_call := scan_call (sn_stats st) + of_nat (tm_elapsed_ms tm) / 1000\<rparr>\<rparr>"
  obtain st1 r1 where a: "absorb_step ops chk cs sub_start len (tm_absorb tm) ?st0 = (st1, r1)" by force
  obtain st2 r2 where c: "(if prefetch then consume_prefetch ops True (sub_start + len - 1) (tm_prefetch_wait tm) st1
      else (st1, Inr ())) = (st2, r2)" by force
  have body: "(case r1 of Inl e \<Rightarrow> (st1, Inl e) | Inr _ \<Rightarrow>
      (case r2 of Inl e \<Rightarrow> (st2, Inl e) | Inr _ \<Rightarrow> settle ops False (tm_finished tm) st2)) = (st', Inr ())"
    using run unfolding finish_batch_def Let_def a by (simp add: c split: sum.splits)
  then have r1: "r1 = Inr ()" and r2: "r2 = Inr ()" and s: "settle ops False (tm_finished tm) st2 = (st', Inr ())"
    by (auto split: sum.splits)
  note A = absorb_step_run [OF a] and S = settle_run [OF s]
  have grow: "set (sn_audits st1) \<subseteq> set (sn_audits st2)"
    using c r2 by (auto simp: consume_prefetch_def split: if_splits option.splits)
  have "vouched ops st2 (sub_start + len - 1) d"
    if pf: "prefetch" and ln: "sn_local st \<noteq> None" and d: "from_state_of ops st' = Inr d" for d
  proof -
    obtain ts b where l: "sn_local st1 = Some ts" "sn_boundary st1 = Some (sub_start + len - 1, b)" using A r1 ln by auto
    have p: "consume_prefetch ops True (sub_start + len - 1) (tm_prefetch_wait tm) st1 = (st2, Inr ())" using c r2 pf by simp
    note P = consume_prefetch_run [OF p]
    have "d = so_chain_state ops (sub_start + len - 1) b ts"
      using d S P l by (auto simp: from_state_of_def split: if_splits)
    then show ?thesis using P l by (simp add: vouched_def)
  qed
  moreover have "vouched ops st2 h d" if "vouched ops st h d" for h d
    using that A grow by (auto simp: vouched_def)
  ultimately show ?thesis using settle_vouched [OF s] by blast
qed

text \<open>Before the sub-batch at \<open>h\<close>: the calls made so far, and the state the next one will start from.\<close>

definition audit_inv :: "('s, 't, 'c, 'l) scan_ops \<Rightarrow> nat \<Rightarrow> nat \<Rightarrow> ('s, 't, 'c, 'l) scan_state \<Rightarrow> bool" where
  "audit_inv ops sample h st \<longleftrightarrow>
     sn_index st = length (sn_calls st) \<and>
     (sn_calls st = [] \<longrightarrow> sn_local st = None \<and> sn_boundary st = None) \<and>
     (sn_calls st \<noteq> [] \<longrightarrow> (\<exists>ts b. sn_local st = Some ts \<and> sn_boundary st = Some (h - 1, b)) \<and>
        ((sn_index st - 1) mod sample = 0 \<longrightarrow> (\<forall>c. from_state_of ops st = Inr c \<longrightarrow> vouched ops st (h - 1) c))) \<and>
     (\<forall>i < length (sn_calls st). 0 < i \<longrightarrow> (i - 1) mod sample = 0 \<longrightarrow>
        vouched ops st (fst (sn_calls st ! i) - 1) (fst (snd (sn_calls st ! i))))"

lemma sub_batch_success:
  assumes "sub_batch ops cfg local_mode range_end tm chk cs sub_start len st = (st', Returned (Inr sm))"
  obtains c st1 st2 st3 where "prepare_batch ops local_mode tm sub_start st = (st1, Inr c)"
    "scan_batch ops (write_behind cfg) tm chk sub_start c len st1 = (st2, Inr sm)"
    "finish_batch ops local_mode (needs_server_boundary_state local_mode
      (local_mode \<and> treestate_verify_sample cfg > 0 \<and> sn_index st mod treestate_verify_sample cfg = 0) (sub_start + len - 1) range_end)
      tm chk cs sub_start len st2 = (st3, Inr ())"
    "adapt cfg len (tm_elapsed_ms tm) (length (chunk_blocks_of chk)) st3 = Some st'"
  using assms unfolding sub_batch_def Let_def
  by (auto split: prod.splits sum.splits option.splits)

lemma vouched_cong: "sn_audits st' = sn_audits st \<Longrightarrow> vouched ops st' = vouched ops st"
  by (simp add: vouched_def fun_eq_iff)

lemma audit_inv_cong:
  assumes "audit_inv ops sample h st" and "same_course st st'"
  shows "audit_inv ops sample h st'"
  using assms from_state_cong [of st' st ops] vouched_cong [of st' st ops] by (simp add: audit_inv_def same_course_def)

lemma sub_batch_audits:
  assumes run: "sub_batch ops cfg True range_end tm chk cs sub_start len st = (st', Returned (Inr sm))"
    and inv: "audit_inv ops (treestate_verify_sample cfg) sub_start st" and sample: "0 < treestate_verify_sample cfg"
  shows "audit_inv ops (treestate_verify_sample cfg) (sub_start + len) st'"
proof -
  let ?s = "treestate_verify_sample cfg"
  obtain c st1 st2 st3 where p: "prepare_batch ops True tm sub_start st = (st1, Inr c)"
    and sc: "scan_batch ops (write_behind cfg) tm chk sub_start c len st1 = (st2, Inr sm)"
    and f: "finish_batch ops True (needs_server_boundary_state True (True \<and> ?s > 0 \<and> sn_index st mod ?s = 0) (sub_start + len - 1) range_end)
        tm chk cs sub_start len st2 = (st3, Inr ())"
    and ad: "adapt cfg len (tm_elapsed_ms tm) (length (chunk_blocks_of chk)) st3 = Some st'"
    by (rule sub_batch_success [OF run])
  note P = prepare_batch_run [OF p] and S = scan_batch_run [OF sc] and F = finish_batch_run [OF f]
    and A = finish_batch_audits [OF f] and D = adapt_course [OF ad]
  have c: "from_state_of ops st = Inr c" using P by simp
  have calls: "sn_calls st' = sn_calls st @ [(sub_start, c, len)]" using P S F D by simp
  have index: "sn_index st' = length (sn_calls st')" using inv P S F D by (simp add: calls audit_inv_def)
  have loc2: "sn_local st2 \<noteq> None" using P S by simp
  have loc: "\<exists>ts b. sn_local st' = Some ts \<and> sn_boundary st' = Some (sub_start + len - 1, b)" using F D loc2 by simp
  have V: "vouched ops st' = vouched ops st3" using D by (intro vouched_cong) simp
  have V2: "vouched ops st2 = vouched ops st" using P S by (intro vouched_cong) simp
  have fs: "from_state_of ops st' = from_state_of ops st3" using D by (intro from_state_cong) simp_all
  have old: "vouched ops st' h d" if "vouched ops st h d" for h d using A that by (simp add: V V2)
  have new: "vouched ops st' (sub_start + len - 1) d"
    if "(sn_index st' - 1) mod ?s = 0" "from_state_of ops st' = Inr d" for d
  proof -
    have "sn_index st mod ?s = 0" using that(1) index inv by (simp add: calls audit_inv_def)
    then show ?thesis using A that(2) loc2 sample by (simp add: V fs needs_server_boundary_state_def)
  qed
  have "vouched ops st' (fst (sn_calls st' ! i) - 1) (fst (snd (sn_calls st' ! i)))"
    if i: "i < length (sn_calls st')" "0 < i" "(i - 1) mod ?s = 0" for i
  proof (cases "i < length (sn_calls st)")
    case True
    then show ?thesis using inv i old by (auto simp: audit_inv_def calls nth_append)
  next
    case False
    then have "i = length (sn_calls st)" using i(1) by (simp add: calls)
    then show ?thesis using inv i c old by (auto simp: audit_inv_def calls nth_append)
  qed
  then show ?thesis using index loc new by (auto simp: audit_inv_def calls)
qed


interpretation audited: scan_course ops cfg True range_end
  "\<lambda>h st. 0 < treestate_verify_sample cfg \<longrightarrow> audit_inv ops (treestate_verify_sample cfg) h st" "\<lambda>st. True"
  for ops :: "('s, 't, 'c, 'l) scan_ops" and cfg :: "('n, 'a) engine_config" and range_end
  by unfold_locales (auto intro: sub_batch_audits audit_inv_cong)

text \<open>
  C17.  In local mode every \<open>treestate_verify_sample\<close>-th derived state is compared with the server's: a scan
  that succeeds has used, at each sampled boundary the server has an answer for, exactly the server's state.
\<close>

theorem local_states_are_audited:
  fixes ops :: "('s, 't, 'c, 'l) scan_ops"
  assumes "local_treestate_active cfg fuse" and "0 < treestate_verify_sample cfg"
    and "chunk_run range_start chunks (range_end + 1)"
    and "scan_chunks ops cfg range_start range_end tms cts now dt chunks fence fuse store p = (out, calls, Returned (Inr stats))"
    and "i < length calls" and "0 < i" and "(i - 1) mod treestate_verify_sample cfg = 0" and "calls ! i = (h, c, n)"
    and "so_prefetch ops (h - 1) = Inr (Inr t)" and "so_to_chain ops t = Inr d"
  shows "c = d"
proof -
  obtain store0 t0 st where lp: "scan_loop ops cfg True range_end tms cts chunks (scan_begin store0 p fence fuse t0) = (st, Returned (Inr ()))"
    and c: "calls = sn_calls st"
    using scan_chunks_loop [OF assms(4)] assms(1) by auto
  have inv: "0 < treestate_verify_sample cfg \<longrightarrow>
      audit_inv ops (treestate_verify_sample cfg) range_start (scan_begin store0 p fence fuse t0 :: ('s, 't, 'c, 'l) scan_state)"
    by (simp add: audit_inv_def scan_begin_def)
  obtain st1 where a: "audit_inv ops (treestate_verify_sample cfg) (range_end + 1) st1" and s: "settle ops True (\<lambda>h. True) st1 = (st, Inr ())"
    using audited.loop [OF lp inv assms(3) order_refl] assms(2) by auto
  have "sn_calls st1 = calls" "sn_audits st = []" using settle_run [OF s] c drain_audits_forced by auto
  then have "vouched ops st (h - 1) c" using a assms(5-8) settle_vouched [OF s] by (fastforce simp: audit_inv_def)
  then show ?thesis using \<open>sn_audits st = []\<close> assms(9,10) by (simp add: vouched_def agrees_def)
qed

text \<open>A world of one-note wallets: tree states and chain states are heights, the local frontier a count.\<close>

definition demo_scan_block :: "nat \<Rightarrow> compact_block" where
  "demo_scan_block h = \<lparr>height = h, hash = replicate 32 (word_of_nat h), prev_hash = replicate 32 (word_of_nat (h - 1)), vtx = []\<rparr>"

definition demo_scan_chunks :: "chunk list" where
  "demo_scan_chunks = [from_blocks (\<lambda>b. 1) 0 [demo_scan_block 5, demo_scan_block 6], from_blocks (\<lambda>b. 1) 1 [demo_scan_block 7]]"

definition demo_scan_ops :: "(nat, nat, nat, nat) scan_ops" where
  "demo_scan_ops =
     \<lparr>so_seed_state = Inr, so_prefetch = (\<lambda>h. Inr (Inr h)), so_to_chain = Inr, so_seed = (\<lambda>c. 0),
      so_absorb = (\<lambda>b l. Inr (l + 1)), so_chain_state = (\<lambda>h b l. h),
      so_scan = (\<lambda>chk h c n s. (s + n, Inr \<lparr>sm_scanned = (h, h + n), sm_sapling = 0, sm_orchard = 1\<rparr>)),
      so_submit = (\<lambda>s. (s, Inr ())), so_drain = (\<lambda>s. (s, Inr ())), so_enhance = (\<lambda>x. (x, Inl (Transport ''down''))),
      so_reseed = (\<lambda>s. (s, Inr ())), so_open = (\<lambda>s. (s, Inr ())), so_drop_stash = id, so_finish_graft = (\<lambda>s. (s, Inr ())),
      so_lane_times = (\<lambda>s. (0, 0)), so_census = (\<lambda>s. (census_empty, census_empty))\<rparr>"

definition demo_sub_times :: "nat \<Rightarrow> sub_times" where
  "demo_sub_times n = \<lparr>tm_spawn = 0, tm_state_prep = 0, tm_elapsed_ms = 7, tm_walk1 = 0, tm_walk2 = 0, tm_submit_wait = 0,
     tm_submit = 0, tm_absorb = 0, tm_prefetch_wait = 0, tm_finished = (\<lambda>h. False)\<rparr>"

definition demo_chunk_times :: "nat \<Rightarrow> chunk_times" where
  "demo_chunk_times n = \<lparr>tm_recv_wait = 0, tm_now = n, tm_drain = 0, tm_enhance = 0, tm_reseed = 0\<rparr>"

definition demo_scan_config :: "(unit, unit) engine_config" where
  "demo_scan_config = config_new () ''w'' demo_endpoint"

definition demo_scan :: "bool \<Rightarrow> nat option \<Rightarrow>
    (nat \<times> progress option \<times> decryption_fence \<times> bool) \<times> (nat \<times> nat \<times> nat) list \<times> (slipstream_error + scan_stats) run" where
  "demo_scan loc target = scan_chunks demo_scan_ops (demo_scan_config\<lparr>local_treestate := loc, scan_batch_target_ms := target\<rparr>)
     5 7 demo_sub_times demo_chunk_times 9 0 demo_scan_chunks fence_new False 0 None"

lemmas demo_scan_defs = demo_scan_def demo_scan_ops_def demo_scan_config_def demo_scan_chunks_def demo_scan_block_def demo_sub_times_def
  demo_chunk_times_def scan_chunks_def scan_chunks_inner_def scan_begin_def local_treestate_active_def config_new_def
  scan_chunk_def sub_batches.simps sub_batch_def prepare_batch_def scan_batch_def finish_batch_def absorb_step_def consume_prefetch_def
  settle_def adapt_def interleave_def scan_barrier_def from_state_of_def needs_server_boundary_state_def start_height_def end_height_def
  next_batch_len_def MIN_BATCH_def should_interleave_enhancement_def u32_max_def owed_def fence_new_def scan_stats_default_def Let_def

lemma demo_scan_run:
  "fst (snd (demo_scan loc None)) = [(5, 4, 2), (7, 6, 1)]" "\<exists>s. snd (snd (demo_scan loc None)) = Returned (Inr s)"
  by (cases loc; simp add: demo_scan_defs)+

lemma demo_scan_hyps: "states_at id demo_scan_ops" "chunk_run 5 demo_scan_chunks 8"
  by (auto simp: states_at_def demo_scan_ops_def demo_scan_chunks_def demo_scan_block_def start_height_def end_height_def)

theorem scan_tiles_range_witness:
  "states_at id demo_scan_ops \<and> chunk_run 5 demo_scan_chunks 8 \<and> calls_ok id 5 (fst (snd (demo_scan True None))) 8"
proof -
  obtain out calls s where d: "demo_scan True None = (out, calls, Returned (Inr s))"
    using demo_scan_run(2) [of True] by (metis prod.collapse)
  then show ?thesis
    using scan_tiles_range [OF demo_scan_hyps(1), of 5 demo_scan_chunks 7, OF _ d [unfolded demo_scan_def]] demo_scan_hyps by simp
qed

theorem local_states_are_audited_witness:
  "\<exists>h c n t. fst (snd (demo_scan True None)) ! 1 = (h, c, n) \<and> so_prefetch demo_scan_ops (h - 1) = Inr (Inr t) \<and>
     so_to_chain demo_scan_ops t = Inr c \<and> h = 7"
proof -
  let ?cfg = "demo_scan_config\<lparr>local_treestate := True, scan_batch_target_ms := None\<rparr>"
  obtain out s where d: "demo_scan True None = (out, [(5, 4, 2), (7, 6, 1)], Returned (Inr s))"
    using demo_scan_run [of True] by (metis prod.collapse)
  have "(6::nat) = 6"
    by (rule local_states_are_audited [of ?cfg False 5 demo_scan_chunks 7, OF _ _ _ d [unfolded demo_scan_def], where i = 1 and h = 7 and n = 1 and t = 6])
      (use demo_scan_hyps(2) in \<open>simp_all add: local_treestate_active_def demo_scan_config_def config_new_def demo_scan_ops_def\<close>)
  then show ?thesis
    by (intro exI [of _ 7] exI [of _ 6] exI [of _ 1]) (simp add: d demo_scan_ops_def)
qed


end
