(* ===== verification/Slip_Lane.thy ===== *)
theory Slip_Lane
  imports Slip_Progress Slip_Error
begin

text \<open>
  Write-behind persistence (\<open>src/core/src/persist.rs\<close>): the scan goes on while the blocks it has
  scanned are still being committed.  Commits are made one at a time by a persist lane of bounded
  depth; the reads of the scan are served by a facade that is ahead of the database.

  A commit is a function of the database and the tree state the lane owns.  It may panic, fail, or
  succeed after some time.  Its outcome is taken when it is awaited.  The times the scan waits for a
  unit, and the clock at the end of a commit, are functions of the unit's span of heights.
\<close>

section \<open>The persist lane\<close>

type_synonym ('d, 's) persist_job = "'d \<Rightarrow> 's \<Rightarrow> string + 'd \<times> 's \<times> (string + rat)"

record ('d, 's) persist_lane =
  pl_db :: "'d option"
  pl_sparse :: "'s option"
  pl_progress :: "progress option"
  pl_in_flight :: "((nat \<times> nat) \<times> ('d, 's) persist_job \<times> 'd \<times> 's) option"
  pl_queue :: "((nat \<times> nat) \<times> ('d, 's) persist_job) list"
  pl_depth :: nat
  pl_total_wait :: rat
  pl_total_busy :: rat

definition lane_open :: "nat \<Rightarrow> 'd \<Rightarrow> 's \<Rightarrow> ('d, 's) persist_lane" where
  "lane_open depth db sparse =
     \<lparr>pl_db = Some db, pl_sparse = Some sparse, pl_progress = None, pl_in_flight = None, pl_queue = [],
      pl_depth = max depth 1, pl_total_wait = 0, pl_total_busy = 0\<rparr>"

definition attach_writer_gate :: "progress \<Rightarrow> ('d, 's) persist_lane \<Rightarrow> ('d, 's) persist_lane" where
  "attach_writer_gate p l = l\<lparr>pl_progress := Some p\<rparr>"

definition pending_count :: "('d, 's) persist_lane \<Rightarrow> nat" where
  "pending_count l = (if pl_in_flight l = None then 0 else 1) + length (pl_queue l)"

definition spawn_next :: "('d, 's) persist_lane \<Rightarrow> ('d, 's) persist_lane \<times> (slipstream_error + unit)" where
  "spawn_next l =
     (if pl_in_flight l \<noteq> None then (l, Inr ())
      else case pl_queue l of
             [] \<Rightarrow> (l, Inr ())
           | (hs, job) # rest \<Rightarrow>
               (let l1 = l\<lparr>pl_queue := rest, pl_db := None, pl_sparse := None\<rparr>
                in case (pl_db l, pl_sparse l) of
                     (Some db, Some sparse) \<Rightarrow>
                       (l1\<lparr>pl_progress := map_option gate_hold (pl_progress l), pl_in_flight := Some (hs, job, db, sparse)\<rparr>, Inr ())
                   | _ \<Rightarrow> (l1, Inl (Wallet ''write-behind persist lane unusable (connection lost by an earlier failure)''))))"

definition await_in_flight :: "(nat \<times> nat \<Rightarrow> rat) \<Rightarrow> (nat \<times> nat \<Rightarrow> nat) \<Rightarrow> ('d, 's) persist_lane \<Rightarrow>
    ('d, 's) persist_lane \<times> (slipstream_error + unit)" where
  "await_in_flight waited now l =
     (case pl_in_flight l of
        None \<Rightarrow> (l, Inr ())
      | Some (hs, job, db, sparse) \<Rightarrow>
          (case job db sparse of
             Inl m \<Rightarrow>
               (l\<lparr>pl_in_flight := None, pl_progress := map_option gate_drop (pl_progress l)\<rparr>,
                Inl (Wallet (''write-behind persist task died (panic/cancel): '' @ m)))
           | Inr (db', sparse', r) \<Rightarrow>
               (let l1 = l\<lparr>pl_in_flight := None, pl_db := Some db', pl_sparse := Some sparse',
                           pl_total_wait := pl_total_wait l + waited hs\<rparr>
                in case r of
                     Inl m \<Rightarrow>
                       (l1\<lparr>pl_progress := map_option gate_drop (pl_progress l)\<rparr>,
                        Inl (Wallet (''write-behind deferred put_blocks ['' @ nat_str (fst hs) @ ''..='' @ nat_str (snd hs) @
                               '']: '' @ m)))
                   | Inr busy \<Rightarrow>
                       (l1\<lparr>pl_progress := map_option (\<lambda>p. gate_drop (touch (now hs) p)) (pl_progress l),
                           pl_total_busy := pl_total_busy l + busy\<rparr>, Inr ()))))"

text \<open>The loop of \<open>submit_job\<close> and of \<open>drain\<close>: await and start the next one until at most \<open>bound\<close> units are pending.\<close>

definition lane_work :: "('d, 's) persist_lane \<Rightarrow> nat" where
  "lane_work l = (if pl_in_flight l = None then 0 else 1) + 2 * length (pl_queue l)"

lemma await_keeps_queue: "pl_queue (fst (await_in_flight waited now l)) = pl_queue l"
  by (auto simp: await_in_flight_def Let_def split: option.splits sum.splits)

lemma await_none: "pl_in_flight (fst (await_in_flight waited now l)) = None"
  by (auto simp: await_in_flight_def Let_def split: option.splits sum.splits)

lemma reap_measure:
  assumes "await_in_flight waited now l = (l1, Inr u)" and "spawn_next l1 = (l2, Inr v)" and "bound < pending_count l"
  shows "lane_work l2 < lane_work l"
proof -
  have q: "pl_queue l1 = pl_queue l" and f: "pl_in_flight l1 = None"
    using await_keeps_queue [of waited now l] await_none [of waited now l] assms(1) by simp_all
  show ?thesis
  proof (cases "pl_queue l")
    case Nil
    then show ?thesis using assms(2,3) q f by (auto simp: spawn_next_def lane_work_def pending_count_def)
  next
    case (Cons a rest)
    then show ?thesis using assms(2) q f
      by (auto simp: spawn_next_def lane_work_def Let_def split: option.splits prod.splits)
  qed
qed

function reap :: "(nat \<times> nat \<Rightarrow> rat) \<Rightarrow> (nat \<times> nat \<Rightarrow> nat) \<Rightarrow> nat \<Rightarrow> ('d, 's) persist_lane \<Rightarrow>
    ('d, 's) persist_lane \<times> (slipstream_error + unit)" where
  "reap waited now bound l =
     (if pending_count l \<le> bound then (l, Inr ())
      else case await_in_flight waited now l of
             (l1, Inl e) \<Rightarrow> (l1\<lparr>pl_queue := []\<rparr>, Inl e)
           | (l1, Inr _) \<Rightarrow>
               (case spawn_next l1 of
                  (l2, Inl e) \<Rightarrow> (l2, Inl e)
                | (l2, Inr _) \<Rightarrow> reap waited now bound l2))"
  by pat_completeness auto
termination
  by (relation "measure (\<lambda>(waited, now, bound, l). lane_work l)") (auto simp: not_le intro: reap_measure [OF sym sym])

definition submit_job :: "(nat \<times> nat \<Rightarrow> rat) \<Rightarrow> (nat \<times> nat \<Rightarrow> nat) \<Rightarrow> nat \<times> nat \<Rightarrow> ('d, 's) persist_job \<Rightarrow>
    ('d, 's) persist_lane \<Rightarrow> ('d, 's) persist_lane \<times> (slipstream_error + unit)" where
  "submit_job waited now hs job l =
     (case spawn_next (l\<lparr>pl_queue := pl_queue l @ [(hs, job)]\<rparr>) of
        (l1, Inl e) \<Rightarrow> (l1, Inl e)
      | (l1, Inr _) \<Rightarrow> reap waited now (pl_depth l1) l1)"

definition drain_lane :: "(nat \<times> nat \<Rightarrow> rat) \<Rightarrow> (nat \<times> nat \<Rightarrow> nat) \<Rightarrow> ('d, 's) persist_lane \<Rightarrow>
    ('d, 's) persist_lane \<times> (slipstream_error + unit)" where
  "drain_lane waited now l = reap waited now 0 l"

section \<open>Commits happen in order\<close>

text \<open>The reference: the jobs one after the other, on the database itself.\<close>

fun commit_all :: "((nat \<times> nat) \<times> ('d, 's) persist_job) list \<Rightarrow> 'd \<Rightarrow> 's \<Rightarrow> ('d \<times> 's) option" where
  "commit_all [] db sparse = Some (db, sparse)"
| "commit_all ((hs, job) # jobs) db sparse =
     (case job db sparse of
        Inr (db', sparse', Inr _) \<Rightarrow> commit_all jobs db' sparse'
      | _ \<Rightarrow> None)"

lemma commit_all_append:
  "commit_all (xs @ ys) db sp = (case commit_all xs db sp of None \<Rightarrow> None | Some (db', sp') \<Rightarrow> commit_all ys db' sp')"
  by (induction xs db sp rule: commit_all.induct) (auto split: sum.splits)

text \<open>
  \<open>lane_at db0 sp0 jobs l\<close>: of the jobs submitted, some have been committed, in order, and the rest are
  pending, in order.
\<close>

definition lane_at :: "'d \<Rightarrow> 's \<Rightarrow> ((nat \<times> nat) \<times> ('d, 's) persist_job) list \<Rightarrow> ('d, 's) persist_lane \<Rightarrow> bool" where
  "lane_at db0 sp0 jobs l \<longleftrightarrow>
     (\<exists>finished db sp. commit_all finished db0 sp0 = Some (db, sp) \<and>
        (case pl_in_flight l of
           None \<Rightarrow> jobs = finished @ pl_queue l \<and> pl_db l = Some db \<and> pl_sparse l = Some sp
         | Some (hs, job, db', sp') \<Rightarrow>
             jobs = finished @ (hs, job) # pl_queue l \<and> db' = db \<and> sp' = sp \<and> pl_db l = None \<and> pl_sparse l = None))"

text \<open>The lane has stopped at a failed job: nothing after it is ever run.\<close>

definition lane_failed :: "'d \<Rightarrow> 's \<Rightarrow> ((nat \<times> nat) \<times> ('d, 's) persist_job) list \<Rightarrow> ('d, 's) persist_lane \<Rightarrow> slipstream_error \<Rightarrow> bool" where
  "lane_failed db0 sp0 jobs l e \<longleftrightarrow>
     (\<exists>finished hs job rest db sp. jobs = finished @ (hs, job) # rest \<and> commit_all finished db0 sp0 = Some (db, sp) \<and>
        pl_in_flight l = None \<and> pl_queue l = [] \<and>
        (case job db sp of
           Inl m \<Rightarrow> pl_db l = None \<and> e = Wallet (''write-behind persist task died (panic/cancel): '' @ m)
         | Inr (db', sp', Inl m) \<Rightarrow>
             pl_db l = Some db' \<and> e = Wallet (''write-behind deferred put_blocks ['' @ nat_str (fst hs) @ ''..='' @
               nat_str (snd hs) @ '']: '' @ m)
         | Inr (db', sp', Inr _) \<Rightarrow> False))"

lemma spawn_next_at:
  assumes "lane_at db0 sp0 jobs l"
  shows "\<exists>l'. spawn_next l = (l', Inr ()) \<and> lane_at db0 sp0 jobs l' \<and> pl_depth l' = pl_depth l \<and>
    pending_count l' = pending_count l \<and> (pending_count l > 0 \<longrightarrow> pl_in_flight l' \<noteq> None)"
proof (cases "pl_in_flight l")
  case (Some t)
  then show ?thesis using assms by (cases t) (auto simp: spawn_next_def)
next
  case None
  then obtain finished db sp where f: "commit_all finished db0 sp0 = Some (db, sp)" "jobs = finished @ pl_queue l"
    "pl_db l = Some db" "pl_sparse l = Some sp"
    using assms by (auto simp: lane_at_def)
  show ?thesis
  proof (cases "pl_queue l")
    case Nil
    then show ?thesis using None assms by (auto simp: spawn_next_def pending_count_def)
  next
    case (Cons a rest)
    obtain hs job where a: "a = (hs, job)" by (cases a)
    show ?thesis using None f
      by (auto simp: spawn_next_def Cons a Let_def lane_at_def pending_count_def)
  qed
qed

lemma await_at:
  assumes at: "lane_at db0 sp0 jobs l" and run: "await_in_flight waited now l = (l', r)"
  shows "(r = Inr () \<and> lane_at db0 sp0 jobs l' \<and> pl_depth l' = pl_depth l \<and> pl_queue l' = pl_queue l) \<or>
    (\<exists>e. r = Inl e \<and> lane_failed db0 sp0 jobs (l'\<lparr>pl_queue := []\<rparr>) e \<and> commit_all jobs db0 sp0 = None)"
proof (cases "pl_in_flight l")
  case None
  then show ?thesis using at run by (auto simp: await_in_flight_def)
next
  case (Some t)
  then obtain hs job finished db sp where t: "pl_in_flight l = Some (hs, job, db, sp)"
    and f: "commit_all finished db0 sp0 = Some (db, sp)" "jobs = finished @ (hs, job) # pl_queue l"
    using at by (auto simp: lane_at_def)
  show ?thesis
  proof (cases "job db sp")
    case (Inl m)
    then have "lane_failed db0 sp0 jobs (l'\<lparr>pl_queue := []\<rparr>) (Wallet (''write-behind persist task died (panic/cancel): '' @ m))"
      using run t f at unfolding lane_failed_def lane_at_def await_in_flight_def
      by (intro exI [of _ finished] exI [of _ hs] exI [of _ job] exI [of _ "pl_queue l"] exI [of _ db] exI [of _ sp]) auto
    then show ?thesis using run t f Inl by (auto simp: await_in_flight_def commit_all_append)
  next
    case (Inr x)
    obtain db' sp' q where x: "x = (db', sp', q)" by (metis prod_cases3)
    show ?thesis
    proof (cases q)
      case (Inl m)
      then have "lane_failed db0 sp0 jobs (l'\<lparr>pl_queue := []\<rparr>) (Wallet (''write-behind deferred put_blocks ['' @ nat_str (fst hs) @ ''..='' @
               nat_str (snd hs) @ '']: '' @ m))"
        using run t f Inr x unfolding lane_failed_def await_in_flight_def Let_def
        by (intro exI [of _ finished] exI [of _ hs] exI [of _ job] exI [of _ "pl_queue l"] exI [of _ db] exI [of _ sp]) auto
      then show ?thesis using run t f Inl Inr x by (auto simp: await_in_flight_def Let_def commit_all_append)
    next
      case ok: (Inr busy)
      have "commit_all (finished @ [(hs, job)]) db0 sp0 = Some (db', sp')" using f Inr x ok by (simp add: commit_all_append)
      moreover have "jobs = (finished @ [(hs, job)]) @ pl_queue l" using f by simp
      ultimately have "lane_at db0 sp0 jobs l'" using run t Inr x ok
        unfolding lane_at_def await_in_flight_def Let_def
        by (intro exI [of _ "finished @ [(hs, job)]"] exI [of _ db'] exI [of _ sp']) auto
      then show ?thesis using run t Inr x ok by (auto simp: await_in_flight_def Let_def)
    qed
  qed
qed

declare reap.simps [simp del]

lemma reap_done: "pending_count l \<le> bound \<Longrightarrow> reap waited now bound l = (l, Inr ())"
  by (subst reap.simps) simp

lemma reap_at:
  assumes "lane_at db0 sp0 jobs l" and "reap waited now bound l = (l', r)"
  shows "(r = Inr () \<and> lane_at db0 sp0 jobs l' \<and> pl_depth l' = pl_depth l \<and> pending_count l' \<le> bound) \<or>
    (\<exists>e. r = Inl e \<and> lane_failed db0 sp0 jobs l' e \<and> commit_all jobs db0 sp0 = None)"
  using assms
proof (induction waited now bound l rule: reap.induct)
  case (1 waited now bound l)
  show ?case
  proof (cases "pending_count l \<le> bound")
    case True
    then show ?thesis using 1 by (simp add: reap_done)
  next
    case False
    obtain l1 r1 where aw: "await_in_flight waited now l = (l1, r1)" by force
    from await_at [OF 1(2) aw] show ?thesis
    proof (elim disjE conjE exE)
      assume r1: "r1 = Inr ()" and at1: "lane_at db0 sp0 jobs l1" and d1: "pl_depth l1 = pl_depth l"
      obtain l2 where sp: "spawn_next l1 = (l2, Inr ())" and at2: "lane_at db0 sp0 jobs l2" and d2: "pl_depth l2 = pl_depth l1"
        using spawn_next_at [OF at1] by blast
      have "reap waited now bound l2 = (l', r)"
        using 1(3) False by (subst (asm) reap.simps) (simp add: aw r1 sp)
      from 1(1) [OF False aw [symmetric] r1 sp [symmetric] refl at2 this] show ?thesis using d1 d2 by simp
    next
      fix e assume "r1 = Inl e" "lane_failed db0 sp0 jobs (l1\<lparr>pl_queue := []\<rparr>) e" "commit_all jobs db0 sp0 = None"
      then show ?thesis using 1(3) False by (subst (asm) reap.simps) (auto simp: aw)
    qed
  qed
qed

text \<open>The calls the scan makes on its lane.\<close>

datatype ('d, 's) lane_call = Submit "nat \<times> nat" "('d, 's) persist_job" | Drain

definition lane_step :: "(nat \<times> nat \<Rightarrow> rat) \<Rightarrow> (nat \<times> nat \<Rightarrow> nat) \<Rightarrow> ('d, 's) lane_call \<Rightarrow>
    ('d, 's) persist_lane \<Rightarrow> ('d, 's) persist_lane \<times> (slipstream_error + unit)" where
  "lane_step waited now c l = (case c of Submit hs job \<Rightarrow> submit_job waited now hs job l | Drain \<Rightarrow> drain_lane waited now l)"

fun lane_calls :: "(nat \<times> nat \<Rightarrow> rat) \<Rightarrow> (nat \<times> nat \<Rightarrow> nat) \<Rightarrow> ('d, 's) lane_call list \<Rightarrow>
    ('d, 's) persist_lane \<Rightarrow> ('d, 's) persist_lane \<times> (slipstream_error + unit)" where
  "lane_calls waited now [] l = (l, Inr ())"
| "lane_calls waited now (c # cs) l =
     (case lane_step waited now c l of
        (l1, Inl e) \<Rightarrow> (l1, Inl e)
      | (l1, Inr _) \<Rightarrow> lane_calls waited now cs l1)"

fun jobs_of :: "('d, 's) lane_call list \<Rightarrow> ((nat \<times> nat) \<times> ('d, 's) persist_job) list" where
  "jobs_of [] = []"
| "jobs_of (Submit hs job # cs) = (hs, job) # jobs_of cs"
| "jobs_of (Drain # cs) = jobs_of cs"

lemma lane_failed_more: "lane_failed db0 sp0 jobs l e \<Longrightarrow> lane_failed db0 sp0 (jobs @ later) l e"
  unfolding lane_failed_def by (elim exE) (metis append.assoc append_Cons)

lemma commit_fails_more: "commit_all jobs db0 sp0 = None \<Longrightarrow> commit_all (jobs @ later) db0 sp0 = None"
  by (simp add: commit_all_append)

lemma lane_step_at:
  assumes at: "lane_at db0 sp0 jobs l" and pos: "0 < pl_depth l" and run: "lane_step waited now c l = (l', r)"
  shows "(r = Inr () \<and> lane_at db0 sp0 (jobs @ jobs_of [c]) l' \<and> pl_depth l' = pl_depth l \<and>
        pending_count l' \<le> (case c of Submit _ _ \<Rightarrow> pl_depth l | Drain \<Rightarrow> 0)) \<or>
    (\<exists>e. r = Inl e \<and> lane_failed db0 sp0 (jobs @ jobs_of [c]) l' e \<and> commit_all (jobs @ jobs_of [c]) db0 sp0 = None)"
proof (cases c)
  case (Submit hs job)
  let ?l = "l\<lparr>pl_queue := pl_queue l @ [(hs, job)]\<rparr>"
  have "lane_at db0 sp0 (jobs @ [(hs, job)]) ?l" using at by (auto simp: lane_at_def split: option.splits)
  then obtain l1 where l1: "spawn_next ?l = (l1, Inr ())" "lane_at db0 sp0 (jobs @ [(hs, job)]) l1" "pl_depth l1 = pl_depth l"
    using spawn_next_at by fastforce
  have "reap waited now (pl_depth l1) l1 = (l', r)" using run l1 by (simp add: lane_step_def Submit submit_job_def)
  from reap_at [OF l1(2) this] show ?thesis using Submit l1(3) by auto
next
  case Drain
  then have "reap waited now 0 l = (l', r)" using run by (simp add: lane_step_def drain_lane_def)
  from reap_at [OF at this] show ?thesis using Drain by auto
qed

lemma lane_calls_at:
  assumes "lane_at db0 sp0 jobs l" and "0 < pl_depth l" and "lane_calls waited now cs l = (l', r)"
  shows "(r = Inr () \<and> lane_at db0 sp0 (jobs @ jobs_of cs) l' \<and> pl_depth l' = pl_depth l \<and>
        (cs \<noteq> [] \<longrightarrow> pending_count l' \<le> (case last cs of Submit _ _ \<Rightarrow> pl_depth l | Drain \<Rightarrow> 0))) \<or>
    (\<exists>e. r = Inl e \<and> lane_failed db0 sp0 (jobs @ jobs_of cs) l' e \<and> commit_all (jobs @ jobs_of cs) db0 sp0 = None)"
  using assms
proof (induction cs arbitrary: jobs l)
  case (Cons c cs)
  obtain l1 r1 where one: "lane_step waited now c l = (l1, r1)" by force
  have split_jobs: "jobs_of (c # cs) = jobs_of [c] @ jobs_of cs" by (cases c) simp_all
  from lane_step_at [OF Cons.prems(1,2) one] show ?case
  proof (elim disjE conjE exE)
    assume r1: "r1 = Inr ()" and at1: "lane_at db0 sp0 (jobs @ jobs_of [c]) l1" and d: "pl_depth l1 = pl_depth l"
      and n: "pending_count l1 \<le> (case c of Submit _ _ \<Rightarrow> pl_depth l | Drain \<Rightarrow> 0)"
    have rest: "lane_calls waited now cs l1 = (l', r)" using Cons.prems(3) by (simp add: one r1)
    from Cons.IH [OF at1 _ rest, unfolded d, OF Cons.prems(2)] show ?thesis
      using n rest by (cases "cs = []") (auto simp: split_jobs)
  next
    fix e assume e: "r1 = Inl e" and f: "lane_failed db0 sp0 (jobs @ jobs_of [c]) l1 e"
      and n: "commit_all (jobs @ jobs_of [c]) db0 sp0 = None"
    have "l' = l1" "r = Inl e" using Cons.prems(3) by (simp_all add: one e)
    then show ?thesis using lane_failed_more [OF f, of "jobs_of cs"] commit_fails_more [OF n, of "jobs_of cs"]
      unfolding split_jobs append_assoc by blast
  qed
qed simp

text \<open>
  C7.  The lane commits in order, whatever its depth: the database the lane leaves is the one committing the
  units one after the other gives.  When no commit fails, no call fails; a call that drains leaves
  nothing pending, and in between at most the depth of the lane is pending.  When a commit fails or
  panics, everything before it is committed, nothing after it is, and its error is the one reported.
\<close>

theorem lane_commits_in_order:
  assumes "lane_calls waited now cs (lane_open depth db0 sp0) = (l, r)"
  shows "(commit_all (jobs_of cs) db0 sp0 \<noteq> None \<longrightarrow> r = Inr ()) \<and>
    (r = Inr () \<longrightarrow> lane_at db0 sp0 (jobs_of cs) l \<and> pending_count l \<le> max depth 1 \<and>
       (cs \<noteq> [] \<longrightarrow> last cs = Drain \<longrightarrow>
          (\<exists>db sp. commit_all (jobs_of cs) db0 sp0 = Some (db, sp) \<and> pl_db l = Some db \<and> pl_sparse l = Some sp))) \<and>
    (\<forall>e. r = Inl e \<longrightarrow> lane_failed db0 sp0 (jobs_of cs) l e)"
proof -
  let ?l0 = "lane_open depth db0 sp0"
  have "lane_at db0 sp0 [] ?l0" "0 < pl_depth ?l0" by (auto simp: lane_at_def lane_open_def)
  note L = lane_calls_at [OF this assms]
  have empty: "\<exists>db sp. commit_all (jobs_of cs) db0 sp0 = Some (db, sp) \<and> pl_db l = Some db \<and> pl_sparse l = Some sp"
    if "lane_at db0 sp0 (jobs_of cs) l" "pending_count l = 0"
    using that by (auto simp: lane_at_def pending_count_def split: option.splits)
  have "pending_count l \<le> max depth 1" if "r = Inr ()"
    using L that assms by (cases "cs = []") (auto simp: lane_open_def pending_count_def split: lane_call.splits)
  then show ?thesis using L empty by (auto simp: lane_open_def)
qed

theorem lane_commits_in_order_witness:
  "\<exists>l. lane_calls (\<lambda>_. 1) fst [Submit (1, 5) (\<lambda>d s. Inr (d @ [1], s, Inr 2)), Submit (6, 9) (\<lambda>d s. Inr (d @ [2], s, Inr 2)), Drain]
     (lane_open 3 ([] :: nat list) ()) = (l, Inr ()) \<and> pl_db l = Some [1, 2]"
proof -
  let ?cs = "[Submit (1, 5) (\<lambda>d s. Inr (d @ [1], s, Inr 2)), Submit (6, 9) (\<lambda>d s. Inr (d @ [2], s, Inr 2)), Drain] :: (nat list, unit) lane_call list"
  obtain l r where run: "lane_calls (\<lambda>_. 1) fst ?cs (lane_open 3 [] ()) = (l, r)" by force
  from lane_commits_in_order [OF this] have "r = Inr ()" "pl_db l = Some [1, 2]" by auto
  then show ?thesis using run by blast
qed

text \<open>The lane holds the writer gate exactly while a commit is in flight.\<close>

definition gate_ok :: "nat \<Rightarrow> ('d, 's) persist_lane \<Rightarrow> bool" where
  "gate_ok w l \<longleftrightarrow> (\<exists>p. pl_progress l = Some p \<and> wallet_writers p = w + (if pl_in_flight l = None then 0 else 1))"

lemma spawn_next_gate: "w < u64_max \<Longrightarrow> gate_ok w l \<Longrightarrow> gate_ok w (fst (spawn_next l))"
  by (auto simp: spawn_next_def gate_ok_def gate_hold_def wrapping_add64_small Let_def
      split: list.splits option.splits prod.splits)

lemma await_gate: "w < u64_max \<Longrightarrow> gate_ok w l \<Longrightarrow> gate_ok w (fst (await_in_flight waited now l))"
  by (auto simp: await_in_flight_def gate_ok_def gate_drop_def touch_def wrapping_sub64_Suc Let_def
      split: option.splits sum.splits prod.splits)

lemma gate_ok_queue [simp]: "gate_ok w (l\<lparr>pl_queue := q\<rparr>) = gate_ok w l"
  by (simp add: gate_ok_def)

lemma reap_gate: "w < u64_max \<Longrightarrow> gate_ok w l \<Longrightarrow> gate_ok w (fst (reap waited now bound l))"
proof (induction waited now bound l rule: reap.induct)
  case (1 waited now bound l)
  show ?case
  proof (cases "pending_count l \<le> bound")
    case True
    then show ?thesis using 1 by (simp add: reap_done)
  next
    case False
    obtain l1 r1 where aw: "await_in_flight waited now l = (l1, r1)" by force
    then have g1: "gate_ok w l1" using await_gate 1(2,3) by (metis fst_conv)
    obtain l2 r2 where sp: "spawn_next l1 = (l2, r2)" by force
    then have g2: "gate_ok w l2" using spawn_next_gate 1(2) g1 by (metis fst_conv)
    show ?thesis
    proof (cases "\<exists>u v. r1 = Inr u \<and> r2 = Inr v")
      case True
      then have r: "r1 = Inr ()" "r2 = Inr ()" by simp_all
      show ?thesis using 1(1) [OF False aw [symmetric] r(1) sp [symmetric] r(2) 1(2) g2] False
        by (subst reap.simps) (simp add: aw sp r)
    next
      case bad: False
      then show ?thesis using False g1 g2 by (subst reap.simps) (auto simp: aw sp split: sum.splits)
    qed
  qed
qed

text \<open>
  A commit is never in flight without the writer gate being held, and the gate is held for nothing
  else: what a stop reads from the gate, whether a wallet commit of this lane is still running, is so.
\<close>

theorem lane_holds_gate_exactly:
  assumes "wallet_writers p < u64_max"
    and "lane_calls waited now cs (attach_writer_gate p (lane_open depth db0 sp0)) = (l, r)"
  shows "\<exists>q. pl_progress l = Some q \<and> wallet_writers q = wallet_writers p + (if pl_in_flight l = None then 0 else 1)"
proof -
  have step: "gate_ok (wallet_writers p) (fst (lane_step waited now c l))" if "gate_ok (wallet_writers p) l"
    for c and l :: "('a, 'b) persist_lane"
  proof (cases c)
    case (Submit hs job)
    let ?l = "l\<lparr>pl_queue := pl_queue l @ [(hs, job)]\<rparr>"
    obtain l1 r1 where sp: "spawn_next ?l = (l1, r1)" by force
    have "gate_ok (wallet_writers p) l1" using spawn_next_gate [OF assms(1), of ?l] that sp by simp
    then show ?thesis using reap_gate [OF assms(1)] sp
      by (auto simp: lane_step_def Submit submit_job_def split: sum.splits)
  qed (use that reap_gate [OF assms(1)] in \<open>simp add: lane_step_def drain_lane_def\<close>)
  have "gate_ok (wallet_writers p) l'" if "lane_calls waited now cs l0 = (l', r')" "gate_ok (wallet_writers p) l0" for l0 l' r'
    using that
  proof (induction cs arbitrary: l0)
    case (Cons c cs)
    obtain l1 r1 where one: "lane_step waited now c l0 = (l1, r1)" by force
    then have "gate_ok (wallet_writers p) l1" using step Cons.prems(2) by (metis fst_conv)
    then show ?case using Cons one by (auto split: sum.splits)
  qed simp
  from this [OF assms(2)] show ?thesis by (simp add: gate_ok_def attach_writer_gate_def lane_open_def)
qed

section \<open>The facade\<close>

text \<open>
  What the scanner hands over of a block: its height, its metadata, and per transaction the nullifiers
  and outpoints it spends and the outputs it pays to the wallet's accounts.
\<close>

record ('acc, 'sn, 'on, 'op) scanned_tx =
  tx_sapling_spends :: "'sn list"
  tx_sapling_outputs :: "('acc \<times> 'sn option) list"
  tx_orchard_spends :: "'on list"
  tx_orchard_outputs :: "('acc \<times> 'on option) list"
  tx_ironwood_spends :: "'on list"
  tx_ironwood_outputs :: "('acc \<times> 'on option) list"
  tx_transparent_spends :: "'op list"
  tx_transparent_outputs :: "('op \<times> 'acc option) list"

record ('acc, 'sn, 'on, 'op, 'm) scanned_block =
  sb_height :: nat
  sb_metadata :: 'm
  sb_txs :: "('acc, 'sn, 'on, 'op) scanned_tx list"

record ('acc, 'sn, 'on, 'op, 'm, 'c) pending_persist =
  pp_from_state :: 'c
  pp_blocks :: "('acc, 'sn, 'on, 'op, 'm) scanned_block list"
  pp_first_height :: nat
  pp_last_height :: nat

datatype sqlite_error = CorruptedData string | OtherSqlite string

datatype nullifier_query = Unspent | AllNotes

definition apply_nullifier_delta :: "('a \<times> 'n) list \<Rightarrow> 'n list \<Rightarrow> ('a \<times> 'n) list \<Rightarrow> ('a \<times> 'n) list" where
  "apply_nullifier_delta nfs spent found = filter (\<lambda>(_, nf). nf \<notin> set spent) nfs @ found"

definition apply_outpoint_delta :: "('k \<rightharpoonup> 'a) \<Rightarrow> 'k list \<Rightarrow> ('k \<times> 'a) list \<Rightarrow> ('k \<rightharpoonup> 'a)" where
  "apply_outpoint_delta m spent found = fold (\<lambda>(k, a) m. m(k \<mapsto> a)) found (fold (\<lambda>k m. m(k := None)) spent m)"

definition unvirtualized :: "string \<Rightarrow> sqlite_error" where
  "unvirtualized name = CorruptedData (''write-behind facade: `'' @ name @
     ''` is not part of the scan_cached_blocks read surface (T6.9 recon) '' @ [CHR 0xE2, CHR 0x80, CHR 0x94] @
     '' refusing to serve a possibly-stale read while a commit is pending'')"

record ('acc, 'sn, 'on, 'op, 'm, 'c, 'k, 'r) write_behind_facade =
  wf_ufvks :: 'k
  wf_prior_height :: nat
  wf_prior_meta :: "'m option"
  wf_sapling :: "('acc \<times> 'sn) list"
  wf_orchard :: "('acc \<times> 'on) list"
  wf_ironwood :: "('acc \<times> 'on) list"
  wf_outpoints :: "'op \<rightharpoonup> 'acc"
  wf_receivers :: 'r
  wf_stash :: "('acc, 'sn, 'on, 'op, 'm, 'c) pending_persist option"

text \<open>The reads of the wallet database the facade stands in for.\<close>

record ('d, 'acc, 'sn, 'on, 'op, 'm, 'k, 'r) db_reads =
  rd_ufvks :: "'d \<Rightarrow> sqlite_error + 'k"
  rd_metadata :: "nat \<Rightarrow> 'd \<Rightarrow> sqlite_error + 'm option"
  rd_sapling :: "'d \<Rightarrow> sqlite_error + ('acc \<times> 'sn) list"
  rd_orchard :: "'d \<Rightarrow> sqlite_error + ('acc \<times> 'on) list"
  rd_ironwood :: "'d \<Rightarrow> sqlite_error + ('acc \<times> 'on) list"
  rd_outpoints :: "'d \<Rightarrow> sqlite_error + ('op \<rightharpoonup> 'acc)"
  rd_receivers :: "'d \<Rightarrow> sqlite_error + 'r"

definition bind_sum :: "'e + 'a \<Rightarrow> ('a \<Rightarrow> 'e + 'b) \<Rightarrow> 'e + 'b" where
  "bind_sum x f = (case x of Inl e \<Rightarrow> Inl e | Inr a \<Rightarrow> f a)"

definition facade_seed :: "('d, 'acc, 'sn, 'on, 'op, 'm, 'k, 'r) db_reads \<Rightarrow> 'd \<Rightarrow> nat \<Rightarrow>
    sqlite_error + ('acc, 'sn, 'on, 'op, 'm, 'c, 'k, 'r) write_behind_facade" where
  "facade_seed rd db range_start =
     (if range_start = 0 \<or> range_start - 1 > u32_max
      then Inl (CorruptedData (''write-behind facade: invalid range_start '' @ nat_str range_start))
      else bind_sum (rd_ufvks rd db) (\<lambda>ufvks.
           bind_sum (rd_metadata rd (range_start - 1) db) (\<lambda>meta.
           bind_sum (rd_sapling rd db) (\<lambda>sapling.
           bind_sum (rd_orchard rd db) (\<lambda>orchard.
           bind_sum (rd_ironwood rd db) (\<lambda>ironwood.
           bind_sum (rd_outpoints rd db) (\<lambda>outpoints.
           bind_sum (rd_receivers rd db) (\<lambda>receivers.
             Inr \<lparr>wf_ufvks = ufvks, wf_prior_height = range_start - 1, wf_prior_meta = meta, wf_sapling = sapling,
                  wf_orchard = orchard, wf_ironwood = ironwood, wf_outpoints = outpoints, wf_receivers = receivers,
                  wf_stash = None\<rparr>))))))))"

text \<open>A re-read that fails half way leaves the views read so far.\<close>

definition reseed_nullifiers :: "('d, 'acc, 'sn, 'on, 'op, 'm, 'k, 'r) db_reads \<Rightarrow> 'd \<Rightarrow>
    ('acc, 'sn, 'on, 'op, 'm, 'c, 'k, 'r) write_behind_facade \<Rightarrow>
    ('acc, 'sn, 'on, 'op, 'm, 'c, 'k, 'r) write_behind_facade \<times> (sqlite_error + unit)" where
  "reseed_nullifiers rd db f =
     (if wf_stash f \<noteq> None
      then (f, Inl (CorruptedData ''write-behind facade: reseed_nullifiers with an occupied stash''))
      else case rd_sapling rd db of
             Inl e \<Rightarrow> (f, Inl e)
           | Inr sapling \<Rightarrow> (let f1 = f\<lparr>wf_sapling := sapling\<rparr> in
           case rd_orchard rd db of
             Inl e \<Rightarrow> (f1, Inl e)
           | Inr orchard \<Rightarrow> (let f2 = f1\<lparr>wf_orchard := orchard\<rparr> in
           case rd_ironwood rd db of
             Inl e \<Rightarrow> (f2, Inl e)
           | Inr ironwood \<Rightarrow> (let f3 = f2\<lparr>wf_ironwood := ironwood\<rparr> in
           case rd_outpoints rd db of
             Inl e \<Rightarrow> (f3, Inl e)
           | Inr outpoints \<Rightarrow> (let f4 = f3\<lparr>wf_outpoints := outpoints\<rparr> in
           case rd_receivers rd db of
             Inl e \<Rightarrow> (f4, Inl e)
           | Inr receivers \<Rightarrow> (f4\<lparr>wf_receivers := receivers\<rparr>, Inr ()))))))"

definition take_stash :: "('acc, 'sn, 'on, 'op, 'm, 'c, 'k, 'r) write_behind_facade \<Rightarrow>
    ('acc, 'sn, 'on, 'op, 'm, 'c, 'k, 'r) write_behind_facade \<times> ('acc, 'sn, 'on, 'op, 'm, 'c) pending_persist option" where
  "take_stash f = (f\<lparr>wf_stash := None\<rparr>, wf_stash f)"

text \<open>The reads of the scanner.\<close>

definition facade_metadata :: "('acc, 'sn, 'on, 'op, 'm, 'c, 'k, 'r) write_behind_facade \<Rightarrow> nat \<Rightarrow> sqlite_error + 'm option" where
  "facade_metadata f h =
     (if h = wf_prior_height f then Inr (wf_prior_meta f)
      else Inl (CorruptedData (''write-behind facade: block_metadata('' @ nat_str h @
             '') outside the virtualized tail (expected '' @ nat_str (wf_prior_height f) @ '')'')))"

definition facade_sapling :: "('acc, 'sn, 'on, 'op, 'm, 'c, 'k, 'r) write_behind_facade \<Rightarrow> nullifier_query \<Rightarrow>
    sqlite_error + ('acc \<times> 'sn) list" where
  "facade_sapling f q = (case q of Unspent \<Rightarrow> Inr (wf_sapling f) | AllNotes \<Rightarrow> Inl (unvirtualized ''get_sapling_nullifiers(All)''))"

definition facade_orchard :: "('acc, 'sn, 'on, 'op, 'm, 'c, 'k, 'r) write_behind_facade \<Rightarrow> nullifier_query \<Rightarrow>
    sqlite_error + ('acc \<times> 'on) list" where
  "facade_orchard f q = (case q of Unspent \<Rightarrow> Inr (wf_orchard f) | AllNotes \<Rightarrow> Inl (unvirtualized ''get_orchard_nullifiers(All)''))"

definition facade_ironwood :: "('acc, 'sn, 'on, 'op, 'm, 'c, 'k, 'r) write_behind_facade \<Rightarrow> nullifier_query \<Rightarrow>
    sqlite_error + ('acc \<times> 'on) list" where
  "facade_ironwood f q = (case q of Unspent \<Rightarrow> Inr (wf_ironwood f) | AllNotes \<Rightarrow> Inl (unvirtualized ''get_ironwood_nullifiers(All)''))"

text \<open>Taking in the blocks of a unit, one block after the other.\<close>

definition known_nfs :: "('acc \<times> 'n option) list \<Rightarrow> ('acc \<times> 'n) list" where
  "known_nfs outs = List.map_filter (\<lambda>(a, nf). map_option (Pair a) nf) outs"

definition known_accounts :: "('op \<times> 'acc option) list \<Rightarrow> ('op \<times> 'acc) list" where
  "known_accounts outs = List.map_filter (\<lambda>(k, a). map_option (Pair k) a) outs"

definition advance_block :: "('acc, 'sn, 'on, 'op, 'm) scanned_block \<Rightarrow>
    ('acc, 'sn, 'on, 'op, 'm, 'c, 'k, 'r) write_behind_facade \<Rightarrow> ('acc, 'sn, 'on, 'op, 'm, 'c, 'k, 'r) write_behind_facade" where
  "advance_block b f =
     (let txs = sb_txs b
      in f\<lparr>wf_sapling := apply_nullifier_delta (wf_sapling f) (concat (map tx_sapling_spends txs))
             (concat (map (\<lambda>tx. known_nfs (tx_sapling_outputs tx)) txs)),
           wf_orchard := apply_nullifier_delta (wf_orchard f) (concat (map tx_orchard_spends txs))
             (concat (map (\<lambda>tx. known_nfs (tx_orchard_outputs tx)) txs)),
           wf_ironwood := apply_nullifier_delta (wf_ironwood f) (concat (map tx_ironwood_spends txs))
             (concat (map (\<lambda>tx. known_nfs (tx_ironwood_outputs tx)) txs)),
           wf_outpoints := apply_outpoint_delta (wf_outpoints f) (concat (map tx_transparent_spends txs))
             (concat (map (\<lambda>tx. known_accounts (tx_transparent_outputs tx)) txs))\<rparr>)"

definition facade_put_blocks :: "'c \<Rightarrow> ('acc, 'sn, 'on, 'op, 'm) scanned_block list \<Rightarrow>
    ('acc, 'sn, 'on, 'op, 'm, 'c, 'k, 'r) write_behind_facade \<Rightarrow>
    ('acc, 'sn, 'on, 'op, 'm, 'c, 'k, 'r) write_behind_facade \<times> (sqlite_error + unit)" where
  "facade_put_blocks from_state blocks f =
     (if wf_stash f \<noteq> None
      then (f, Inl (CorruptedData (''write-behind facade: put_blocks with an occupied stash '' @
              [CHR 0xE2, CHR 0x80, CHR 0x94] @ '' depth-1 invariant violated'')))
      else if blocks = [] then (f, Inr ())
      else (let f1 = f\<lparr>wf_prior_height := sb_height (last blocks), wf_prior_meta := Some (sb_metadata (last blocks))\<rparr>;
                f2 = fold advance_block blocks f1
            in (f2\<lparr>wf_stash := Some \<lparr>pp_from_state = from_state, pp_blocks = blocks,
                     pp_first_height = sb_height (hd blocks), pp_last_height = sb_height (last blocks)\<rparr>\<rparr>, Inr ())))"

text \<open>A pending unit goes to the lane; \<open>commit\<close> is the put of the sparse path.\<close>

definition submit :: "('c \<Rightarrow> ('acc, 'sn, 'on, 'op, 'm) scanned_block list \<Rightarrow> ('d, 's) persist_job) \<Rightarrow>
    (nat \<times> nat \<Rightarrow> rat) \<Rightarrow> (nat \<times> nat \<Rightarrow> nat) \<Rightarrow> ('acc, 'sn, 'on, 'op, 'm, 'c) pending_persist \<Rightarrow>
    ('d, 's) persist_lane \<Rightarrow> ('d, 's) persist_lane \<times> (slipstream_error + unit)" where
  "submit commit waited now p l =
     submit_job waited now (pp_first_height p, pp_last_height p) (commit (pp_from_state p) (pp_blocks p)) l"

section \<open>The facade reads what the database will hold\<close>

text \<open>
  What of the nullifiers \<open>N\<close> known before and those found in the blocks is unspent after the blocks: a
  spend counts against what was known before its block.
\<close>

definition unspent_after :: "('b \<Rightarrow> 'n list) \<Rightarrow> ('b \<Rightarrow> ('a \<times> 'n) list) \<Rightarrow> 'b list \<Rightarrow> ('a \<times> 'n) set \<Rightarrow> ('a \<times> 'n) set" where
  "unspent_after spent found bs N =
     {x \<in> N. \<forall>b \<in> set bs. snd x \<notin> set (spent b)} \<union>
     {x. \<exists>i < length bs. x \<in> set (found (bs ! i)) \<and> (\<forall>j < length bs. i < j \<longrightarrow> snd x \<notin> set (spent (bs ! j)))}"

lemma unspent_after_snoc:
  "unspent_after spent found (bs @ [b]) N = {x \<in> unspent_after spent found bs N. snd x \<notin> set (spent b)} \<union> set (found b)"
  (is "?L = ?R")
proof
  show "?L \<subseteq> ?R"
  proof
    fix x assume "x \<in> ?L"
    then show "x \<in> ?R"
      by (auto simp: unspent_after_def nth_append less_Suc_eq split: if_splits)
  qed
  show "?R \<subseteq> ?L"
  proof
    fix x assume "x \<in> ?R"
    then consider "x \<in> N" "\<forall>c \<in> set bs. snd x \<notin> set (spent c)" "snd x \<notin> set (spent b)"
      | i where "i < length bs" "x \<in> set (found (bs ! i))" "\<forall>j < length bs. i < j \<longrightarrow> snd x \<notin> set (spent (bs ! j))"
          "snd x \<notin> set (spent b)"
      | "x \<in> set (found b)"
      by (auto simp: unspent_after_def)
    then show "x \<in> ?L"
    proof cases
      case (2 i)
      then show ?thesis unfolding unspent_after_def
        by (intro UnI2 CollectI exI [of _ i]) (auto simp: nth_append less_Suc_eq)
    next
      case 3
      then show ?thesis unfolding unspent_after_def
        by (intro UnI2 CollectI exI [of _ "length bs"]) (auto simp: nth_append)
    qed (auto simp: unspent_after_def)
  qed
qed

lemma deltas_unspent:
  "set (fold (\<lambda>b nfs. apply_nullifier_delta nfs (spent b) (found b)) bs nfs) = unspent_after spent found bs (set nfs)"
proof (induction bs rule: rev_induct)
  case (snoc b bs)
  then show ?case by (auto simp: unspent_after_snoc apply_nullifier_delta_def)
qed (simp add: unspent_after_def)

abbreviation sapling_spent where "sapling_spent b \<equiv> concat (map tx_sapling_spends (sb_txs b))"
abbreviation sapling_found where "sapling_found b \<equiv> concat (map (\<lambda>tx. known_nfs (tx_sapling_outputs tx)) (sb_txs b))"
abbreviation orchard_spent where "orchard_spent b \<equiv> concat (map tx_orchard_spends (sb_txs b))"
abbreviation orchard_found where "orchard_found b \<equiv> concat (map (\<lambda>tx. known_nfs (tx_orchard_outputs tx)) (sb_txs b))"
abbreviation ironwood_spent where "ironwood_spent b \<equiv> concat (map tx_ironwood_spends (sb_txs b))"
abbreviation ironwood_found where "ironwood_found b \<equiv> concat (map (\<lambda>tx. known_nfs (tx_ironwood_outputs tx)) (sb_txs b))"
abbreviation outpoints_spent where "outpoints_spent b \<equiv> concat (map tx_transparent_spends (sb_txs b))"
abbreviation outpoints_found where "outpoints_found b \<equiv> concat (map (\<lambda>tx. known_accounts (tx_transparent_outputs tx)) (sb_txs b))"

lemma advance_blocks:
  "wf_sapling (fold advance_block bs f) = fold (\<lambda>b n. apply_nullifier_delta n (sapling_spent b) (sapling_found b)) bs (wf_sapling f)"
  "wf_orchard (fold advance_block bs f) = fold (\<lambda>b n. apply_nullifier_delta n (orchard_spent b) (orchard_found b)) bs (wf_orchard f)"
  "wf_ironwood (fold advance_block bs f) = fold (\<lambda>b n. apply_nullifier_delta n (ironwood_spent b) (ironwood_found b)) bs (wf_ironwood f)"
  "wf_outpoints (fold advance_block bs f) = fold (\<lambda>b m. apply_outpoint_delta m (outpoints_spent b) (outpoints_found b)) bs (wf_outpoints f)"
  "wf_ufvks (fold advance_block bs f) = wf_ufvks f" "wf_prior_height (fold advance_block bs f) = wf_prior_height f"
  "wf_prior_meta (fold advance_block bs f) = wf_prior_meta f" "wf_stash (fold advance_block bs f) = wf_stash f"
  by (induction bs arbitrary: f) (simp_all add: advance_block_def Let_def)

text \<open>The facade answers as the database \<open>db\<close> would.  The database lists nullifiers in an order of its own.\<close>

definition reads_match :: "('d, 'acc, 'sn, 'on, 'op, 'm, 'k, 'r) db_reads \<Rightarrow> 'd \<Rightarrow>
    ('acc, 'sn, 'on, 'op, 'm, 'c, 'k, 'r) write_behind_facade \<Rightarrow> bool" where
  "reads_match rd db f \<longleftrightarrow>
     rd_ufvks rd db = Inr (wf_ufvks f) \<and> rd_metadata rd (wf_prior_height f) db = Inr (wf_prior_meta f) \<and>
     (\<exists>n. rd_sapling rd db = Inr n \<and> set n = set (wf_sapling f)) \<and>
     (\<exists>n. rd_orchard rd db = Inr n \<and> set n = set (wf_orchard f)) \<and>
     (\<exists>n. rd_ironwood rd db = Inr n \<and> set n = set (wf_ironwood f)) \<and>
     rd_outpoints rd db = Inr (wf_outpoints f)"

text \<open>
  What the scan relies on of the wallet library: a successful put of blocks leaves the viewing keys as
  they are, records the metadata of the last block, and the unspent notes and outpoints are those that
  the blocks leave unspent.
\<close>

definition put_contract :: "('d, 'acc, 'sn, 'on, 'op, 'm, 'k, 'r) db_reads \<Rightarrow>
    ('c \<Rightarrow> ('acc, 'sn, 'on, 'op, 'm) scanned_block list \<Rightarrow> ('d, 's) persist_job) \<Rightarrow> bool" where
  "put_contract rd commit \<longleftrightarrow>
     (\<forall>c bs db sp db' sp' t. bs \<noteq> [] \<longrightarrow> commit c bs db sp = Inr (db', sp', Inr t) \<longrightarrow>
        rd_ufvks rd db' = rd_ufvks rd db \<and> rd_metadata rd (sb_height (last bs)) db' = Inr (Some (sb_metadata (last bs))) \<and>
        (\<forall>n. rd_sapling rd db = Inr n \<longrightarrow> (\<exists>n'. rd_sapling rd db' = Inr n' \<and> set n' = unspent_after sapling_spent sapling_found bs (set n))) \<and>
        (\<forall>n. rd_orchard rd db = Inr n \<longrightarrow> (\<exists>n'. rd_orchard rd db' = Inr n' \<and> set n' = unspent_after orchard_spent orchard_found bs (set n))) \<and>
        (\<forall>n. rd_ironwood rd db = Inr n \<longrightarrow> (\<exists>n'. rd_ironwood rd db' = Inr n' \<and> set n' = unspent_after ironwood_spent ironwood_found bs (set n))) \<and>
        (\<forall>m. rd_outpoints rd db = Inr m \<longrightarrow>
           rd_outpoints rd db' = Inr (fold (\<lambda>b m. apply_outpoint_delta m (outpoints_spent b) (outpoints_found b)) bs m)))"

lemma put_blocks_match:
  assumes "put_contract rd commit" and "reads_match rd db f" and "facade_put_blocks c bs f = (f', Inr ())" and "bs \<noteq> []"
    and "commit c bs db sp = Inr (db', sp', Inr t)"
  shows "reads_match rd db' (f'\<lparr>wf_stash := s\<rparr>)"
proof -
  let ?f1 = "f\<lparr>wf_prior_height := sb_height (last bs), wf_prior_meta := Some (sb_metadata (last bs))\<rparr>"
  have f': "wf_sapling f' = wf_sapling (fold advance_block bs ?f1)" "wf_orchard f' = wf_orchard (fold advance_block bs ?f1)"
    "wf_ironwood f' = wf_ironwood (fold advance_block bs ?f1)" "wf_outpoints f' = wf_outpoints (fold advance_block bs ?f1)"
    "wf_ufvks f' = wf_ufvks (fold advance_block bs ?f1)" "wf_prior_height f' = wf_prior_height (fold advance_block bs ?f1)"
    "wf_prior_meta f' = wf_prior_meta (fold advance_block bs ?f1)"
    using assms(3,4) by (auto simp: facade_put_blocks_def Let_def split: if_splits)
  note C = assms(1) [unfolded put_contract_def, rule_format, OF assms(4,5)]
  show ?thesis
    using assms(2) C unfolding reads_match_def by (auto simp: f' advance_blocks deltas_unspent)
qed

text \<open>
  The scan with write-behind: every unit is stashed by the facade, taken from it and submitted.  The
  facade's error becomes one of the scanner.
\<close>

definition wb_unit :: "('c \<Rightarrow> ('acc, 'sn, 'on, 'op, 'm) scanned_block list \<Rightarrow> ('d, 's) persist_job) \<Rightarrow>
    (nat \<times> nat \<Rightarrow> rat) \<Rightarrow> (nat \<times> nat \<Rightarrow> nat) \<Rightarrow> 'c \<times> ('acc, 'sn, 'on, 'op, 'm) scanned_block list \<Rightarrow>
    ('acc, 'sn, 'on, 'op, 'm, 'c, 'k, 'r) write_behind_facade \<times> ('d, 's) persist_lane \<Rightarrow>
    (('acc, 'sn, 'on, 'op, 'm, 'c, 'k, 'r) write_behind_facade \<times> ('d, 's) persist_lane) \<times> bool" where
  "wb_unit commit waited now u s =
     (case facade_put_blocks (fst u) (snd u) (fst s) of
        (f1, Inl _) \<Rightarrow> ((f1, snd s), False)
      | (f1, Inr _) \<Rightarrow>
          (case take_stash f1 of
             (f2, None) \<Rightarrow> ((f2, snd s), True)
           | (f2, Some p) \<Rightarrow> (let (l1, r) = submit commit waited now p (snd s) in ((f2, l1), r = Inr ()))))"

fun wb_units :: "('c \<Rightarrow> ('acc, 'sn, 'on, 'op, 'm) scanned_block list \<Rightarrow> ('d, 's) persist_job) \<Rightarrow>
    (nat \<times> nat \<Rightarrow> rat) \<Rightarrow> (nat \<times> nat \<Rightarrow> nat) \<Rightarrow> ('c \<times> ('acc, 'sn, 'on, 'op, 'm) scanned_block list) list \<Rightarrow>
    ('acc, 'sn, 'on, 'op, 'm, 'c, 'k, 'r) write_behind_facade \<times> ('d, 's) persist_lane \<Rightarrow>
    (('acc, 'sn, 'on, 'op, 'm, 'c, 'k, 'r) write_behind_facade \<times> ('d, 's) persist_lane) \<times> bool" where
  "wb_units commit waited now [] s = (s, True)"
| "wb_units commit waited now (u # us) s =
     (case wb_unit commit waited now u s of
        (s1, False) \<Rightarrow> (s1, False)
      | (s1, True) \<Rightarrow> wb_units commit waited now us s1)"

text \<open>With every unit committed, in order, the database answers as the facade does.\<close>

definition facade_at :: "('d, 'acc, 'sn, 'on, 'op, 'm, 'k, 'r) db_reads \<Rightarrow> 'd \<Rightarrow> 's \<Rightarrow>
    ((nat \<times> nat) \<times> ('d, 's) persist_job) list \<Rightarrow> ('acc, 'sn, 'on, 'op, 'm, 'c, 'k, 'r) write_behind_facade \<Rightarrow> bool" where
  "facade_at rd db0 sp0 jobs f \<longleftrightarrow> wf_stash f = None \<and> (\<forall>db sp. commit_all jobs db0 sp0 = Some (db, sp) \<longrightarrow> reads_match rd db f)"

lemma wb_unit_at:
  assumes ct: "put_contract rd commit" and run: "wb_unit commit waited now u (f, l) = ((f', l'), True)"
    and lane: "lane_at db0 sp0 jobs l" "0 < pl_depth l" and fac: "facade_at rd db0 sp0 jobs f"
  shows "\<exists>jobs'. lane_at db0 sp0 jobs' l' \<and> pl_depth l' = pl_depth l \<and> facade_at rd db0 sp0 jobs' f'"
proof -
  obtain c bs where u: "u = (c, bs)" by force
  obtain f1 r1 where put: "facade_put_blocks c bs f = (f1, r1)" by force
  have r1: "r1 = Inr ()" using run by (cases r1) (auto simp: wb_unit_def u put)
  show ?thesis
  proof (cases "bs = []")
    case True
    then have "f1 = f" "wf_stash f = None" using put r1 fac by (auto simp: facade_put_blocks_def facade_at_def)
    moreover from this have "f' = f" "l' = l" using run by (auto simp: wb_unit_def u put r1 take_stash_def)
    ultimately show ?thesis using lane fac by blast
  next
    case False
    let ?p = "\<lparr>pp_from_state = c, pp_blocks = bs, pp_first_height = sb_height (hd bs), pp_last_height = sb_height (last bs)\<rparr>"
    let ?hs = "(sb_height (hd bs), sb_height (last bs))"
    have st: "wf_stash f1 = Some ?p" using put r1 False by (auto simp: facade_put_blocks_def Let_def split: if_splits)
    obtain r2 where sub: "submit commit waited now ?p l = (l', r2)" and f': "f' = f1\<lparr>wf_stash := None\<rparr>" and r2: "r2 = Inr ()"
      using run by (auto simp: wb_unit_def u put r1 take_stash_def st split: prod.splits)
    have "lane_step waited now (Submit ?hs (commit c bs)) l = (l', Inr ())"
      using sub r2 by (simp add: lane_step_def submit_def)
    from lane_step_at [OF lane this] have at': "lane_at db0 sp0 (jobs @ [(?hs, commit c bs)]) l'" "pl_depth l' = pl_depth l" by auto
    have "reads_match rd db f'" if all: "commit_all (jobs @ [(?hs, commit c bs)]) db0 sp0 = Some (db, sp)" for db sp
    proof -
      obtain db1 sp1 t where "commit_all jobs db0 sp0 = Some (db1, sp1)" and one: "commit c bs db1 sp1 = Inr (db, sp, Inr t)"
        using all by (auto simp: commit_all_append split: option.splits sum.splits prod.splits)
      then have "reads_match rd db1 f" using fac by (simp add: facade_at_def)
      from put_blocks_match [OF ct this _ False one] show ?thesis using put r1 f' by blast
    qed
    then show ?thesis using at' f' unfolding facade_at_def by auto
  qed
qed

lemma wb_units_at:
  assumes "put_contract rd commit" and "wb_units commit waited now us (f, l) = ((f', l'), True)"
    and "lane_at db0 sp0 jobs l" "0 < pl_depth l" and "facade_at rd db0 sp0 jobs f"
  shows "\<exists>jobs'. lane_at db0 sp0 jobs' l' \<and> facade_at rd db0 sp0 jobs' f'"
  using assms(2-)
proof (induction us arbitrary: f l jobs)
  case Nil
  then show ?case by auto
next
  case (Cons u us)
  obtain f1 l1 b where one: "wb_unit commit waited now u (f, l) = ((f1, l1), b)" by (metis surj_pair)
  have b: "b = True" using Cons.prems(1) by (cases b) (auto simp: one)
  obtain jobs1 where "lane_at db0 sp0 jobs1 l1" "pl_depth l1 = pl_depth l" "facade_at rd db0 sp0 jobs1 f1"
    using wb_unit_at [OF assms(1) one [unfolded b] Cons.prems(2-4)] by blast
  moreover have "wb_units commit waited now us (f1, l1) = ((f', l'), True)" using Cons.prems(1) by (simp add: one b)
  ultimately show ?case using Cons.IH Cons.prems(3) by metis
qed


text \<open>A database that keeps just what is read.\<close>

type_synonym demo_db = "(nat \<rightharpoonup> nat) \<times> (nat \<times> nat) list \<times> (nat \<times> nat) list \<times> (nat \<times> nat) list \<times> (nat \<rightharpoonup> nat)"

definition demo_reads :: "(demo_db, nat, nat, nat, nat, nat, unit, unit) db_reads" where
  "demo_reads =
     \<lparr>rd_ufvks = \<lambda>db. Inr (), rd_metadata = \<lambda>h (mt, _). Inr (mt h), rd_sapling = \<lambda>(_, s, _). Inr s, rd_orchard = \<lambda>(_, _, o', _). Inr o',
      rd_ironwood = \<lambda>(_, _, _, i, _). Inr i, rd_outpoints = \<lambda>(_, _, _, _, m). Inr m, rd_receivers = \<lambda>db. Inr ()\<rparr>"

definition demo_commit :: "unit \<Rightarrow> (nat, nat, nat, nat, nat) scanned_block list \<Rightarrow> (demo_db, unit) persist_job" where
  "demo_commit c bs db sp = (case db of (mt, s, o', i, m) \<Rightarrow>
     Inr ((mt(sb_height (last bs) \<mapsto> sb_metadata (last bs)),
           fold (\<lambda>b n. apply_nullifier_delta n (sapling_spent b) (sapling_found b)) bs s,
           fold (\<lambda>b n. apply_nullifier_delta n (orchard_spent b) (orchard_found b)) bs o',
           fold (\<lambda>b n. apply_nullifier_delta n (ironwood_spent b) (ironwood_found b)) bs i,
           fold (\<lambda>b m. apply_outpoint_delta m (outpoints_spent b) (outpoints_found b)) bs m), sp, Inr 1))"

definition demo_scanned :: "nat \<Rightarrow> nat list \<Rightarrow> (nat \<times> nat option) list \<Rightarrow> (nat, nat, nat, nat, nat) scanned_block" where
  "demo_scanned h spends outs =
     \<lparr>sb_height = h, sb_metadata = h + 100,
      sb_txs = [\<lparr>tx_sapling_spends = spends, tx_sapling_outputs = outs, tx_orchard_spends = [], tx_orchard_outputs = [],
                 tx_ironwood_spends = [], tx_ironwood_outputs = [], tx_transparent_spends = [], tx_transparent_outputs = []\<rparr>]\<rparr>"

lemma demo_put_contract: "put_contract demo_reads demo_commit"
  by (auto simp: put_contract_def demo_reads_def demo_commit_def deltas_unspent)


end
