(* ===== verification/Slip_Graft.thy ===== *)
theory Slip_Graft
  imports Slip_Lane "HOL-Library.Product_Lexorder"
begin

text \<open>
  Deferred building of note-commitment shards: the accumulator (\<open>src/core/src/graft_accumulator.rs\<close>)
  that takes the commitments of a range and hands out what is to be built, offered for grafting or
  buffered.  Hashes are another crate's, a type parameter.  Positions are far below \<open>2 ^ 63\<close> (a tree
  has \<open>2 ^ 32\<close> leaves), so sums of positions do not overflow.
\<close>

section \<open>Rows\<close>

datatype marking = NoMark | MarkedMark | ReferenceMark

datatype retention = Ephemeral | Marked | Checkpoint nat marking | Reference

type_synonym 'h acc_row = "nat \<times> 'h \<times> retention"

definition SHARD_BITS :: nat where "SHARD_BITS = 16"

definition shard_of :: "nat \<Rightarrow> nat" where "shard_of position = position div 2 ^ SHARD_BITS"

text \<open>Rows at consecutive positions from \<open>p\<close> on.\<close>

fun run_from :: "nat \<Rightarrow> 'h acc_row list \<Rightarrow> bool" where
  "run_from p [] = True"
| "run_from p ((q, x) # rows) = (q = p \<and> run_from (p + 1) rows)"

lemma run_from_append: "run_from p (xs @ ys) \<longleftrightarrow> run_from p xs \<and> run_from (p + length xs) ys"
  by (induction p xs rule: run_from.induct) auto

lemma run_from_pos: "run_from p rows \<Longrightarrow> map fst rows = [p..<p + length rows]"
  by (induction p rows rule: run_from.induct) (auto simp: upt_conv_Cons simp del: upt_Suc)

lemma run_from_nth: "run_from p rows \<Longrightarrow> i < length rows \<Longrightarrow> fst (rows ! i) = p + i"
  using run_from_pos [of p rows] by (metis nth_map nth_upt length_map nat_add_left_cancel_less)

section \<open>Resuming a run\<close>

text \<open>The loop that walks back while positions are contiguous, from index \<open>i\<close>.\<close>

fun walk_back :: "'h acc_row list \<Rightarrow> nat \<Rightarrow> nat" where
  "walk_back rows 0 = 0"
| "walk_back rows (Suc i) = (if fst (rows ! i) + 1 = fst (rows ! Suc i) then walk_back rows i else Suc i)"

definition resumable_run :: "'h acc_row list \<Rightarrow> nat \<Rightarrow> (nat \<times> 'h) option \<Rightarrow> 'h acc_row list \<times> bool" where
  "resumable_run rows0 start_position frontier_leaf =
     (let total = length rows0;
          rows = takeWhile (\<lambda>(p, _). p < start_position) rows0;
          ends_on_the_frontier =
            (rows \<noteq> [] \<and> (case (last rows, frontier_leaf) of
               ((p, hash, _), Some (leaf_position, leaf)) \<Rightarrow> p + 1 = start_position \<and> p = leaf_position \<and> hash = leaf
             | _ \<Rightarrow> False))
      in if \<not> ends_on_the_frontier then ([], total > 0)
         else (let rows' = drop (walk_back rows (length rows - 1)) rows in (rows', length rows' < total)))"

lemma walk_back_le: "walk_back rows i \<le> i"
  by (induction rows i rule: walk_back.induct) auto

lemma walk_back_contiguous: "walk_back rows i \<le> j \<Longrightarrow> j < i \<Longrightarrow> fst (rows ! j) + 1 = fst (rows ! Suc j)"
  by (induction rows i rule: walk_back.induct) (auto split: if_splits simp: less_Suc_eq)

lemma walk_back_stops: "walk_back rows i = Suc k \<Longrightarrow> fst (rows ! k) + 1 \<noteq> fst (rows ! Suc k)"
  by (induction rows i rule: walk_back.induct) (auto split: if_splits)

lemma contiguous_run:
  assumes "\<And>j. Suc j < length rows \<Longrightarrow> fst (rows ! j) + 1 = fst (rows ! Suc j)" and "rows \<noteq> []"
  shows "run_from (fst (hd rows)) rows"
  using assms
proof (induction rows)
  case (Cons r rows)
  show ?case
  proof (cases rows)
    case Nil
    then show ?thesis by (cases r) simp
  next
    case (Cons r' rest)
    have "run_from (fst (hd rows)) rows" using Cons.IH Cons.prems(1) [of "Suc _"] Cons by auto
    moreover have "fst (hd rows) = fst r + 1" using Cons.prems(1) [of 0] Cons by simp
    ultimately show ?thesis by (cases r) simp
  qed
qed simp

text \<open>
  What a range takes over is one contiguous run that ends right before its start, on the leaf of its
  own frontier, and the longest such run: the row below it, if any, is not adjacent.
\<close>

lemma resumable_run_run:
  assumes "resumable_run rows start leaf = (run, left)" and "run \<noteq> []"
  shows "run_from (fst (hd run)) run \<and> fst (last run) + 1 = start \<and> leaf = Some (fst (last run), fst (snd (last run))) \<and>
    (\<exists>below above. rows = below @ run @ above \<and> (\<forall>r \<in> set (below @ run). fst r < start) \<and>
       (above \<noteq> [] \<longrightarrow> start \<le> fst (hd above)) \<and> (below \<noteq> [] \<longrightarrow> fst (last below) + 1 \<noteq> fst (hd run))) \<and>
    left = (length run < length rows)"
proof -
  let ?w = "takeWhile (\<lambda>(p, _). p < start) rows"
  let ?k = "walk_back ?w (length ?w - 1)"
  obtain p h r where last: "?w \<noteq> []" "last ?w = (p, h, r)" "leaf = Some (p, h)" "p + 1 = start"
    and run: "run = drop ?k ?w" and left: "left = (length run < length rows)"
    using assms by (auto simp: resumable_run_def Let_def split: if_splits prod.splits option.splits)
  have k: "?k < length ?w" using walk_back_le [of ?w "length ?w - 1"] last(1) by (cases ?w) auto
  have "run_from (fst (hd run)) run"
  proof (rule contiguous_run)
    fix j assume "Suc j < length run"
    then show "fst (run ! j) + 1 = fst (run ! Suc j)"
      using walk_back_contiguous [of ?w "length ?w - 1" "?k + j"] by (simp add: run)
  qed (rule assms(2))
  moreover have lr: "last run = (p, h, r)" using last(2) k run by simp
  moreover have "rows = take ?k ?w @ run @ dropWhile (\<lambda>(p, _). p < start) rows"
    unfolding run by (simp add: append_assoc [symmetric] del: append_assoc)
  moreover have "\<forall>r \<in> set (take ?k ?w @ run). fst r < start"
    unfolding run by (auto dest: set_takeWhileD)
  moreover have "start \<le> fst (hd (dropWhile (\<lambda>(p, _). p < start) rows))" if "dropWhile (\<lambda>(p, _). p < start) rows \<noteq> []"
    using hd_dropWhile [OF that] by (simp add: case_prod_beta)
  moreover have "fst (last (take ?k ?w)) + 1 \<noteq> fst (hd run)" if ne: "take ?k ?w \<noteq> []"
  proof -
    obtain k' where k': "?k = Suc k'" using ne by (cases ?k) auto
    have "last (take ?k ?w) = ?w ! k'" using k k' by (simp add: take_Suc_conv_app_nth)
    moreover have "hd run = ?w ! Suc k'" using k k' by (simp add: run hd_drop_conv_nth)
    ultimately show ?thesis using walk_back_stops [OF k'] by simp
  qed
  ultimately show ?thesis using last(3,4) left lr by (auto simp del: append_assoc intro!: exI)
qed

section \<open>The accumulator\<close>

datatype 'h feed_action =
    Build "'h acc_row list"
  | CloseCleanShard nat "'h acc_row list"
  | Buffer "'h acc_row list"

record 'h open_shard =
  os_index :: nat
  os_rows :: "'h acc_row list"
  os_passthrough :: bool

record 'h shard_accumulator =
  sa_next :: nat
  sa_open :: "'h open_shard option"

definition acc_seed :: "nat \<Rightarrow> 'h acc_row list \<Rightarrow> bool \<Rightarrow> 'h shard_accumulator" where
  "acc_seed start_position resume_rows store_has_internals =
     \<lparr>sa_next = start_position,
      sa_open = Some \<lparr>os_index = shard_of start_position, os_rows = resume_rows, os_passthrough = store_has_internals\<rparr>\<rparr>"

text \<open>Opening the shard a position lies in; a shard left behind is closed.\<close>

definition enter_shard :: "nat \<Rightarrow> 'h open_shard option \<Rightarrow> 'h open_shard \<times> 'h feed_action list" where
  "enter_shard shard opened =
     (case opened of
        None \<Rightarrow> (\<lparr>os_index = shard, os_rows = [], os_passthrough = False\<rparr>, [])
      | Some o' \<Rightarrow>
          if os_index o' = shard then (o', [])
          else (\<lparr>os_index = shard, os_rows = [], os_passthrough = False\<rparr>,
                if \<not> os_passthrough o' then [CloseCleanShard (os_index o') (os_rows o')]
                else if os_rows o' \<noteq> [] then [Build (os_rows o')] else []))"

text \<open>One shard's span of the feed.\<close>

definition take_span :: "'h acc_row list \<Rightarrow> bool \<Rightarrow> 'h open_shard \<Rightarrow> 'h open_shard \<times> 'h feed_action" where
  "take_span rows has_note o' =
     (if os_passthrough o'
      then (if os_rows o' = [] then (o', Build rows) else (o'\<lparr>os_rows := []\<rparr>, Build (os_rows o' @ rows)))
      else if has_note then (o'\<lparr>os_rows := [], os_passthrough := True\<rparr>, Build (os_rows o' @ rows))
      else (o'\<lparr>os_rows := os_rows o' @ rows\<rparr>, Buffer rows))"

definition at_positions :: "nat \<Rightarrow> ('h \<times> retention) list \<Rightarrow> 'h acc_row list" where
  "at_positions pos items = enumerate pos items"

lemma span_pos: "pos < (shard_of pos + 1) * 2 ^ SHARD_BITS"
  using dividend_less_div_times [of "2 ^ SHARD_BITS" pos] by (simp add: shard_of_def)

function feed_spans :: "nat \<Rightarrow> ('h \<times> retention) list \<Rightarrow> nat list \<Rightarrow> 'h open_shard option \<Rightarrow>
    'h open_shard option \<times> 'h feed_action list" where
  "feed_spans pos items note_positions opened =
     (if items = [] then (opened, [])
      else (let shard = shard_of pos;
                (o1, closing) = enter_shard shard opened;
                span_end = min (pos + length items) ((shard + 1) * 2 ^ SHARD_BITS);
                n = span_end - pos;
                has_note = (\<exists>p \<in> set note_positions. pos \<le> p \<and> p < span_end);
                (o2, act) = take_span (at_positions pos (take n items)) has_note o1;
                (o3, acts) = feed_spans span_end (drop n items) note_positions (Some o2)
            in (o3, closing @ act # acts)))"
  by pat_completeness auto

termination
  by (relation "measure (\<lambda>(pos, items, nts, opened). length items)") (use span_pos in \<open>auto simp: less_diff_conv\<close>)

definition acc_feed :: "nat \<Rightarrow> ('h \<times> retention) list \<Rightarrow> nat list \<Rightarrow> 'h shard_accumulator \<Rightarrow>
    'h shard_accumulator \<times> 'h feed_action list" where
  "acc_feed start_position items note_positions acc =
     (let (opened, acts) = feed_spans start_position items note_positions (sa_open acc)
      in (\<lparr>sa_next = start_position + length items, sa_open = opened\<rparr>, acts))"

definition acc_finish :: "'h shard_accumulator \<Rightarrow> 'h shard_accumulator \<times> 'h feed_action option" where
  "acc_finish acc =
     (case sa_open acc of
        None \<Rightarrow> (acc, None)
      | Some o' \<Rightarrow> (acc\<lparr>sa_open := None\<rparr>, if os_rows o' = [] then None else Some (Build (os_rows o'))))"

declare feed_spans.simps [simp del]

section \<open>Every commitment is built or offered for grafting, once\<close>

fun built_rows :: "'h feed_action \<Rightarrow> 'h acc_row list" where
  "built_rows (Build rows) = rows"
| "built_rows (CloseCleanShard i rows) = rows"
| "built_rows (Buffer rows) = []"

fun buffered_rows :: "'h feed_action \<Rightarrow> 'h acc_row list" where
  "buffered_rows (Buffer rows) = rows"
| "buffered_rows _ = []"

definition pending_rows :: "'h open_shard option \<Rightarrow> 'h acc_row list" where
  "pending_rows opened = (case opened of None \<Rightarrow> [] | Some o' \<Rightarrow> os_rows o')"

lemma pending_rows_simps [simp]: "pending_rows None = []" "pending_rows (Some o') = os_rows o'"
  by (simp_all add: pending_rows_def)

lemma at_positions_Nil [simp]: "at_positions pos [] = []"
  by (simp add: at_positions_def)

lemma at_positions_Cons [simp]: "at_positions pos (x # items) = (pos, x) # at_positions (pos + 1) items"
  by (simp add: at_positions_def)

lemma at_positions_append: "at_positions pos (xs @ ys) = at_positions pos xs @ at_positions (pos + length xs) ys"
  by (induction xs arbitrary: pos) simp_all

lemma at_positions_split:
  "at_positions pos items = at_positions pos (take n items) @ at_positions (pos + min n (length items)) (drop n items)"
  using at_positions_append [of pos "take n items" "drop n items"] by (simp add: min.commute)

lemma at_positions_run: "run_from pos (at_positions pos items)" "length (at_positions pos items) = length items"
  by (induction items arbitrary: pos) simp_all

lemma enter_conserves: "enter_shard shard opened = (o1, closing) \<Longrightarrow>
    concat (map built_rows closing) @ os_rows o1 = pending_rows opened \<and> concat (map buffered_rows closing) = []"
  by (auto simp: enter_shard_def pending_rows_def split: option.splits if_splits)

lemma take_conserves: "take_span rows has_note o1 = (o2, act) \<Longrightarrow>
    built_rows act @ os_rows o2 = os_rows o1 @ rows \<and> set (os_rows o2) \<subseteq> set (os_rows o1) \<union> set (buffered_rows act) \<and>
    set (buffered_rows act) \<subseteq> set rows"
  by (auto simp: take_span_def split: if_splits)

text \<open>The span of a shard: not empty, and the feed that is left.\<close>

definition span_len :: "nat \<Rightarrow> nat \<Rightarrow> nat" where
  "span_len pos n = min n ((shard_of pos + 1) * 2 ^ SHARD_BITS - pos)"

lemma span_len_pos: "0 < n \<Longrightarrow> 0 < span_len pos n" "span_len pos n \<le> n"
  using span_pos [of pos] by (auto simp: span_len_def)

lemma feed_spans_Nil [simp]: "feed_spans pos [] nts opened = (opened, [])"
  by (subst feed_spans.simps) simp

lemma feed_spans_more:
  assumes "items \<noteq> []"
  shows "feed_spans pos items nts opened =
    (let n = span_len pos (length items);
         (o1, closing) = enter_shard (shard_of pos) opened;
         (o2, act) = take_span (at_positions pos (take n items)) (\<exists>p \<in> set nts. pos \<le> p \<and> p < pos + n) o1;
         (o3, acts) = feed_spans (pos + n) (drop n items) nts (Some o2)
     in (o3, closing @ act # acts))"
proof -
  have "min (pos + n) B = pos + min n (B - pos)" if "pos < B" for n B :: nat using that by (auto simp: min_def)
  from this [OF span_pos] have e: "min (pos + length items) ((shard_of pos + 1) * 2 ^ SHARD_BITS) = pos + span_len pos (length items)"
    unfolding span_len_def .
  show ?thesis unfolding feed_spans.simps [of pos items nts opened] Let_def e diff_add_inverse if_not_P [OF assms] ..
qed

lemma feed_spans_induct [case_names Nil More]:
  assumes "\<And>pos opened. P pos [] opened"
    and "\<And>pos items opened. items \<noteq> [] \<Longrightarrow>
      (\<And>o2. P (pos + span_len pos (length items)) (drop (span_len pos (length items)) items) (Some o2)) \<Longrightarrow> P pos items opened"
  shows "P pos items opened"
proof (induction "length items" arbitrary: pos items opened rule: less_induct)
  case less
  show ?case
  proof (cases "items = []")
    case False
    show ?thesis
    proof (rule assms(2) [OF False])
      fix o2
      show "P (pos + span_len pos (length items)) (drop (span_len pos (length items)) items) (Some o2)"
        by (rule less) (use False span_len_pos(1) [of "length items" pos] in simp)
    qed
  qed (simp add: assms(1))
qed

lemma feed_conserves:
  "feed_spans pos items nts opened = (o3, acts) \<Longrightarrow>
   concat (map built_rows acts) @ pending_rows o3 = pending_rows opened @ at_positions pos items \<and>
   set (pending_rows o3) \<subseteq> set (pending_rows opened) \<union> set (concat (map buffered_rows acts)) \<and>
   set (concat (map buffered_rows acts)) \<subseteq> set (at_positions pos items)"
proof (induction pos items opened arbitrary: o3 acts rule: feed_spans_induct)
  case (More pos items opened)
  let ?n = "span_len pos (length items)"
  obtain o1 closing where e: "enter_shard (shard_of pos) opened = (o1, closing)" by force
  obtain o2 act where t: "take_span (at_positions pos (take ?n items)) (\<exists>p \<in> set nts. pos \<le> p \<and> p < pos + ?n) o1 = (o2, act)"
    by force
  obtain o4 acts' where f: "feed_spans (pos + ?n) (drop ?n items) nts (Some o2) = (o4, acts')" by force
  have out: "o3 = o4" "acts = closing @ act # acts'"
    using More.prems feed_spans_more [OF More.hyps(1)] by (simp_all add: e t f Let_def)
  have cut: "at_positions pos items = at_positions pos (take ?n items) @ at_positions (pos + ?n) (drop ?n items)"
    using at_positions_split [of pos items ?n] span_len_pos(2) [of pos "length items"] by (simp add: min_def)
  note E = enter_conserves [OF e] and T = take_conserves [OF t] and F = More.IH [OF f]
  have o1: "os_rows o1 @ at_positions pos (take ?n items) = built_rows act @ os_rows o2" using T by simp
  have "concat (map built_rows acts) @ pending_rows o3 = concat (map built_rows closing) @ built_rows act @ os_rows o2 @ at_positions (pos + ?n) (drop ?n items)"
    using F by (simp add: out)
  also have "\<dots> = pending_rows opened @ at_positions pos items"
    using E o1 by (metis append.assoc cut)
  finally have "concat (map built_rows acts) @ pending_rows o3 = pending_rows opened @ at_positions pos items" .
  moreover have "set (os_rows o1) \<subseteq> set (pending_rows opened)" using E by (metis set_append Un_upper2)
  then have "set (pending_rows o3) \<subseteq> set (pending_rows opened) \<union> set (concat (map buffered_rows acts))"
    using F T E by (auto simp: out)
  moreover have "set (concat (map buffered_rows acts)) \<subseteq> set (at_positions pos items)"
    using F T E unfolding cut by (auto simp: out)
  ultimately show ?case by blast
qed simp

text \<open>
  \<open>N\<close> are the positions of the wallet's own notes.  The open shard holds the rows before \<open>pos\<close> that are
  neither built nor offered yet; unless it is passed through, there is no note among them.
\<close>

definition open_ok :: "nat \<Rightarrow> nat set \<Rightarrow> 'h open_shard \<Rightarrow> bool" where
  "open_ok pos N o' \<longleftrightarrow>
     (\<exists>q. run_from q (os_rows o') \<and> q + length (os_rows o') = pos) \<and>
     (\<forall>r \<in> set (os_rows o'). shard_of (fst r) = os_index o' \<and> (os_passthrough o' \<or> fst r \<notin> N)) \<and>
     os_index o' * 2 ^ SHARD_BITS \<le> pos \<and> pos \<le> (os_index o' + 1) * 2 ^ SHARD_BITS \<and>
     (os_rows o' \<noteq> [] \<or> os_passthrough o' \<or> shard_of pos = os_index o')"

definition one_shard :: "'h acc_row list \<Rightarrow> bool" where
  "one_shard rows \<longleftrightarrow> (\<exists>q i. run_from q rows \<and> (\<forall>r \<in> set rows. shard_of (fst r) = i))"

fun closed_ok :: "nat set \<Rightarrow> 'h feed_action \<Rightarrow> bool" where
  "closed_ok N (CloseCleanShard i rows) \<longleftrightarrow>
     rows \<noteq> [] \<and> (\<exists>q. run_from q rows) \<and> (\<forall>r \<in> set rows. shard_of (fst r) = i \<and> fst r \<notin> N) \<and>
     fst (last rows) + 1 = (i + 1) * 2 ^ SHARD_BITS"
| "closed_ok N (Build rows) \<longleftrightarrow> one_shard rows"
| "closed_ok N (Buffer rows) \<longleftrightarrow> rows \<noteq> [] \<and> one_shard rows"

lemma shard_of_iff: "shard_of p = i \<longleftrightarrow> i * 2 ^ SHARD_BITS \<le> p \<and> p < (i + 1) * 2 ^ SHARD_BITS"
  unfolding shard_of_def
  using dividend_less_div_times [of "2 ^ SHARD_BITS" p] div_times_less_eq_dividend [of p "2 ^ SHARD_BITS"]
  by (auto intro!: div_nat_eqI simp: mult.commute)

lemma run_from_last: "run_from q rows \<Longrightarrow> rows \<noteq> [] \<Longrightarrow> fst (last rows) + 1 = q + length rows"
  using run_from_nth [of q rows "length rows - 1"] by (simp add: last_conv_nth)

lemma run_from_bounds: "run_from q rows \<Longrightarrow> r \<in> set rows \<Longrightarrow> q \<le> fst r \<and> fst r < q + length rows"
  using run_from_nth [of q rows] by (force simp: in_set_conv_nth)

lemma enter_ok:
  assumes "open_ok pos N o'" and "enter_shard (shard_of pos) (Some o') = (o1, closing)"
  shows "open_ok pos N o1 \<and> os_index o1 = shard_of pos \<and> (\<forall>a \<in> set closing. closed_ok N a)"
proof (cases "os_index o' = shard_of pos")
  case True
  then show ?thesis using assms by (simp add: enter_shard_def)
next
  case False
  then have pos: "pos = (os_index o' + 1) * 2 ^ SHARD_BITS"
    using assms(1) shard_of_iff [of pos "os_index o'"] by (auto simp: open_ok_def)
  obtain q where q: "run_from q (os_rows o')" "q + length (os_rows o') = pos" using assms(1) by (auto simp: open_ok_def)
  have "closed_ok N (CloseCleanShard (os_index o') (os_rows o'))" if "\<not> os_passthrough o'"
    using that False assms(1) q run_from_last [OF q(1)] pos by (auto simp: open_ok_def)
  moreover have "open_ok pos N o1"
    using False assms(2) shard_of_iff [of pos "shard_of pos"] by (auto simp: enter_shard_def open_ok_def intro: exI [of _ pos])
  moreover have "closed_ok N (Build (os_rows o'))" using q(1) assms(1) by (auto simp: one_shard_def open_ok_def)
  ultimately show ?thesis using False assms(2)
    by (cases "os_passthrough o'"; cases "os_rows o' = []") (auto simp: enter_shard_def)
qed

lemma take_ok:
  assumes ok: "open_ok pos N o1" and idx: "os_index o1 = shard_of pos"
    and run: "run_from pos rows" "0 < length rows" "pos + length rows \<le> (shard_of pos + 1) * 2 ^ SHARD_BITS"
    and told: "\<And>p. p \<in> N \<Longrightarrow> pos \<le> p \<Longrightarrow> p < pos + length rows \<Longrightarrow> has_note"
    and t: "take_span rows has_note o1 = (o2, act)"
  shows "open_ok (pos + length rows) N o2 \<and> closed_ok N act"
proof -
  obtain q where q: "run_from q (os_rows o1)" "q + length (os_rows o1) = pos" using ok by (auto simp: open_ok_def)
  have lo: "shard_of pos * 2 ^ SHARD_BITS \<le> pos" using shard_of_iff [of pos "shard_of pos"] by simp
  have inside: "shard_of (fst r) = shard_of pos" if "r \<in> set rows" for r
    using run_from_bounds [OF run(1) that] lo run(3) shard_of_iff [of "fst r" "shard_of pos"] by linarith
  have clean: "fst r \<notin> N" if "r \<in> set rows" "\<not> has_note" for r
    using run_from_bounds [OF run(1) that(1)] told that(2) by blast
  have whole: "run_from q (os_rows o1 @ rows)" using q run(1) by (simp add: run_from_append)
  have "open_ok (pos + length rows) N o2"
  proof (cases "os_passthrough o1 \<or> has_note")
    case True
    then have "os_rows o2 = []" "os_index o2 = shard_of pos" "os_passthrough o2" using t idx by (auto simp: take_span_def split: if_splits)
    then show ?thesis using lo run(3) by (auto simp: open_ok_def intro: exI [of _ "pos + length rows"])
  next
    case False
    then have o2: "os_rows o2 = os_rows o1 @ rows" "os_index o2 = shard_of pos" "\<not> os_passthrough o2"
      using t idx by (auto simp: take_span_def)
    have old: "shard_of (fst r) = shard_of pos \<and> fst r \<notin> N" if "r \<in> set (os_rows o1)" for r
      using that False ok idx by (simp add: open_ok_def)
    have "shard_of (fst r) = shard_of pos \<and> fst r \<notin> N" if "r \<in> set (os_rows o1 @ rows)" for r
      using that inside [of r] clean [of r] old [of r] False by auto
    then show ?thesis using o2 whole q(2) lo run(2,3) by (auto simp: open_ok_def intro: exI [of _ q])
  qed
  moreover have "closed_ok N act"
  proof -
    have old: "shard_of (fst r) = shard_of pos" if "r \<in> set (os_rows o1)" for r
      using that ok idx by (simp add: open_ok_def)
    have "one_shard rows" using inside run(1) unfolding one_shard_def by blast
    moreover have "one_shard (os_rows o1 @ rows)"
      unfolding one_shard_def by (rule exI [of _ q], rule exI [of _ "shard_of pos"]) (use inside old whole in auto)
    ultimately show ?thesis using t run(2) by (auto simp: take_span_def split: if_splits)
  qed
  ultimately show ?thesis by blast
qed

lemma feed_closes:
  assumes "feed_spans pos items nts opened = (o3, acts)" and "opened = Some o'" and "open_ok pos N o'"
    and "\<And>p. p \<in> N \<Longrightarrow> pos \<le> p \<Longrightarrow> p < pos + length items \<Longrightarrow> p \<in> set nts"
  shows "(\<exists>o''. o3 = Some o'' \<and> open_ok (pos + length items) N o'') \<and> (\<forall>a \<in> set acts. closed_ok N a)"
  using assms
proof (induction pos items opened arbitrary: o3 acts o' rule: feed_spans_induct)
  case (More pos items opened)
  let ?n = "span_len pos (length items)"
  let ?rows = "at_positions pos (take ?n items)"
  obtain o1 closing where e: "enter_shard (shard_of pos) opened = (o1, closing)" by force
  obtain o2 act where t: "take_span ?rows (\<exists>p \<in> set nts. pos \<le> p \<and> p < pos + ?n) o1 = (o2, act)"
    by force
  obtain o4 acts' where f: "feed_spans (pos + ?n) (drop ?n items) nts (Some o2) = (o4, acts')" by force
  have out: "o3 = o4" "acts = closing @ act # acts'"
    using More.prems(1) feed_spans_more [OF More.hyps(1)] by (simp_all add: e t f Let_def)
  have n: "0 < ?n" "?n \<le> length items" using span_len_pos More.hyps(1) by simp_all
  have len: "length ?rows = ?n" using n by (simp add: at_positions_run)
  have end': "pos + ?n \<le> (shard_of pos + 1) * 2 ^ SHARD_BITS" using span_pos [of pos] by (simp add: span_len_def)
  have E: "open_ok pos N o1 \<and> os_index o1 = shard_of pos \<and> (\<forall>a \<in> set closing. closed_ok N a)"
    using enter_ok More.prems(2,3) e by blast
  have told: "\<exists>p' \<in> set nts. pos \<le> p' \<and> p' < pos + ?n" if "p \<in> N" "pos \<le> p" "p < pos + ?n" for p
    using that n More.prems(4) [of p] by force
  have T: "open_ok (pos + ?n) N o2 \<and> closed_ok N act"
    using take_ok [OF _ _ at_positions_run(1) _ _ _ t] E n end' told unfolding len by blast
  have "(\<exists>o''. o4 = Some o'' \<and> open_ok (pos + ?n + length (drop ?n items)) N o'') \<and> (\<forall>a \<in> set acts'. closed_ok N a)"
    by (rule More.IH [OF f refl]) (use T n More.prems(4) in auto)
  then show ?case using E T n by (auto simp: out)
qed auto

text \<open>The feeds of a range, one after the other, each with the notes found in it.\<close>

fun acc_feeds :: "(('h \<times> retention) list \<times> nat list) list \<Rightarrow> 'h shard_accumulator \<Rightarrow>
    'h shard_accumulator \<times> 'h feed_action list" where
  "acc_feeds [] acc = (acc, [])"
| "acc_feeds ((items, nts) # fs) acc =
     (let (acc1, a1) = acc_feed (sa_next acc) items nts acc; (acc2, a2) = acc_feeds fs acc1 in (acc2, a1 @ a2))"

text \<open>Every feed is told of the notes among its own positions.\<close>

fun notes_told :: "nat set \<Rightarrow> nat \<Rightarrow> (('h \<times> retention) list \<times> nat list) list \<Rightarrow> bool" where
  "notes_told N pos [] = True"
| "notes_told N pos ((items, nts) # fs) =
     ((\<forall>p \<in> N. pos \<le> p \<longrightarrow> p < pos + length items \<longrightarrow> p \<in> set nts) \<and> notes_told N (pos + length items) fs)"

lemma acc_feeds_ok:
  assumes "acc_feeds fs acc = (acc', acts)" and "sa_open acc = Some o'" and "open_ok (sa_next acc) N o'" and "notes_told N (sa_next acc) fs"
  shows "concat (map built_rows acts) @ pending_rows (sa_open acc') = os_rows o' @ at_positions (sa_next acc) (concat (map fst fs)) \<and>
    (\<forall>a \<in> set acts. closed_ok N a) \<and>
    set (pending_rows (sa_open acc')) \<subseteq> set (os_rows o') \<union> set (concat (map buffered_rows acts)) \<and>
    (\<exists>o''. sa_open acc' = Some o'' \<and> open_ok (sa_next acc') N o'' \<and> sa_next acc' = sa_next acc + length (concat (map fst fs)))"
  using assms
proof (induction fs arbitrary: acc o' acts)
  case (Cons x fs)
  obtain items nts where x: "x = (items, nts)" by force
  obtain opened a1 where sp: "feed_spans (sa_next acc) items nts (Some o') = (opened, a1)" by force
  let ?acc1 = "\<lparr>sa_next = sa_next acc + length items, sa_open = opened\<rparr>"
  obtain a2 where rest: "acc_feeds fs ?acc1 = (acc', a2)" and acts: "acts = a1 @ a2"
    using Cons.prems(1,2) by (auto simp: x acc_feed_def sp Let_def split: prod.splits)
  note C = feed_conserves [OF sp]
  obtain o1 where o1: "opened = Some o1" "open_ok (sa_next acc + length items) N o1" and cl: "\<forall>a \<in> set a1. closed_ok N a"
    using feed_closes [OF sp refl Cons.prems(3)] Cons.prems(4) by (auto simp: x)
  note R = Cons.IH [OF rest, of o1]
  have I: "concat (map built_rows a2) @ pending_rows (sa_open acc') = os_rows o1 @ at_positions (sa_next acc + length items) (concat (map fst fs))"
      "\<forall>a \<in> set a2. closed_ok N a" "set (pending_rows (sa_open acc')) \<subseteq> set (os_rows o1) \<union> set (concat (map buffered_rows a2))"
      "\<exists>o''. sa_open acc' = Some o'' \<and> open_ok (sa_next acc') N o'' \<and> sa_next acc' = sa_next acc + length items + length (concat (map fst fs))"
    using R o1 Cons.prems(4) by (simp_all add: x)
  have "concat (map built_rows acts) @ pending_rows (sa_open acc') =
      (concat (map built_rows a1) @ os_rows o1) @ at_positions (sa_next acc + length items) (concat (map fst fs))"
    using I(1) by (simp add: acts)
  also have "\<dots> = os_rows o' @ at_positions (sa_next acc) (concat (map fst (x # fs)))"
    using C o1(1) by (simp add: x at_positions_append)
  finally show ?case using I(2-4) cl C o1(1) by (auto simp: acts x add.assoc)
qed simp

lemma seed_ok:
  assumes "run_from q resume" and "q + length resume = start"
    and "\<forall>r \<in> set resume. shard_of (fst r) = shard_of start \<and> fst r \<notin> N"
  shows "open_ok start N \<lparr>os_index = shard_of start, os_rows = resume, os_passthrough = pt\<rparr>"
  using assms shard_of_iff [of start "shard_of start"] by (auto simp: open_ok_def)

text \<open>
  C18.  What the accumulator does with the commitments of a range, resumed rows first: each is built, or
  offered for grafting with its whole shard, once and in the order of positions; the rest is built at
  the end.  A shard is offered only when it is complete to its last position and has no note of the
  wallet, and never by the final call.  Until then its rows are in the buffer: in the rows resumed, or
  in those handed out to be buffered.
\<close>

theorem accumulator_conserves:
  assumes "run_from q resume" and "q + length resume = start"
    and "\<forall>r \<in> set resume. shard_of (fst r) = shard_of start \<and> fst r \<notin> N" and "notes_told N start fs"
    and "acc_feeds fs (acc_seed start resume pt) = (acc, acts)" and "acc_finish acc = (acc', f)"
  shows "concat (map built_rows acts) @ (case f of None \<Rightarrow> [] | Some a \<Rightarrow> built_rows a) = resume @ at_positions start (concat (map fst fs)) \<and>
    (\<forall>a \<in> set acts. closed_ok N a) \<and> (\<forall>i rows. f \<noteq> Some (CloseCleanShard i rows)) \<and>
    set (pending_rows (sa_open acc)) \<subseteq> set resume \<union> set (concat (map buffered_rows acts)) \<and> sa_open acc' = None"
proof -
  note F = acc_feeds_ok [OF assms(5), of _ N, unfolded acc_seed_def shard_accumulator.simps, OF refl seed_ok [OF assms(1-3)] assms(4)]
  have "(case f of None \<Rightarrow> [] | Some a \<Rightarrow> built_rows a) = pending_rows (sa_open acc)" "\<forall>i rows. f \<noteq> Some (CloseCleanShard i rows)"
      "sa_open acc' = None"
    using assms(6) by (auto simp: acc_finish_def split: option.splits if_splits)
  then show ?thesis using F by simp
qed

theorem accumulator_conserves_witness:
  "\<exists>acc acts acc' f.
     acc_feeds [([(''b'', Ephemeral)], []), ([(''c'', Ephemeral), (''d'', Marked)], [65537])]
       (acc_seed 65535 [(65534, ''a'', Ephemeral)] False) = (acc, acts) \<and> acc_finish acc = (acc', f) \<and>
     concat (map built_rows acts) @ (case f of None \<Rightarrow> [] | Some a \<Rightarrow> built_rows a) =
       [(65534, ''a'', Ephemeral), (65535, ''b'', Ephemeral), (65536, ''c'', Ephemeral), (65537, ''d'', Marked)]"
proof -
  let ?fs = "[([(''b'', Ephemeral)], []), ([(''c'', Ephemeral), (''d'', Marked)], [65537])]"
  obtain acc acts where run: "acc_feeds ?fs (acc_seed 65535 [(65534, ''a'', Ephemeral)] False) = (acc, acts)" by force
  obtain acc' f where fin: "acc_finish acc = (acc', f)" by force
  have "concat (map built_rows acts) @ (case f of None \<Rightarrow> [] | Some a \<Rightarrow> built_rows a) =
      [(65534, ''a'', Ephemeral)] @ at_positions 65535 (concat (map fst ?fs))"
    using accumulator_conserves [where N = "{65537}" and q = 65534, OF _ _ _ _ run fin] by (simp add: shard_of_def SHARD_BITS_def)
  then show ?thesis using run fin by simp
qed

end
