(* ===== verification/Slip_Buffer.thy ===== *)
theory Slip_Buffer
  imports Slip_Graft "HOL-Library.Multiset"
begin

text \<open>
  The graft buffer (\<open>src/core/src/graft.rs\<close>), the table of rows that are not built yet, and the plan a
  put of blocks makes of one pool (\<open>plan_pool\<close> in \<open>src/core/src/persist.rs\<close>): it resumes a run from the
  buffer, feeds the accumulator, buffers, and decides what is built and what is grafted.

  The table is keyed by pool, shard and position, in that order.  \<open>wr\<close> and \<open>rd\<close> serialize a hash,
  \<open>fault\<close> tells which statements SQLite refuses.
\<close>

section \<open>The table\<close>

datatype shielded_pool = SaplingPool | OrchardPool | IronwoodPool

fun pool_code :: "shielded_pool \<Rightarrow> nat" where
  "pool_code SaplingPool = 2"
| "pool_code OrchardPool = 3"
| "pool_code IronwoodPool = 4"

lemma pool_code_inj [simp]: "pool_code p = pool_code q \<longleftrightarrow> p = q"
  by (cases p; cases q) simp_all

type_synonym graft_row = "bytes \<times> int \<times> int option \<times> int option"
type_synonym graft_table = "((nat \<times> nat \<times> nat) \<times> graft_row) list"

datatype graft_stmt =
    GAppend shielded_pool nat
  | GLoad shielded_pool nat
  | GDelete shielded_pool nat nat nat
  | GShards shielded_pool
  | GPositions shielded_pool nat
  | GDeleteFrom shielded_pool nat

definition int_str :: "int \<Rightarrow> string" where
  "int_str i = (if i < 0 then ''-'' @ nat_str (nat (- i)) else nat_str (nat i))"

fun encode_marking :: "marking \<Rightarrow> int" where
  "encode_marking NoMark = 0"
| "encode_marking MarkedMark = 1"
| "encode_marking ReferenceMark = 2"

fun encode_retention :: "retention \<Rightarrow> int \<times> int option \<times> int option" where
  "encode_retention Ephemeral = (0, None, None)"
| "encode_retention Marked = (1, None, None)"
| "encode_retention (Checkpoint h m) = (2, Some (int h), Some (encode_marking m))"
| "encode_retention Reference = (3, None, None)"

definition decode_retention :: "int \<Rightarrow> int option \<Rightarrow> int option \<Rightarrow> sqlite_error + retention" where
  "decode_retention kind checkpoint_height marking =
     (if kind = 0 then Inr Ephemeral
      else if kind = 1 then Inr Marked
      else if kind = 2
      then (case checkpoint_height of
              None \<Rightarrow> Inl (CorruptedData ''graft buffer: checkpoint row without height'')
            | Some h \<Rightarrow>
                if h < 0 \<or> h > int u32_max then Inl (CorruptedData ''graft buffer: height out of range'')
                else (let m = (case marking of None \<Rightarrow> 0 | Some m \<Rightarrow> m)
                      in if m = 0 then Inr (Checkpoint (nat h) NoMark)
                         else if m = 1 then Inr (Checkpoint (nat h) MarkedMark)
                         else if m = 2 then Inr (Checkpoint (nat h) ReferenceMark)
                         else Inl (CorruptedData (''graft buffer: bad marking '' @ int_str m))))
      else if kind = 3 then Inr Reference
      else Inl (CorruptedData (''graft buffer: bad retention kind '' @ int_str kind)))"

fun retention_ok :: "retention \<Rightarrow> bool" where
  "retention_ok (Checkpoint h m) = (h \<le> u32_max)"
| "retention_ok _ = True"

lemma retention_roundtrip:
  "retention_ok r \<Longrightarrow> (case encode_retention r of (k, h, m) \<Rightarrow> decode_retention k h m) = Inr r"
proof (cases r)
  case (Checkpoint h m)
  assume "retention_ok r"
  then show ?thesis using Checkpoint by (cases m) (auto simp: decode_retention_def Let_def)
qed (auto simp: decode_retention_def)

text \<open>All rows in one transaction: a row that cannot be written rolls all of them back.\<close>

fun insert_rows :: "('h \<Rightarrow> string + bytes) \<Rightarrow> nat \<Rightarrow> nat \<Rightarrow> 'h acc_row list \<Rightarrow> graft_table \<Rightarrow> sqlite_error + graft_table" where
  "insert_rows wr pool shard [] t = Inr t"
| "insert_rows wr pool shard ((position, hash, r) # rows) t =
     (case wr hash of
        Inl e \<Rightarrow> Inl (CorruptedData (''graft buffer: hash ser: '' @ e))
      | Inr bytes \<Rightarrow> insert_rows wr pool shard rows (bt_insert (pool, shard, position) (bytes, encode_retention r) t))"

definition append_rows :: "(graft_stmt \<Rightarrow> string option) \<Rightarrow> ('h \<Rightarrow> string + bytes) \<Rightarrow> shielded_pool \<Rightarrow> nat \<Rightarrow>
    'h acc_row list \<Rightarrow> graft_table \<Rightarrow> graft_table \<times> (sqlite_error + unit)" where
  "append_rows fault wr pool shard rows t =
     (if rows = [] then (t, Inr ())
      else case fault (GAppend pool shard) of
             Some m \<Rightarrow> (t, Inl (OtherSqlite m))
           | None \<Rightarrow> (case insert_rows wr (pool_code pool) shard rows t of
                        Inl e \<Rightarrow> (t, Inl e)
                      | Inr t' \<Rightarrow> (t', Inr ())))"

definition shard_rows :: "shielded_pool \<Rightarrow> nat \<Rightarrow> graft_table \<Rightarrow> (nat \<times> graft_row) list" where
  "shard_rows pool shard t = map (\<lambda>((_, _, p), r). (p, r)) (filter (\<lambda>((q, s, _), _). q = pool_code pool \<and> s = shard) t)"

fun decode_rows :: "(bytes \<Rightarrow> string + 'h) \<Rightarrow> (nat \<times> graft_row) list \<Rightarrow> sqlite_error + 'h acc_row list" where
  "decode_rows rd [] = Inr []"
| "decode_rows rd ((position, bytes, kind, h, m) # rows) =
     (case rd bytes of
        Inl e \<Rightarrow> Inl (CorruptedData (''graft buffer: hash de: '' @ e))
      | Inr hash \<Rightarrow>
          (case decode_retention kind h m of
             Inl e \<Rightarrow> Inl e
           | Inr r \<Rightarrow> map_sum id (Cons (position, hash, r)) (decode_rows rd rows)))"

definition load_shard :: "(graft_stmt \<Rightarrow> string option) \<Rightarrow> (bytes \<Rightarrow> string + 'h) \<Rightarrow> shielded_pool \<Rightarrow> nat \<Rightarrow> graft_table \<Rightarrow>
    sqlite_error + 'h acc_row list" where
  "load_shard fault rd pool shard t =
     (case fault (GLoad pool shard) of
        Some m \<Rightarrow> Inl (OtherSqlite m)
      | None \<Rightarrow> decode_rows rd (shard_rows pool shard t))"

fun will_not_decode :: "sqlite_error \<Rightarrow> bool" where
  "will_not_decode (CorruptedData _) = True"
| "will_not_decode (OtherSqlite _) = False"

definition buffered_shards :: "(graft_stmt \<Rightarrow> string option) \<Rightarrow> shielded_pool \<Rightarrow> graft_table \<Rightarrow> sqlite_error + nat list" where
  "buffered_shards fault pool t =
     (case fault (GShards pool) of
        Some m \<Rightarrow> Inl (OtherSqlite m)
      | None \<Rightarrow> Inr (remdups (map (\<lambda>((_, s, _), _). s) (filter (\<lambda>((q, _, _), _). q = pool_code pool) t))))"

definition buffered_positions :: "(graft_stmt \<Rightarrow> string option) \<Rightarrow> shielded_pool \<Rightarrow> nat \<Rightarrow> graft_table \<Rightarrow> sqlite_error + nat list" where
  "buffered_positions fault pool shard t =
     (case fault (GPositions pool shard) of
        Some m \<Rightarrow> Inl (OtherSqlite m)
      | None \<Rightarrow> Inr (map fst (shard_rows pool shard t)))"

definition delete_rows_in :: "(graft_stmt \<Rightarrow> string option) \<Rightarrow> shielded_pool \<Rightarrow> nat \<Rightarrow> nat \<times> nat \<Rightarrow> graft_table \<Rightarrow>
    graft_table \<times> (sqlite_error + unit)" where
  "delete_rows_in fault pool shard run t =
     (case fault (GDelete pool shard (fst run) (snd run)) of
        Some m \<Rightarrow> (t, Inl (OtherSqlite m))
      | None \<Rightarrow> (filter (\<lambda>((q, s, p), _). \<not> (q = pool_code pool \<and> s = shard \<and> fst run \<le> p \<and> p < snd run)) t, Inr ()))"

definition delete_from_position :: "(graft_stmt \<Rightarrow> string option) \<Rightarrow> shielded_pool \<Rightarrow> nat \<Rightarrow> graft_table \<Rightarrow>
    graft_table \<times> (sqlite_error + unit)" where
  "delete_from_position fault pool min_position t =
     (case fault (GDeleteFrom pool min_position) of
        Some m \<Rightarrow> (t, Inl (OtherSqlite m))
      | None \<Rightarrow> (filter (\<lambda>((q, _, p), _). \<not> (q = pool_code pool \<and> min_position \<le> p)) t, Inr ()))"

section \<open>The table as a map\<close>

lemma insert_rows_sorted: "insert_rows wr pool shard rows t = Inr t' \<Longrightarrow> bt_sorted t \<Longrightarrow> bt_sorted t'"
  by (induction wr pool shard rows t rule: insert_rows.induct) (auto simp: bt_insert_sorted split: sum.splits)

lemma insert_rows_lookup:
  assumes "insert_rows wr pool shard rows t = Inr t'" and "bt_sorted t" and "run_from q rows"
  shows "map_of t' k = (if fst k = pool \<and> fst (snd k) = shard \<and> snd (snd k) \<in> set (map fst rows)
    then map_option (\<lambda>(h, r). (projr (wr h), encode_retention r)) (map_of rows (snd (snd k))) else map_of t k)"
  using assms
proof (induction wr pool shard rows t arbitrary: q rule: insert_rows.induct)
  case (2 wr pool shard position hash r rows t)
  obtain bytes where w: "wr hash = Inr bytes" and rest: "insert_rows wr pool shard rows (bt_insert (pool, shard, position) (bytes, encode_retention r) t) = Inr t'"
    using 2(2) by (auto split: sum.splits)
  have "position \<notin> set (map fst rows)" using run_from_bounds [of "q + 1" rows] 2(4) by force
  moreover note 2(1) [OF w rest bt_insert_sorted [OF 2(3)], of "q + 1"]
  ultimately show ?case using 2(3,4) w by (cases k) (auto simp: map_of_bt_insert)
qed simp

lemma delete_rows_lookup:
  assumes "delete_rows_in fault pool shard run t = (t', r)" and "bt_sorted t"
  shows "bt_sorted t' \<and> (\<forall>k. map_of t' k = (if r = Inr () \<and> fst k = pool_code pool \<and> fst (snd k) = shard \<and>
    fst run \<le> snd (snd k) \<and> snd (snd k) < snd run then None else map_of t k))"
proof (cases "fault (GDelete pool shard (fst run) (snd run))")
  case None
  let ?P = "\<lambda>((q, s, p), _). \<not> (q = pool_code pool \<and> s = shard \<and> fst run \<le> p \<and> p < snd run)"
  have t': "t' = filter ?P t" "r = Inr ()" using assms(1) None by (simp_all add: delete_rows_in_def)
  have "map_of (filter ?P t) k = (if ?P (k, undefined) then map_of t k else None)" for k
    by (induction t) auto
  then show ?thesis using t' bt_filter_sorted [OF assms(2)] by (auto simp: case_prod_beta)
qed (use assms in \<open>auto simp: delete_rows_in_def\<close>)

section \<open>The plan of one pool\<close>

type_synonym 'h build_segment = "nat \<times> ('h \<times> retention) option list"

record 'h pool_plan =
  pn_segments :: "'h build_segment list"
  pn_grafts :: "(nat \<times> 'h) list"
  pn_cleanup_spans :: "(nat \<times> nat \<times> nat) list"
  pn_fallbacks :: nat
  pn_verify_roots :: "(nat \<times> 'h) list"

text \<open>
  What a plan is made with besides its arguments: the statements refused, the hash (de)serialization,
  the audit rate, the store's content and the tree's refusal of a run (both of the commitment-tree
  crate), the server's shard roots as the wallet keeps them, and the anchors to retain.
\<close>

record 'h plan_env =
  pe_fault :: "graft_stmt \<Rightarrow> string option"
  pe_wr :: "'h \<Rightarrow> string + bytes"
  pe_rd :: "bytes \<Rightarrow> string + 'h"
  pe_verify_sample :: nat
  pe_store_has_shard :: "nat \<Rightarrow> bool"
  pe_tree_refuses :: "'h acc_row list \<Rightarrow> string option"
  pe_server_root :: "nat \<Rightarrow> sqlite_error + 'h option"
  pe_anchor_retention :: "(nat \<Rightarrow> bool) option"

definition should_retain_anchor :: "(nat \<Rightarrow> bool) option \<Rightarrow> nat \<Rightarrow> bool" where
  "should_retain_anchor anchor_retention height = (case anchor_retention of None \<Rightarrow> False | Some retains \<Rightarrow> retains height)"

definition rows_to_segment :: "'h acc_row list \<Rightarrow> 'h build_segment list" where
  "rows_to_segment rows = (if rows = [] then [] else [(fst (hd rows), map (\<lambda>(_, h, r). Some (h, r)) rows)])"

definition fed_span :: "'h acc_row list \<Rightarrow> (nat \<times> nat \<times> nat) list" where
  "fed_span rows = (if rows = [] then [] else [(shard_of (fst (hd rows)), fst (hd rows), fst (last rows) + 1)])"

text \<open>The first call of a range seeds the pool's accumulator from the buffer.\<close>

definition load_for_seed :: "'h plan_env \<Rightarrow> shielded_pool \<Rightarrow> nat \<Rightarrow> nat \<times> nat \<Rightarrow> graft_table \<Rightarrow>
    graft_table \<times> (sqlite_error + 'h acc_row list \<times> bool)" where
  "load_for_seed env pool shard fed t =
     (case load_shard (pe_fault env) (pe_rd env) pool shard t of
        Inr rows \<Rightarrow>
          (if \<exists>r \<in> set rows. fst fed \<le> fst r \<and> fst r < snd fed
           then (case delete_rows_in (pe_fault env) pool shard fed t of
                   (t1, Inl e) \<Rightarrow> (t1, Inl e)
                 | (t1, Inr _) \<Rightarrow> (t1, Inr (rows, False)))
           else (t, Inr (rows, False)))
      | Inl e \<Rightarrow>
          (if will_not_decode e
           then (case delete_rows_in (pe_fault env) pool shard fed t of
                   (t1, Inl e') \<Rightarrow> (t1, Inl e')
                 | (t1, Inr _) \<Rightarrow> (t1, Inr ([], True)))
           else (t, Inl e)))"

definition seed_pool :: "'h plan_env \<Rightarrow> shielded_pool \<Rightarrow> nat \<Rightarrow> (nat \<times> 'h) option \<Rightarrow> nat \<Rightarrow> graft_table \<Rightarrow>
    graft_table \<times> (sqlite_error + 'h shard_accumulator)" where
  "seed_pool env pool start_position frontier_leaf n t =
     (let shard = shard_of start_position;
          fed = (start_position, min (start_position + n) ((shard + 1) * 2 ^ SHARD_BITS))
      in case load_for_seed env pool shard fed t of
           (t1, Inl e) \<Rightarrow> (t1, Inl e)
         | (t1, Inr (rows, undecodable)) \<Rightarrow>
             (let below_start = takeWhile (\<lambda>(p, _). p < start_position) rows;
                  ends_at_start = (below_start \<noteq> [] \<and> fst (last below_start) + 1 = start_position);
                  run = fst (resumable_run rows start_position frontier_leaf);
                  rejected_at_start = (ends_at_start \<and> run = []);
                  refusal = (if run = [] then None else pe_tree_refuses env run);
                  resume = (if refusal \<noteq> None then [] else run);
                  passthrough = (pe_store_has_shard env shard \<or> undecodable \<or> rejected_at_start \<or> refusal \<noteq> None)
              in (t1, Inr (acc_seed start_position resume passthrough))))"

definition contains_anchor :: "(nat \<Rightarrow> bool) option \<Rightarrow> 'h acc_row list \<Rightarrow> bool" where
  "contains_anchor anchor rows =
     (\<exists>row \<in> set rows. case snd (snd row) of Checkpoint h _ \<Rightarrow> should_retain_anchor anchor h | _ \<Rightarrow> False)"

fun plan_action :: "'h plan_env \<Rightarrow> shielded_pool \<Rightarrow> 'h feed_action \<Rightarrow> graft_table \<times> 'h pool_plan \<Rightarrow>
    (graft_table \<times> 'h pool_plan) \<times> (sqlite_error + unit)" where
  "plan_action env pool (Build rows) (t, plan) =
     ((t, plan\<lparr>pn_cleanup_spans := pn_cleanup_spans plan @ fed_span rows,
              pn_segments := pn_segments plan @ rows_to_segment rows\<rparr>), Inr ())"
| "plan_action env pool (CloseCleanShard shard_index rows) (t, plan) =
     (let plan1 = plan\<lparr>pn_cleanup_spans := pn_cleanup_spans plan @ fed_span rows\<rparr>;
          built = plan1\<lparr>pn_segments := pn_segments plan1 @ rows_to_segment rows\<rparr>
      in if contains_anchor (pe_anchor_retention env) rows
         then ((t, built\<lparr>pn_fallbacks := pn_fallbacks built + 1\<rparr>), Inr ())
         else case pe_server_root env shard_index of
                Inl e \<Rightarrow> ((t, plan1), Inl e)
              | Inr (Some rt) \<Rightarrow>
                  (if 0 < pe_verify_sample env \<and> pe_verify_sample env dvd shard_index
                   then ((t, built\<lparr>pn_verify_roots := pn_verify_roots built @ [(shard_index, rt)]\<rparr>), Inr ())
                   else ((t, plan1\<lparr>pn_grafts := pn_grafts plan1 @ [(shard_index, rt)]\<rparr>), Inr ()))
              | Inr None \<Rightarrow> ((t, built\<lparr>pn_fallbacks := pn_fallbacks built + 1\<rparr>), Inr ()))"
| "plan_action env pool (Buffer rows) (t, plan) =
     (if rows = [] then ((t, plan), Inr ())
      else case append_rows (pe_fault env) (pe_wr env) pool (shard_of (fst (hd rows))) rows t of
             (t', r) \<Rightarrow> ((t', plan), r))"

fun plan_actions :: "'h plan_env \<Rightarrow> shielded_pool \<Rightarrow> 'h feed_action list \<Rightarrow> graft_table \<times> 'h pool_plan \<Rightarrow>
    (graft_table \<times> 'h pool_plan) \<times> (sqlite_error + unit)" where
  "plan_actions env pool [] st = (st, Inr ())"
| "plan_actions env pool (a # as) st =
     (case plan_action env pool a st of
        (st', Inl e) \<Rightarrow> (st', Inl e)
      | (st', Inr _) \<Rightarrow> plan_actions env pool as st')"

definition empty_plan :: "'h pool_plan" where
  "empty_plan = \<lparr>pn_segments = [], pn_grafts = [], pn_cleanup_spans = [], pn_fallbacks = 0, pn_verify_roots = []\<rparr>"

definition plan_pool :: "'h plan_env \<Rightarrow> shielded_pool \<Rightarrow> nat \<Rightarrow> (nat \<times> 'h) option \<Rightarrow> ('h \<times> retention) list \<Rightarrow> nat list \<Rightarrow>
    'h shard_accumulator option \<times> graft_table \<Rightarrow>
    ('h shard_accumulator option \<times> graft_table) \<times> (sqlite_error + 'h pool_plan)" where
  "plan_pool env pool start_position frontier_leaf stream note_positions st =
     (case (case fst st of
              Some a \<Rightarrow> (snd st, Inr a)
            | None \<Rightarrow> seed_pool env pool start_position frontier_leaf (length stream) (snd st)) of
        (t1, Inl e) \<Rightarrow> ((None, t1), Inl e)
      | (t1, Inr a) \<Rightarrow>
          (case acc_feed start_position stream note_positions a of
             (a', acts) \<Rightarrow>
               (case plan_actions env pool acts (t1, empty_plan) of
                  ((t2, plan), Inl e) \<Rightarrow> ((Some a', t2), Inl e)
                | ((t2, plan), Inr _) \<Rightarrow> ((Some a', t2), Inr plan))))"

text \<open>After the commit, the rows that were built or grafted are deleted, span by span.\<close>

fun clean_up :: "(graft_stmt \<Rightarrow> string option) \<Rightarrow> shielded_pool \<Rightarrow> (nat \<times> nat \<times> nat) list \<Rightarrow> graft_table \<Rightarrow>
    graft_table \<times> (sqlite_error + unit)" where
  "clean_up fault pool [] t = (t, Inr ())"
| "clean_up fault pool ((shard, sp) # spans) t =
     (case delete_rows_in fault pool shard sp t of
        (t', Inl e) \<Rightarrow> (t', Inl e)
      | (t', Inr _) \<Rightarrow> clean_up fault pool spans t')"

section \<open>What the statements keep\<close>

definition table_ok :: "graft_table \<Rightarrow> bool" where
  "table_ok t \<longleftrightarrow> bt_sorted t \<and> (\<forall>q s p. map_of t (q, s, p) \<noteq> None \<longrightarrow> s = shard_of p)"

text \<open>The table as it was, but for positions of one pool that satisfy \<open>P\<close>.\<close>

definition same_but :: "shielded_pool \<Rightarrow> (nat \<Rightarrow> bool) \<Rightarrow> graft_table \<Rightarrow> graft_table \<Rightarrow> bool" where
  "same_but pool P t t' \<longleftrightarrow> (\<forall>k. map_of t' k \<noteq> map_of t k \<longrightarrow> fst k = pool_code pool \<and> P (snd (snd k)))"

definition row_stored :: "(bytes \<Rightarrow> string + 'h) \<Rightarrow> shielded_pool \<Rightarrow> graft_table \<Rightarrow> 'h acc_row \<Rightarrow> bool" where
  "row_stored rd pool t row =
     (case map_of t (pool_code pool, shard_of (fst row), fst row) of
        None \<Rightarrow> False
      | Some (bytes, kind, h, m) \<Rightarrow> rd bytes = Inr (fst (snd row)) \<and> decode_retention kind h m = Inr (snd (snd row)))"

lemma same_but_refl [simp]: "same_but pool P t t"
  by (simp add: same_but_def)

lemma same_but_trans: "same_but pool P t t' \<Longrightarrow> same_but pool Q t' t'' \<Longrightarrow> same_but pool (\<lambda>p. P p \<or> Q p) t t''"
  unfolding same_but_def by metis

lemma same_but_mono: "same_but pool P t t' \<Longrightarrow> (\<And>p. P p \<Longrightarrow> Q p) \<Longrightarrow> same_but pool Q t t'"
  unfolding same_but_def by blast

lemma row_stored_kept: "row_stored rd pool t x \<Longrightarrow> same_but pool P t t' \<Longrightarrow> \<not> P (fst x) \<Longrightarrow> row_stored rd pool t' x"
  unfolding same_but_def row_stored_def by (metis fst_conv snd_conv)

lemma delete_rows_ok:
  assumes "delete_rows_in fault pool shard run t = (t', r)" and "table_ok t"
  shows "table_ok t' \<and> same_but pool (\<lambda>p. shard_of p = shard \<and> fst run \<le> p \<and> p < snd run) t t'"
proof -
  have t: "bt_sorted t" "\<And>q s p. map_of t (q, s, p) \<noteq> None \<Longrightarrow> s = shard_of p" using assms(2) by (auto simp: table_ok_def)
  note D = delete_rows_lookup [OF assms(1) t(1)]
  have "shard_of (snd (snd k)) = fst (snd k)" if "map_of t k \<noteq> None" for k
    using t(2) [of "fst k" "fst (snd k)" "snd (snd k)"] that by simp
  then have "same_but pool (\<lambda>p. shard_of p = shard \<and> fst run \<le> p \<and> p < snd run) t t'"
    using D unfolding same_but_def by metis
  moreover have "table_ok t'" using D t(2) by (auto simp: table_ok_def split: if_splits)
  ultimately show ?thesis by blast
qed

lemma insert_rows_wr: "insert_rows wr pool shard rows t = Inr t' \<Longrightarrow> (p, h, r) \<in> set rows \<Longrightarrow> \<exists>bytes. wr h = Inr bytes"
  by (induction wr pool shard rows t rule: insert_rows.induct) (auto split: sum.splits)

lemma append_rows_ok:
  assumes "append_rows fault wr pool shard rows t = (t', res)" and "table_ok t"
    and run: "run_from q rows" "\<forall>x \<in> set rows. shard_of (fst x) = shard"
  shows "table_ok t' \<and> same_but pool (\<lambda>p. q \<le> p \<and> p < q + length rows) t t' \<and>
    (res = Inr () \<longrightarrow> (\<forall>h b. wr h = Inr b \<longrightarrow> rd b = Inr h) \<longrightarrow> (\<forall>x \<in> set rows. retention_ok (snd (snd x))) \<longrightarrow>
       (\<forall>x \<in> set rows. row_stored rd pool t' x))"
proof (cases "res = Inr () \<and> rows \<noteq> []")
  case False
  then show ?thesis using assms by (auto simp: append_rows_def split: if_splits option.splits sum.splits)
next
  case True
  then have ins: "insert_rows wr (pool_code pool) shard rows t = Inr t'"
    using assms(1) by (auto simp: append_rows_def split: if_splits option.splits sum.splits)
  have t: "bt_sorted t" "\<And>q s p. map_of t (q, s, p) \<noteq> None \<Longrightarrow> s = shard_of p" using assms(2) by (auto simp: table_ok_def)
  note L = insert_rows_lookup [OF ins t(1) run(1)]
  have in_rows: "q \<le> p \<and> p < q + length rows \<and> shard_of p = shard" if "p \<in> set (map fst rows)" for p
    using that run run_from_bounds [OF run(1)] by auto
  have "table_ok t'" using insert_rows_sorted [OF ins t(1)] L in_rows t(2) by (auto simp: table_ok_def split: if_splits)
  moreover have "same_but pool (\<lambda>p. q \<le> p \<and> p < q + length rows) t t'"
    unfolding same_but_def L using in_rows by auto
  moreover have "row_stored rd pool t' x"
    if c: "\<forall>h b. wr h = Inr b \<longrightarrow> rd b = Inr h" and x: "retention_ok (snd (snd x))" "x \<in> set rows" for x
  proof -
    obtain p h r where xs: "x = (p, h, r)" by (cases x)
    have "distinct (map fst rows)" using run_from_pos [OF run(1)] by simp
    then have m: "map_of rows p = Some (h, r)" using x(2) xs by (simp add: map_of_eq_Some_iff)
    have mem: "p \<in> set (map fst rows)" using x(2) xs by force
    have s: "shard_of p = shard" using run(2) x(2) xs by auto
    obtain bytes where b: "wr h = Inr bytes" using insert_rows_wr [OF ins] x(2) xs by blast
    have "map_of t' (pool_code pool, shard_of p, p) = Some (bytes, encode_retention r)"
      using L [of "(pool_code pool, shard_of p, p)"] m mem s b by simp
    then show ?thesis using c b retention_roundtrip [of r] x(1) xs by (auto simp: row_stored_def split: prod.splits)
  qed
  ultimately show ?thesis by blast
qed

lemma decode_rows_mem: "decode_rows rd raw = Inr rows \<Longrightarrow> x \<in> set rows \<Longrightarrow>
    \<exists>bytes kind h m. (fst x, bytes, kind, h, m) \<in> set raw \<and> rd bytes = Inr (fst (snd x)) \<and> decode_retention kind h m = Inr (snd (snd x))"
proof (induction rd raw arbitrary: rows rule: decode_rows.induct)
  case (2 rd position bytes kind h m raw)
  obtain hash r rest where d: "rd bytes = Inr hash" "decode_retention kind h m = Inr r" "decode_rows rd raw = Inr rest"
      "rows = (position, hash, r) # rest"
    using 2(2) by (auto split: sum.splits simp: map_sum_def)
  show ?case
  proof (cases "x = (position, hash, r)")
    case False
    then show ?thesis using 2(1) [OF d(1,2) d(3)] 2(3) d(4) by auto
  qed (use d in auto)
qed simp

lemma load_shard_stored:
  assumes "load_shard fault rd pool shard t = Inr rows" and "table_ok t" and "x \<in> set rows"
  shows "row_stored rd pool t x \<and> shard_of (fst x) = shard"
proof -
  have "decode_rows rd (shard_rows pool shard t) = Inr rows" using assms(1) by (auto simp: load_shard_def split: option.splits)
  then obtain bytes kind h m where d: "(fst x, bytes, kind, h, m) \<in> set (shard_rows pool shard t)" "rd bytes = Inr (fst (snd x))"
      "decode_retention kind h m = Inr (snd (snd x))" using decode_rows_mem assms(3) by blast
  then have "((pool_code pool, shard, fst x), bytes, kind, h, m) \<in> set t" by (auto simp: shard_rows_def)
  then have "map_of t (pool_code pool, shard, fst x) = Some (bytes, kind, h, m)" using assms(2) by (simp add: table_ok_def bt_map_of_iff)
  moreover from this have "shard_of (fst x) = shard" using assms(2) unfolding table_ok_def by (metis option.distinct(1))
  ultimately show ?thesis using d by (simp add: row_stored_def)
qed

section \<open>What a plan accounts for\<close>

definition acc_ready :: "'h plan_env \<Rightarrow> shielded_pool \<Rightarrow> nat set \<Rightarrow> nat \<Rightarrow> graft_table \<Rightarrow> 'h shard_accumulator \<Rightarrow> bool" where
  "acc_ready env pool N pos t a \<longleftrightarrow>
     (\<exists>o'. sa_open a = Some o' \<and> open_ok pos N o' \<and> (\<forall>x \<in> set (os_rows o'). row_stored (pe_rd env) pool t x))"

definition fed_at :: "nat \<Rightarrow> nat \<Rightarrow> nat \<Rightarrow> bool" where
  "fed_at start n p \<longleftrightarrow> start \<le> p \<and> p < start + n"

lemma load_for_seed_ok:
  assumes "load_for_seed env pool shard fed t = (t1, res)" and "table_ok t"
  shows "table_ok t1 \<and> same_but pool (\<lambda>p. fst fed \<le> p \<and> p < snd fed) t t1 \<and>
    (\<forall>rows u x. res = Inr (rows, u) \<longrightarrow> x \<in> set rows \<longrightarrow> row_stored (pe_rd env) pool t x \<and> shard_of (fst x) = shard)"
proof -
  have D: "table_ok t' \<and> same_but pool (\<lambda>p. fst fed \<le> p \<and> p < snd fed) t t'"
    if "delete_rows_in (pe_fault env) pool shard fed t = (t', r)" for t' r
    by (rule conjI [OF conjunct1 [OF delete_rows_ok [OF that assms(2)]] same_but_mono [OF conjunct2 [OF delete_rows_ok [OF that assms(2)]]]]) simp
  have "row_stored (pe_rd env) pool t x \<and> shard_of (fst x) = shard" if r: "res = Inr (rows, u)" and x: "x \<in> set rows" for rows u x
  proof -
    have "load_shard (pe_fault env) (pe_rd env) pool shard t = Inr rows \<or> rows = []"
      using r assms(1) by (auto simp: load_for_seed_def split: sum.splits if_splits prod.splits)
    then have "load_shard (pe_fault env) (pe_rd env) pool shard t = Inr rows" using x by auto
    then show ?thesis using load_shard_stored [OF _ assms(2) x] by blast
  qed
  moreover have "table_ok t1 \<and> same_but pool (\<lambda>p. fst fed \<le> p \<and> p < snd fed) t t1"
    using assms D by (auto simp: load_for_seed_def split: sum.splits if_splits prod.splits)
  ultimately show ?thesis by blast
qed

lemma seed_pool_ok:
  assumes seed: "seed_pool env pool start leaf n t = (t1, res)" and t: "table_ok t"
    and clean: "\<And>x. row_stored (pe_rd env) pool t x \<Longrightarrow> fst x < start \<Longrightarrow> fst x \<notin> N"
  shows "table_ok t1 \<and> same_but pool (fed_at start n) t t1 \<and>
    (\<forall>a. res = Inr a \<longrightarrow> acc_ready env pool N start t1 a \<and> (\<forall>x \<in> set (pending_rows (sa_open a)). row_stored (pe_rd env) pool t x))"
proof -
  let ?fed = "(start, min (start + n) ((shard_of start + 1) * 2 ^ SHARD_BITS))"
  obtain t' r where l: "load_for_seed env pool (shard_of start) ?fed t = (t', r)" by force
  have L: "table_ok t'" "same_but pool (\<lambda>p. fst ?fed \<le> p \<and> p < snd ?fed) t t'"
      "\<And>rows u x. r = Inr (rows, u) \<Longrightarrow> x \<in> set rows \<Longrightarrow> row_stored (pe_rd env) pool t x \<and> shard_of (fst x) = shard_of start"
    using load_for_seed_ok [OF l t] by blast+
  note S = seed [unfolded seed_pool_def Let_def l prod.case]
  have t1: "t1 = t'" using S by (auto split: sum.splits)
  have same: "same_but pool (fed_at start n) t t1" 
    unfolding t1 by (rule same_but_mono [OF L(2)]) (simp add: fed_at_def)
  have "acc_ready env pool N start t1 a \<and> (\<forall>x \<in> set (pending_rows (sa_open a)). row_stored (pe_rd env) pool t x)" if a: "res = Inr a" for a
  proof -
    obtain rows u where r: "r = Inr (rows, u)" using S a by (cases r) (auto split: prod.splits)
    obtain run left where rr: "resumable_run rows start leaf = (run, left)" by force
    define resume where "resume = (if (if run = [] then None else pe_tree_refuses env run) \<noteq> None then [] else run)"
    obtain pt where seeded: "a = acc_seed start resume pt"
      using S [unfolded r sum.case prod.case rr fst_conv a prod.inject sum.inject] unfolding resume_def by blast
    have resume: "resume = [] \<or> resume = run" by (simp add: resume_def)
    have in_rows: "row_stored (pe_rd env) pool t x \<and> shard_of (fst x) = shard_of start \<and> fst x < start" if "x \<in> set resume" for x
    proof -
      have "resume = run" "run \<noteq> []" using that resume by auto
      then have "x \<in> set rows" "fst x < start" using resumable_run_run [OF rr] that by auto
      then show ?thesis using L(3) [OF r] by blast
    qed
    obtain q where q: "run_from q resume" "q + length resume = start"
    proof (cases "resume = []")
      case False
      then have "resume = run" "run \<noteq> []" using resume by auto
      then show ?thesis using resumable_run_run [OF rr] run_from_last [of "fst (hd run)" run] that by auto
    qed (use that [of start] in simp)
    have "open_ok start N \<lparr>os_index = shard_of start, os_rows = resume, os_passthrough = pt\<rparr>"
      using seed_ok [OF q] in_rows clean by blast
    moreover have "row_stored (pe_rd env) pool t1 x" if "x \<in> set resume" for x
      using row_stored_kept [OF _ same, of "pe_rd env" x] in_rows [OF that] by (simp add: fed_at_def)
    ultimately show ?thesis using in_rows by (auto simp: acc_ready_def seeded acc_seed_def)
  qed
  then show ?thesis using L(1) same unfolding t1 by blast
qed

text \<open>The shard root a closed shard is replaced by, if it is.\<close>

fun graft_of :: "'h plan_env \<Rightarrow> 'h feed_action \<Rightarrow> (nat \<times> 'h) option" where
  "graft_of env (CloseCleanShard i rows) =
     (if contains_anchor (pe_anchor_retention env) rows \<or> 0 < pe_verify_sample env \<and> pe_verify_sample env dvd i then None
      else case pe_server_root env i of Inr (Some rt) \<Rightarrow> Some (i, rt) | _ \<Rightarrow> None)"
| "graft_of env (Build rows) = None"
| "graft_of env (Buffer rows) = None"

definition segment_rows :: "'h build_segment list \<Rightarrow> 'h acc_row list" where
  "segment_rows segs = concat (map (\<lambda>(p, xs). at_positions p (map the xs)) segs)"

lemma at_positions_run_from: "run_from q rows \<Longrightarrow> at_positions q (map snd rows) = rows"
  by (induction q rows rule: run_from.induct) simp_all

lemma segment_rows_append: "segment_rows (xs @ ys) = segment_rows xs @ segment_rows ys"
  by (simp add: segment_rows_def)

lemma rows_to_segment_rows: "run_from q rows \<Longrightarrow> segment_rows (rows_to_segment rows) = rows"
  using at_positions_run_from [of q rows]
  by (cases rows) (auto simp: segment_rows_def rows_to_segment_def case_prod_beta comp_def)

lemma closed_ok_run: "closed_ok N a \<Longrightarrow> one_shard (built_rows a) \<and> one_shard (buffered_rows a)"
  by (cases a) (auto simp: one_shard_def)

lemma plan_action_plan:
  assumes "plan_action env pool a (t, plan) = ((t', plan'), Inr ())" and "closed_ok N a"
  shows "segment_rows (pn_segments plan') = segment_rows (pn_segments plan) @ (if graft_of env a = None then built_rows a else []) \<and>
    pn_grafts plan' = pn_grafts plan @ (case graft_of env a of None \<Rightarrow> [] | Some g \<Rightarrow> [g]) \<and>
    pn_cleanup_spans plan' = pn_cleanup_spans plan @ fed_span (built_rows a)"
proof -
  obtain q where "run_from q (built_rows a)" using closed_ok_run [OF assms(2)] by (auto simp: one_shard_def)
  then have seg: "segment_rows (rows_to_segment (built_rows a)) = built_rows a" by (rule rows_to_segment_rows)
  show ?thesis
  proof (cases a)
    case (CloseCleanShard i rows)
    then show ?thesis using assms(1) seg
      by (auto simp: Let_def segment_rows_append split: if_splits sum.splits option.splits)
  qed (use assms(1) seg in \<open>auto simp: segment_rows_append fed_span_def split: if_splits prod.splits\<close>)
qed

lemma plan_action_table:
  assumes "plan_action env pool a (t, plan) = ((t', plan'), res)" and "closed_ok N a" and "table_ok t"
  shows "table_ok t' \<and> same_but pool (\<lambda>p. p \<in> fst ` set (buffered_rows a)) t t' \<and>
    (res = Inr () \<longrightarrow> (\<forall>h b. pe_wr env h = Inr b \<longrightarrow> pe_rd env b = Inr h) \<longrightarrow> (\<forall>x \<in> set (buffered_rows a). retention_ok (snd (snd x))) \<longrightarrow>
       (\<forall>x \<in> set (buffered_rows a). row_stored (pe_rd env) pool t' x))"
proof (cases a)
  case (Buffer rows)
  then have ne: "rows \<noteq> []" using assms(2) by simp
  obtain q i where r: "run_from q rows" "\<forall>x \<in> set rows. shard_of (fst x) = i" using assms(2) Buffer by (auto simp: one_shard_def)
  have "shard_of (fst (hd rows)) = i" using r(2) ne by simp
  then have ap: "append_rows (pe_fault env) (pe_wr env) pool i rows t = (t', res)"
    using assms(1) Buffer ne by (auto split: prod.splits)
  have "p \<in> fst ` set rows" if "q \<le> p \<and> p < q + length rows" for p
    using run_from_pos [OF r(1)] that by (metis atLeastLessThan_iff set_map set_upt)
  then show ?thesis using append_rows_ok [OF ap assms(3) r, of "pe_rd env"] Buffer same_but_mono [of pool "\<lambda>p. q \<le> p \<and> p < q + length rows" t t' "\<lambda>p. p \<in> fst ` set rows"]
    by (simp only: buffered_rows.simps) blast
next
  case (CloseCleanShard i rows)
  then show ?thesis using assms by (auto simp: Let_def split: if_splits sum.splits option.splits)
qed (use assms in auto)

lemma plan_actions_plan:
  assumes "plan_actions env pool acts (t, plan) = ((t', plan'), Inr ())" and "\<forall>a \<in> set acts. closed_ok N a"
  shows "segment_rows (pn_segments plan') = segment_rows (pn_segments plan) @ concat (map built_rows (filter (\<lambda>a. graft_of env a = None) acts)) \<and>
    pn_grafts plan' = pn_grafts plan @ List.map_filter (graft_of env) acts \<and>
    pn_cleanup_spans plan' = pn_cleanup_spans plan @ concat (map fed_span (map built_rows acts))"
  using assms
proof (induction acts arbitrary: t plan)
  case (Cons a acts)
  obtain t1 plan1 where a: "plan_action env pool a (t, plan) = ((t1, plan1), Inr ())" and rest: "plan_actions env pool acts (t1, plan1) = ((t', plan'), Inr ())"
    using Cons.prems(1) by (cases "plan_action env pool a (t, plan)") (auto split: sum.splits)
  show ?case using plan_action_plan [OF a] Cons.IH [OF rest] Cons.prems(2) by (auto simp: map_filter_simps split: option.splits)
qed (simp add: map_filter_simps)

lemma plan_actions_table:
  assumes "plan_actions env pool acts (t, plan) = ((t', plan'), res)" and "\<forall>a \<in> set acts. closed_ok N a" and "table_ok t"
  shows "table_ok t' \<and> same_but pool (\<lambda>p. p \<in> fst ` set (concat (map buffered_rows acts))) t t'"
  using assms
proof (induction acts arbitrary: t plan)
  case (Cons a acts)
  obtain t1 plan1 r where a: "plan_action env pool a (t, plan) = ((t1, plan1), r)" by (metis surj_pair)
  have A: "table_ok t1" "same_but pool (\<lambda>p. p \<in> fst ` set (buffered_rows a)) t t1"
    using plan_action_table [OF a _ Cons.prems(3)] Cons.prems(2) by auto
  show ?case
  proof (cases r)
    case (Inl e)
    then have "t' = t1" using Cons.prems(1) a by simp
    then show ?thesis using A(1) by (auto intro!: same_but_mono [OF A(2)])
  next
    case (Inr u)
    then have rest: "plan_actions env pool acts (t1, plan1) = ((t', plan'), res)" using Cons.prems(1) a by simp
    have R: "table_ok t'" "same_but pool (\<lambda>p. p \<in> fst ` set (concat (map buffered_rows acts))) t1 t'"
      using Cons.IH [OF rest _ A(1)] Cons.prems(2) by auto
    have "same_but pool (\<lambda>p. p \<in> fst ` set (concat (map buffered_rows (a # acts)))) t t'"
      by (rule same_but_mono [OF same_but_trans [OF A(2) R(2)]]) auto
    with R(1) show ?thesis by blast
  qed
qed simp

lemma plan_actions_stored:
  assumes "plan_actions env pool acts (t, plan) = ((t', plan'), Inr ())" and "\<forall>a \<in> set acts. closed_ok N a" and "table_ok t"
    and "\<forall>h b. pe_wr env h = Inr b \<longrightarrow> pe_rd env b = Inr h"
    and "\<forall>x \<in> set (concat (map buffered_rows acts)). retention_ok (snd (snd x))"
    and "inj_on fst (set (concat (map buffered_rows acts)))" and "x \<in> set (concat (map buffered_rows acts))"
  shows "row_stored (pe_rd env) pool t' x"
  using assms
proof (induction acts arbitrary: t plan)
  case (Cons a acts)
  obtain t1 plan1 where a: "plan_action env pool a (t, plan) = ((t1, plan1), Inr ())" and rest: "plan_actions env pool acts (t1, plan1) = ((t', plan'), Inr ())"
    using Cons.prems(1) by (cases "plan_action env pool a (t, plan)") (auto split: sum.splits)
  have A: "table_ok t1" "\<forall>x \<in> set (buffered_rows a). row_stored (pe_rd env) pool t1 x"
    using plan_action_table [OF a _ Cons.prems(3)] Cons.prems(2,4,5) by auto
  show ?case
  proof (cases "x \<in> set (concat (map buffered_rows acts))")
    case True
    have "inj_on fst (set (concat (map buffered_rows acts)))" using Cons.prems(6) by (rule inj_on_subset) auto
    then show ?thesis using Cons.IH [OF rest _ A(1) Cons.prems(4)] Cons.prems(2,5) True by auto
  next
    case False
    then have x: "x \<in> set (buffered_rows a)" using Cons.prems(7) by auto
    have "fst x \<notin> fst ` set (concat (map buffered_rows acts))"
    proof
      assume "fst x \<in> fst ` set (concat (map buffered_rows acts))"
      then obtain y where y: "y \<in> set (concat (map buffered_rows acts))" "fst x = fst y" by blast
      then have "x = y" using inj_onD [OF Cons.prems(6) y(2)] x by simp
      then show False using False y(1) by blast
    qed
    moreover have "same_but pool (\<lambda>p. p \<in> fst ` set (concat (map buffered_rows acts))) t1 t'"
      using plan_actions_table [OF rest _ A(1)] Cons.prems(2) by auto
    ultimately show ?thesis using row_stored_kept A(2) x by blast
  qed
qed simp

lemma clean_up_ok:
  assumes "clean_up fault pool (concat (map fed_span rss)) t = (t', res)" and "table_ok t" and "\<forall>rows \<in> set rss. one_shard rows"
  shows "table_ok t' \<and> same_but pool (\<lambda>p. p \<in> fst ` set (concat rss)) t t'"
  using assms
proof (induction rss arbitrary: t)
  case (Cons rows rss)
  show ?case
  proof (cases "rows = []")
    case True
    then show ?thesis using Cons.IH [of t] Cons.prems by (simp add: fed_span_def)
  next
    case False
    obtain q where q: "run_from q rows" using Cons.prems(3) by (auto simp: one_shard_def)
    obtain t1 r where d: "delete_rows_in fault pool (shard_of (fst (hd rows))) (fst (hd rows), fst (last rows) + 1) t = (t1, r)" by force
    have fs: "fed_span rows = [(shard_of (fst (hd rows)), fst (hd rows), fst (last rows) + 1)]" using False by (simp add: fed_span_def)
    have "fst (hd rows) = q" using q False by (cases rows) auto
    then have here: "p \<in> fst ` set rows" if "fst (hd rows) \<le> p" "p < fst (last rows) + 1" for p
      using run_from_pos [OF q] run_from_last [OF q False] that by (metis atLeastLessThan_iff set_map set_upt)
    have A: "table_ok t1" using delete_rows_ok [OF d Cons.prems(2)] by blast
    have B: "same_but pool (\<lambda>p. p \<in> fst ` set rows) t t1"
      by (rule same_but_mono [OF conjunct2 [OF delete_rows_ok [OF d Cons.prems(2)]]]) (use here in simp)
    show ?thesis
    proof (cases r)
      case (Inl e)
      then have "t' = t1" using Cons.prems(1) d by (simp add: fs)
      then show ?thesis using A by (auto intro!: same_but_mono [OF B])
    next
      case (Inr u)
      then have "clean_up fault pool (concat (map fed_span rss)) t1 = (t', res)" using Cons.prems(1) d by (simp add: fs)
      then have R: "table_ok t'" "same_but pool (\<lambda>p. p \<in> fst ` set (concat rss)) t1 t'" using Cons.IH A Cons.prems(3) by auto
      have "same_but pool (\<lambda>p. p \<in> fst ` set (concat (rows # rss))) t t'"
        by (rule same_but_mono [OF same_but_trans [OF B R(2)]]) auto
      with R(1) show ?thesis by blast
    qed
  qed
qed simp

lemma seed_or_kept:
  assumes "(case acc of Some a \<Rightarrow> (t, Inr a) | None \<Rightarrow> seed_pool env pool start leaf n t) = (t1, res)" and "table_ok t"
    and "case acc of None \<Rightarrow> (\<forall>x. row_stored (pe_rd env) pool t x \<longrightarrow> fst x < start \<longrightarrow> fst x \<notin> N)
         | Some a \<Rightarrow> acc_ready env pool N start t a"
  shows "table_ok t1 \<and> same_but pool (fed_at start n) t t1 \<and>
    (\<forall>a. res = Inr a \<longrightarrow> acc_ready env pool N start t1 a \<and> (\<forall>x \<in> set (pending_rows (sa_open a)). row_stored (pe_rd env) pool t x))"
proof (cases acc)
  case None
  have "fst x \<notin> N" if "row_stored (pe_rd env) pool t x" "fst x < start" for x
    using assms(3) that unfolding None option.case by blast
  then show ?thesis by (rule seed_pool_ok [OF assms(1) [unfolded None option.case] assms(2)])
next
  case (Some a)
  then show ?thesis using assms by (auto simp: acc_ready_def)
qed

lemma fed_rows_at: "x \<in> set (at_positions start stream) \<Longrightarrow> fed_at start (length stream) (fst x) \<and> snd x \<in> set stream"
  using run_from_bounds [OF at_positions_run(1), of x start stream] in_set_enumerate_eq [of x start stream]
    nth_mem [of "fst x - start" stream]
  by (auto simp: at_positions_run(2) fed_at_def at_positions_def)

text \<open>
  C22.  One plan, the table it leaves included: no row of the buffer outside the positions this call scans
  is touched, also when the plan fails half way.
\<close>

theorem plan_touches_only_fed:
  assumes t: "table_ok t"
    and acc: "case acc of None \<Rightarrow> (\<forall>x. row_stored (pe_rd env) pool t x \<longrightarrow> fst x < start \<longrightarrow> fst x \<notin> N)
         | Some a \<Rightarrow> acc_ready env pool N start t a"
    and told: "\<forall>p \<in> N. fed_at start (length stream) p \<longrightarrow> p \<in> set nts"
    and plan: "plan_pool env pool start leaf stream nts (acc, t) = ((acc', t'), res)"
  shows "table_ok t' \<and> same_but pool (fed_at start (length stream)) t t'"
proof -
  obtain t1 r where s: "(case acc of Some a \<Rightarrow> (t, Inr a) | None \<Rightarrow> seed_pool env pool start leaf (length stream) t) = (t1, r)" by force
  note S = seed_or_kept [OF s t acc]
  note P = plan [unfolded plan_pool_def fst_conv snd_conv s]
  show ?thesis
  proof (cases r)
    case (Inl e)
    then show ?thesis using P S by auto
  next
    case (Inr a)
    then have ready: "acc_ready env pool N start t1 a" using S by blast
    then obtain o' where o': "sa_open a = Some o'" "open_ok start N o'" by (auto simp: acc_ready_def)
    obtain opened acts where f: "feed_spans start stream nts (Some o') = (opened, acts)" by force
    obtain t2 plan2 r2 where pa: "plan_actions env pool acts (t1, empty_plan) = ((t2, plan2), r2)" by (metis surj_pair)
    have t': "t' = t2" using P pa f o'(1) Inr by (auto simp: acc_feed_def split: sum.splits)
    have closed: "\<forall>a \<in> set acts. closed_ok N a"
      using feed_closes [OF f refl o'(2)] told by (auto simp: fed_at_def)
    have T: "table_ok t2 \<and> same_but pool (\<lambda>p. p \<in> fst ` set (concat (map buffered_rows acts))) t1 t2"
      using plan_actions_table [OF pa closed] S by blast
    have "same_but pool (fed_at start (length stream)) t t2"
      by (rule same_but_mono [OF same_but_trans [OF conjunct1 [OF conjunct2 [OF S]] conjunct2 [OF T]]])
        (use feed_conserves [OF f] fed_rows_at in blast)
    then show ?thesis using T t' by blast
  qed
qed

lemma built_split:
  "mset (concat (map built_rows acts)) =
   mset (concat (map built_rows (filter (\<lambda>a. graft_of env a = None) acts))) +
   mset (concat (map built_rows (filter (\<lambda>a. graft_of env a \<noteq> None) acts)))"
  by (induction acts) auto

lemma graft_of_Some: "graft_of env a = Some g \<Longrightarrow> closed_ok N a \<Longrightarrow> x \<in> set (built_rows a) \<Longrightarrow>
    shard_of (fst x) = fst g \<and> fst x \<notin> N \<and> \<not> contains_anchor (pe_anchor_retention env) [x]"
  by (cases a) (auto simp: contains_anchor_def split: if_splits sum.splits option.splits)

lemma graft_of_server: "graft_of env a = Some (i, rt) \<Longrightarrow> pe_server_root env i = Inr (Some rt)"
  by (cases a) (auto split: if_splits sum.splits option.splits)

lemma set_map_filter: "set (List.map_filter f xs) = {y. \<exists>x \<in> set xs. f x = Some y}"
  by (auto simp: map_filter_def image_iff) force+

lemma grafted_rows:
  assumes "pn_grafts plan = List.map_filter (graft_of env) acts" and "\<forall>a \<in> set acts. closed_ok N a"
  shows "\<forall>x \<in> set (concat (map built_rows (filter (\<lambda>a. graft_of env a \<noteq> None) acts))).
      shard_of (fst x) \<in> fst ` set (pn_grafts plan) \<and> fst x \<notin> N \<and> \<not> contains_anchor (pe_anchor_retention env) [x]"
    and "\<forall>(i, rt) \<in> set (pn_grafts plan). pe_server_root env i = Inr (Some rt)"
proof -
  show "\<forall>(i, rt) \<in> set (pn_grafts plan). pe_server_root env i = Inr (Some rt)"
    unfolding assms(1) set_map_filter using graft_of_server by auto
  show "\<forall>x \<in> set (concat (map built_rows (filter (\<lambda>a. graft_of env a \<noteq> None) acts))).
      shard_of (fst x) \<in> fst ` set (pn_grafts plan) \<and> fst x \<notin> N \<and> \<not> contains_anchor (pe_anchor_retention env) [x]"
  proof
    fix x assume "x \<in> set (concat (map built_rows (filter (\<lambda>a. graft_of env a \<noteq> None) acts)))"
    then obtain b g where b: "b \<in> set acts" "graft_of env b = Some g" "x \<in> set (built_rows b)" by auto
    then have "g \<in> set (pn_grafts plan)" unfolding assms(1) set_map_filter by blast
    then show "shard_of (fst x) \<in> fst ` set (pn_grafts plan) \<and> fst x \<notin> N \<and> \<not> contains_anchor (pe_anchor_retention env) [x]"
      using graft_of_Some [OF b(2) _ b(3)] assms(2) b(1) by (metis imageI)
  qed
qed

lemma pending_stored:
  assumes f: "feed_spans start stream nts (Some o') = (opened, acts)" and o': "open_ok start N o'" "\<forall>x \<in> set (os_rows o'). row_stored (pe_rd env) pool t1 x"
    and F: "(\<exists>o''. opened = Some o'' \<and> open_ok (start + length stream) N o'') \<and> (\<forall>a \<in> set acts. closed_ok N a)"
    and pa: "plan_actions env pool acts (t1, empty_plan) = ((t', plan), Inr ())" and t1: "table_ok t1"
    and ser: "\<forall>h b. pe_wr env h = Inr b \<longrightarrow> pe_rd env b = Inr h" and heights: "\<forall>x \<in> set stream. retention_ok (snd x)"
    and x: "x \<in> set (pending_rows opened)"
    and CU: "same_but pool (\<lambda>p. p \<in> fst ` set (concat (map built_rows acts))) t' t''"
  shows "row_stored (pe_rd env) pool t'' x"
proof -
  let ?B = "concat (map buffered_rows acts)"
  note C = feed_conserves [OF f, unfolded pending_rows_simps]
  obtain q where q: "run_from q (os_rows o')" "q + length (os_rows o') = start" using o'(1) by (auto simp: open_ok_def)
  then have "run_from q (concat (map built_rows acts) @ pending_rows opened)"
    using C by (simp add: run_from_append at_positions_run)
  from run_from_pos [OF this] have "distinct (map fst (concat (map built_rows acts) @ pending_rows opened))" by simp
  then have nb: "fst x \<notin> fst ` set (concat (map built_rows acts))" using x by auto
  have B: "set ?B \<subseteq> set (at_positions start stream)" using C by blast
  have "row_stored (pe_rd env) pool t' x"
  proof (cases "x \<in> set ?B")
    case True
    have "distinct (map fst (at_positions start stream))" using run_from_pos [OF at_positions_run(1), of start stream] by simp
    then have "inj_on fst (set ?B)" using B by (auto simp: distinct_map intro: inj_on_subset)
    then show ?thesis
      using plan_actions_stored [OF pa conjunct2 [OF F] t1 ser _ _ True] B heights fed_rows_at by blast
  next
    case False
    then have xo: "x \<in> set (os_rows o')" using C x by blast
    then have "fst x < start" using run_from_bounds [OF q(1)] q(2) by blast
    then have "fst x \<notin> fst ` set ?B" using B fed_rows_at [of _ start stream] by (force simp: fed_at_def)
    then show ?thesis using row_stored_kept o'(2) xo plan_actions_table [OF pa conjunct2 [OF F] t1] by blast
  qed
  then show ?thesis using row_stored_kept [OF _ CU nb] by blast
qed


definition sample_env :: "bytes plan_env" where
  "sample_env = \<lparr>pe_fault = (\<lambda>_. None), pe_wr = Inr, pe_rd = Inr, pe_verify_sample = 0, pe_store_has_shard = (\<lambda>_. False),
     pe_tree_refuses = (\<lambda>_. None), pe_server_root = (\<lambda>i. Inr (Some [5])), pe_anchor_retention = None\<rparr>"

definition sample_table :: graft_table where
  "sample_table = [((2, 0, 65534), [7], 0, None, None), ((3, 0, 65535), [6], 0, None, None)]"

lemmas sample_eval = plan_pool_def seed_pool_def load_for_seed_def load_shard_def shard_rows_def sample_env_def sample_table_def
  decode_retention_def shard_of_def SHARD_BITS_def resumable_run_def acc_seed_def acc_feed_def feed_spans_more span_len_def
  enter_shard_def take_span_def append_rows_def empty_plan_def contains_anchor_def delete_rows_in_def Let_def fed_span_def rows_to_segment_def

lemma sample_plan:
  "plan_pool sample_env SaplingPool 65535 (Some (65534, [7])) [([8], Ephemeral), ([9], Marked)] [65536] (None, sample_table) =
   ((Some \<lparr>sa_next = 65537, sa_open = Some \<lparr>os_index = 1, os_rows = [], os_passthrough = True\<rparr>\<rparr>,
     [((2, 0, 65534), [7], 0, None, None), ((2, 0, 65535), [8], 0, None, None), ((3, 0, 65535), [6], 0, None, None)]),
    Inr \<lparr>pn_segments = [(65536, [Some ([9], Marked)])], pn_grafts = [(0, [5])], pn_cleanup_spans = [(0, 65534, 65536), (1, 65536, 65537)],
         pn_fallbacks = 0, pn_verify_roots = []\<rparr>)"
  by (simp add: sample_eval)

lemma sample_table_ok: "table_ok sample_table"
  by (auto simp: table_ok_def sample_table_def bt_sorted_def shard_of_def SHARD_BITS_def split: if_splits)


theorem plan_touches_only_fed_witness:
  "\<exists>acc' t'.
     plan_pool (sample_env\<lparr>pe_fault := \<lambda>s. case s of GAppend _ _ \<Rightarrow> Some ''disk full'' | _ \<Rightarrow> None\<rparr>) SaplingPool 65535 (Some (65534, [7]))
       [([8], Ephemeral), ([9], Marked)] [65536] (None, sample_table) = ((acc', t'), Inl (OtherSqlite ''disk full'')) \<and>
     table_ok t' \<and> same_but SaplingPool (fed_at 65535 2) sample_table t'"
proof -
  let ?env = "sample_env\<lparr>pe_fault := \<lambda>s. case s of GAppend _ _ \<Rightarrow> Some ''disk full'' | _ \<Rightarrow> None\<rparr>"
  obtain acc' t' where p: "plan_pool ?env SaplingPool 65535 (Some (65534, [7])) [([8], Ephemeral), ([9], Marked)] [65536] (None, sample_table) =
      ((acc', t'), Inl (OtherSqlite ''disk full''))" by (simp add: sample_eval)
  have "table_ok t' \<and> same_but SaplingPool (fed_at 65535 (length [([8] :: bytes, Ephemeral), ([9], Marked)])) sample_table t'"
    by (rule plan_touches_only_fed [OF sample_table_ok _ _ p, where N = "{65536}"]) (auto simp: sample_env_def)
  then show ?thesis using p by (auto simp: numeral_2_eq_2)
qed

end
