(* ===== verification/Slip_Store.thy ===== *)
theory Slip_Store
  imports Slip_Buffer
begin

text \<open>
  The in-memory shard store a range works on (\<open>SparseShardStore\<close> in \<open>src/core/src/persist.rs\<close>): its
  operations, its loading from the wallet's tree store and its flush back, the repair of flooded
  checkpoints, and the checkpoints a call decides not to create at all.

  Trees, their caps and the wallet's tree store are other crates' and are type parameters:
  \<open>tree_db\<close> has the calls made of the wallet's store.  What is assumed of them is \<open>tree_db_contract\<close>.
\<close>

section \<open>The store\<close>

datatype sparse_store_error = NotPreloaded nat | Unsupported string

record ('ts, 'mr) checkpoint =
  tree_state :: 'ts
  marks_removed :: 'mr

record ('t, 'c, 'ts, 'mr) sparse_store =
  ss_shard_level :: nat
  ss_db_shard_indices :: "nat set"
  ss_shards :: "(nat \<times> 't) list"
  ss_dirty_shards :: "nat set"
  ss_cap :: 'c
  ss_cap_dirty :: bool
  ss_checkpoints :: "(nat \<times> ('ts, 'mr) checkpoint) list"
  ss_db_checkpoints :: "(nat \<times> ('ts, 'mr) checkpoint) list"
  ss_retained :: "nat set"

definition store_new :: "'c \<Rightarrow> nat \<Rightarrow> ('t, 'c, 'ts, 'mr) sparse_store" where
  "store_new empty_cap shard_height =
     \<lparr>ss_shard_level = shard_height, ss_db_shard_indices = {}, ss_shards = [], ss_dirty_shards = {}, ss_cap = empty_cap,
      ss_cap_dirty = False, ss_checkpoints = [], ss_db_checkpoints = [], ss_retained = {}\<rparr>"

text \<open>\<open>is_leaf t\<close>: the root of the shard's tree is a leaf.\<close>

definition shard_has_interior :: "('t \<Rightarrow> bool) \<Rightarrow> nat \<Rightarrow> ('t, 'c, 'ts, 'mr) sparse_store \<Rightarrow> bool" where
  "shard_has_interior is_leaf idx s =
     (case map_of (ss_shards s) idx of Some t \<Rightarrow> \<not> is_leaf t | None \<Rightarrow> idx \<in> ss_db_shard_indices s)"

definition get_shard :: "nat \<Rightarrow> ('t, 'c, 'ts, 'mr) sparse_store \<Rightarrow> sparse_store_error + 't option" where
  "get_shard idx s =
     (case map_of (ss_shards s) idx of
        Some t \<Rightarrow> Inr (Some t)
      | None \<Rightarrow> if idx \<in> ss_db_shard_indices s then Inl (NotPreloaded idx) else Inr None)"

definition last_shard :: "('t, 'c, 'ts, 'mr) sparse_store \<Rightarrow> 't option" where
  "last_shard s = (if ss_shards s = [] then None else Some (snd (last (ss_shards s))))"

definition put_shard :: "('t \<Rightarrow> nat) \<Rightarrow> 't \<Rightarrow> ('t, 'c, 'ts, 'mr) sparse_store \<Rightarrow> ('t, 'c, 'ts, 'mr) sparse_store" where
  "put_shard index_of subtree s =
     s\<lparr>ss_shards := bt_insert (index_of subtree) subtree (ss_shards s),
       ss_dirty_shards := insert (index_of subtree) (ss_dirty_shards s)\<rparr>"

definition get_shard_roots :: "('t, 'c, 'ts, 'mr) sparse_store \<Rightarrow> (nat \<times> nat) list" where
  "get_shard_roots s =
     map (Pair (ss_shard_level s)) (sorted_list_of_set (ss_db_shard_indices s \<union> set (map fst (ss_shards s))))"

definition truncate_shards :: "nat \<Rightarrow> sparse_store_error + unit" where
  "truncate_shards _ = Inl (Unsupported ''truncate_shards'')"

definition put_cap :: "'c \<Rightarrow> ('t, 'c, 'ts, 'mr) sparse_store \<Rightarrow> ('t, 'c, 'ts, 'mr) sparse_store" where
  "put_cap cap s = s\<lparr>ss_cap := cap, ss_cap_dirty := True\<rparr>"

definition min_checkpoint_id :: "('t, 'c, 'ts, 'mr) sparse_store \<Rightarrow> nat option" where
  "min_checkpoint_id s = (case ss_checkpoints s of [] \<Rightarrow> None | (cid, _) # _ \<Rightarrow> Some cid)"

definition max_checkpoint_id :: "('t, 'c, 'ts, 'mr) sparse_store \<Rightarrow> nat option" where
  "max_checkpoint_id s = (if ss_checkpoints s = [] then None else Some (fst (last (ss_checkpoints s))))"

definition add_checkpoint :: "nat \<Rightarrow> ('ts, 'mr) checkpoint \<Rightarrow> ('t, 'c, 'ts, 'mr) sparse_store \<Rightarrow> ('t, 'c, 'ts, 'mr) sparse_store" where
  "add_checkpoint cid cp s = s\<lparr>ss_checkpoints := bt_insert cid cp (ss_checkpoints s)\<rparr>"

definition checkpoint_count :: "('t, 'c, 'ts, 'mr) sparse_store \<Rightarrow> nat" where
  "checkpoint_count s = length (ss_checkpoints s)"

definition get_checkpoint_at_depth :: "nat \<Rightarrow> ('t, 'c, 'ts, 'mr) sparse_store \<Rightarrow> (nat \<times> ('ts, 'mr) checkpoint) option" where
  "get_checkpoint_at_depth depth s =
     (if depth < length (ss_checkpoints s) then Some (rev (ss_checkpoints s) ! depth) else None)"

definition get_checkpoint :: "nat \<Rightarrow> ('t, 'c, 'ts, 'mr) sparse_store \<Rightarrow> ('ts, 'mr) checkpoint option" where
  "get_checkpoint cid s = map_of (ss_checkpoints s) cid"

text \<open>The checkpoints a callback is called with, in order, unless one of them fails.\<close>

definition for_each_checkpoint :: "nat \<Rightarrow> ('t, 'c, 'ts, 'mr) sparse_store \<Rightarrow> (nat \<times> ('ts, 'mr) checkpoint) list" where
  "for_each_checkpoint limit s = take limit (ss_checkpoints s)"

definition update_checkpoint_with :: "nat \<Rightarrow> (('ts, 'mr) checkpoint \<Rightarrow> ('ts, 'mr) checkpoint \<times> (sparse_store_error + unit)) \<Rightarrow>
    ('t, 'c, 'ts, 'mr) sparse_store \<Rightarrow> ('t, 'c, 'ts, 'mr) sparse_store \<times> (sparse_store_error + bool)" where
  "update_checkpoint_with cid update s =
     (case map_of (ss_checkpoints s) cid of
        None \<Rightarrow> (s, Inr False)
      | Some cp \<Rightarrow>
          (case update cp of
             (cp', r) \<Rightarrow> (s\<lparr>ss_checkpoints := bt_insert cid cp' (ss_checkpoints s)\<rparr>,
                          case r of Inl e \<Rightarrow> Inl e | Inr _ \<Rightarrow> Inr True)))"

definition remove_checkpoint :: "nat \<Rightarrow> ('t, 'c, 'ts, 'mr) sparse_store \<Rightarrow> ('t, 'c, 'ts, 'mr) sparse_store" where
  "remove_checkpoint cid s = s\<lparr>ss_checkpoints := bt_remove cid (ss_checkpoints s)\<rparr>"

definition add_retained_checkpoint :: "nat \<Rightarrow> ('t, 'c, 'ts, 'mr) sparse_store \<Rightarrow> ('t, 'c, 'ts, 'mr) sparse_store" where
  "add_retained_checkpoint cid s = s\<lparr>ss_retained := insert cid (ss_retained s)\<rparr>"

definition remove_retained_checkpoint :: "nat \<Rightarrow> ('t, 'c, 'ts, 'mr) sparse_store \<Rightarrow> ('t, 'c, 'ts, 'mr) sparse_store" where
  "remove_retained_checkpoint cid s = s\<lparr>ss_retained := ss_retained s - {cid}\<rparr>"

definition truncate_checkpoints_retaining :: "nat \<Rightarrow> sparse_store_error + unit" where
  "truncate_checkpoints_retaining _ = Inl (Unsupported ''truncate_checkpoints_retaining'')"

definition checkpoint_delta :: "('t, 'c, 'ts, 'mr) sparse_store \<Rightarrow> nat list \<times> (nat \<times> ('ts, 'mr) checkpoint) list" where
  "checkpoint_delta s =
     (let changed = (\<lambda>(h, db_cp). case map_of (ss_checkpoints s) h of
                       None \<Rightarrow> False
                     | Some mem_cp \<Rightarrow> tree_state mem_cp \<noteq> tree_state db_cp \<or> marks_removed mem_cp \<noteq> marks_removed db_cp);
          gone = (\<lambda>(h, _). map_of (ss_checkpoints s) h = None)
      in (map fst (filter (\<lambda>x. gone x \<or> changed x) (ss_db_checkpoints s)),
          map (\<lambda>(h, _). (h, the (map_of (ss_checkpoints s) h))) (filter changed (ss_db_checkpoints s)) @
          filter (\<lambda>(h, _). map_of (ss_db_checkpoints s) h = None) (ss_checkpoints s)))"

section \<open>Loading and flushing\<close>

record ('d, 't, 'c, 'ts, 'mr) tree_db =
  td_shard_roots :: "'d \<Rightarrow> sqlite_error + nat list"
  td_checkpoint_count :: "'d \<Rightarrow> sqlite_error + nat"
  td_for_each_checkpoint :: "nat \<Rightarrow> 'd \<Rightarrow> sqlite_error + (nat \<times> ('ts, 'mr) checkpoint) list"
  td_get_shard :: "nat \<Rightarrow> 'd \<Rightarrow> sqlite_error + 't option"
  td_get_cap :: "'d \<Rightarrow> sqlite_error + 'c"
  td_put_shards :: "'t list \<Rightarrow> 'c option \<Rightarrow> nat list \<Rightarrow> (nat \<times> ('ts, 'mr) checkpoint) list \<Rightarrow> 'd \<Rightarrow> sqlite_error + 'd"
  td_ensure_retained :: "nat \<Rightarrow> 'd \<Rightarrow> sqlite_error + 'd"

fun load_shards :: "('d, 't, 'c, 'ts, 'mr) tree_db \<Rightarrow> nat list \<Rightarrow> 'd \<Rightarrow> (nat \<times> 't) list \<Rightarrow> sqlite_error + (nat \<times> 't) list" where
  "load_shards db [] d m = Inr m"
| "load_shards db (idx # roots) d m =
     (case td_get_shard db idx d of
        Inl e \<Rightarrow> Inl e
      | Inr None \<Rightarrow> load_shards db roots d m
      | Inr (Some t) \<Rightarrow> load_shards db roots d (bt_insert idx t m))"

definition seed_store :: "('d, 't, 'c, 'ts, 'mr) tree_db \<Rightarrow> 'c \<Rightarrow> nat \<Rightarrow> (nat \<Rightarrow> bool) option \<Rightarrow> 'd \<Rightarrow>
    sqlite_error + ('t, 'c, 'ts, 'mr) sparse_store" where
  "seed_store db empty_cap shard_height anchor_floor d =
     (let store = store_new empty_cap shard_height
      in case td_shard_roots db d of Inl e \<Rightarrow> Inl e | Inr roots \<Rightarrow>
         (case td_checkpoint_count db d of Inl e \<Rightarrow> Inl e | Inr n \<Rightarrow>
         (case td_for_each_checkpoint db n d of Inl e \<Rightarrow> Inl e | Inr visited \<Rightarrow>
          (let cps = fold (\<lambda>(h, cp). bt_insert h cp) visited []
           in case load_shards db roots d [] of Inl e \<Rightarrow> Inl e | Inr shards \<Rightarrow>
              (case td_get_cap db d of Inl e \<Rightarrow> Inl e | Inr cap \<Rightarrow>
                 Inr (store\<lparr>ss_db_shard_indices := set roots, ss_shards := shards, ss_cap := cap,
                            ss_checkpoints := cps, ss_db_checkpoints := cps,
                            ss_retained := {h \<in> set (map fst cps). should_retain_anchor anchor_floor h}\<rparr>))))))"

fun dirty_trees :: "nat list \<Rightarrow> (nat \<times> 't) list \<Rightarrow> sqlite_error + 't list" where
  "dirty_trees [] shards = Inr []"
| "dirty_trees (idx # idxs) shards =
     (case map_of shards idx of
        None \<Rightarrow> Inl (OtherSqlite (''dirty shard '' @ nat_str idx @ '' missing from memory''))
      | Some t \<Rightarrow> map_sum id (Cons t) (dirty_trees idxs shards))"

fun ensure_all_retained :: "('d, 't, 'c, 'ts, 'mr) tree_db \<Rightarrow> nat list \<Rightarrow> 'd \<Rightarrow> sqlite_error + 'd" where
  "ensure_all_retained db [] d = Inr d"
| "ensure_all_retained db (h # hs) d =
     (case td_ensure_retained db h d of Inl e \<Rightarrow> Inl e | Inr d' \<Rightarrow> ensure_all_retained db hs d')"

definition flush_store :: "('d, 't, 'c, 'ts, 'mr) tree_db \<Rightarrow> ('t, 'c, 'ts, 'mr) sparse_store \<Rightarrow> 'd \<Rightarrow>
    sqlite_error + ('t, 'c, 'ts, 'mr) sparse_store \<times> 'd" where
  "flush_store db s d =
     (case checkpoint_delta s of (remove, add) \<Rightarrow>
        (case dirty_trees (sorted_list_of_set (ss_dirty_shards s)) (ss_shards s) of
           Inl e \<Rightarrow> Inl e
         | Inr shards \<Rightarrow>
             (case td_put_shards db shards (if ss_cap_dirty s then Some (ss_cap s) else None) remove add d of
                Inl e \<Rightarrow> Inl e
              | Inr d1 \<Rightarrow>
                  (case ensure_all_retained db (filter (\<lambda>h. h \<in> ss_retained s) (map fst add)) d1 of
                     Inl e \<Rightarrow> Inl e
                   | Inr d2 \<Rightarrow>
                       Inr (s\<lparr>ss_db_checkpoints := ss_checkpoints s, ss_dirty_shards := {}, ss_cap_dirty := False\<rparr>, d2)))))"

section \<open>The store is a write-back cache\<close>

record ('t, 'c, 'ts, 'mr) tree_view =
  tv_shards :: "nat \<rightharpoonup> 't"
  tv_cap :: 'c
  tv_checkpoints :: "nat \<rightharpoonup> ('ts, 'mr) checkpoint"
  tv_retained :: "nat set"

text \<open>
  The wallet's tree store, seen through \<open>view\<close>: reads return what it holds, a put replaces the shards
  given, the cap if given, removes the checkpoints to remove and then adds those to add.
\<close>

definition reads_contract :: "('d, 't, 'c, 'ts, 'mr) tree_db \<Rightarrow> ('t \<Rightarrow> nat) \<Rightarrow> ('d \<Rightarrow> ('t, 'c, 'ts, 'mr) tree_view) \<Rightarrow> bool" where
  "reads_contract db index_of view \<longleftrightarrow>
     (\<forall>d. finite (dom (tv_shards (view d))) \<and> (\<forall>i t. tv_shards (view d) i = Some t \<longrightarrow> index_of t = i)) \<and>
     (\<forall>d roots. td_shard_roots db d = Inr roots \<longrightarrow> set roots = dom (tv_shards (view d))) \<and>
     (\<forall>d i t. td_get_shard db i d = Inr t \<longrightarrow> t = tv_shards (view d) i) \<and>
     (\<forall>d c. td_get_cap db d = Inr c \<longrightarrow> c = tv_cap (view d)) \<and>
     (\<forall>d n xs. td_checkpoint_count db d = Inr n \<longrightarrow> td_for_each_checkpoint db n d = Inr xs \<longrightarrow>
        distinct (map fst xs) \<and> map_of xs = tv_checkpoints (view d))"

definition writes_contract :: "('d, 't, 'c, 'ts, 'mr) tree_db \<Rightarrow> ('t \<Rightarrow> nat) \<Rightarrow> ('d \<Rightarrow> ('t, 'c, 'ts, 'mr) tree_view) \<Rightarrow> bool" where
  "writes_contract db index_of view \<longleftrightarrow>
     (\<forall>ts cap rm add d d'. distinct (map index_of ts) \<longrightarrow> distinct (map fst add) \<longrightarrow> td_put_shards db ts cap rm add d = Inr d' \<longrightarrow>
        view d' = (view d)\<lparr>tv_shards := tv_shards (view d) ++ map_of (map (\<lambda>t. (index_of t, t)) ts),
                           tv_cap := (case cap of None \<Rightarrow> tv_cap (view d) | Some c \<Rightarrow> c),
                           tv_checkpoints := (tv_checkpoints (view d) |` (- set rm)) ++ map_of add\<rparr>) \<and>
     (\<forall>h d d'. td_ensure_retained db h d = Inr d' \<longrightarrow> view d' = (view d)\<lparr>tv_retained := insert h (tv_retained (view d))\<rparr>)"

datatype ('t, 'c, 'ts, 'mr) tree_write =
    PutShard 't
  | PutCap 'c
  | AddCheckpoint nat "('ts, 'mr) checkpoint"
  | UpdateCheckpoint nat "('ts, 'mr) checkpoint \<Rightarrow> ('ts, 'mr) checkpoint \<times> (sparse_store_error + unit)"
  | RemoveCheckpoint nat
  | Retain nat
  | Unretain nat

fun store_write :: "('t \<Rightarrow> nat) \<Rightarrow> ('t, 'c, 'ts, 'mr) tree_write \<Rightarrow> ('t, 'c, 'ts, 'mr) sparse_store \<Rightarrow> ('t, 'c, 'ts, 'mr) sparse_store" where
  "store_write index_of (PutShard t) s = put_shard index_of t s"
| "store_write index_of (PutCap c) s = put_cap c s"
| "store_write index_of (AddCheckpoint h cp) s = add_checkpoint h cp s"
| "store_write index_of (UpdateCheckpoint h f) s = fst (update_checkpoint_with h f s)"
| "store_write index_of (RemoveCheckpoint h) s = remove_checkpoint h s"
| "store_write index_of (Retain h) s = add_retained_checkpoint h s"
| "store_write index_of (Unretain h) s = remove_retained_checkpoint h s"

text \<open>The same write made on the wallet's store at once.\<close>

fun view_write :: "('t \<Rightarrow> nat) \<Rightarrow> ('t, 'c, 'ts, 'mr) tree_write \<Rightarrow> ('t, 'c, 'ts, 'mr) tree_view \<Rightarrow> ('t, 'c, 'ts, 'mr) tree_view" where
  "view_write index_of (PutShard t) v = v\<lparr>tv_shards := (tv_shards v)(index_of t \<mapsto> t)\<rparr>"
| "view_write index_of (PutCap c) v = v\<lparr>tv_cap := c\<rparr>"
| "view_write index_of (AddCheckpoint h cp) v = v\<lparr>tv_checkpoints := (tv_checkpoints v)(h \<mapsto> cp)\<rparr>"
| "view_write index_of (UpdateCheckpoint h f) v =
     v\<lparr>tv_checkpoints := (tv_checkpoints v)(h := map_option (\<lambda>cp. fst (f cp)) (tv_checkpoints v h))\<rparr>"
| "view_write index_of (RemoveCheckpoint h) v = v\<lparr>tv_checkpoints := (tv_checkpoints v)(h := None)\<rparr>"
| "view_write index_of (Retain h) v = v"
| "view_write index_of (Unretain h) v = v"

definition synced :: "('t \<Rightarrow> nat) \<Rightarrow> ('t, 'c, 'ts, 'mr) tree_view \<Rightarrow> ('t, 'c, 'ts, 'mr) sparse_store \<Rightarrow> bool" where
  "synced index_of v s \<longleftrightarrow>
     bt_sorted (ss_shards s) \<and> bt_sorted (ss_checkpoints s) \<and> bt_sorted (ss_db_checkpoints s) \<and>
     finite (ss_dirty_shards s) \<and> ss_dirty_shards s \<subseteq> dom (map_of (ss_shards s)) \<and>
     (\<forall>i t. map_of (ss_shards s) i = Some t \<longrightarrow> index_of t = i) \<and>
     (\<forall>i. i \<notin> ss_dirty_shards s \<longrightarrow> map_of (ss_shards s) i = tv_shards v i) \<and>
     (\<not> ss_cap_dirty s \<longrightarrow> ss_cap s = tv_cap v) \<and> map_of (ss_db_checkpoints s) = tv_checkpoints v"

definition mem_view :: "('t, 'c, 'ts, 'mr) sparse_store \<Rightarrow> ('t, 'c, 'ts, 'mr) tree_view \<Rightarrow> ('t, 'c, 'ts, 'mr) tree_view" where
  "mem_view s v = v\<lparr>tv_shards := map_of (ss_shards s), tv_cap := ss_cap s, tv_checkpoints := map_of (ss_checkpoints s)\<rparr>"

lemmas store_op_defs = put_shard_def put_cap_def add_checkpoint_def update_checkpoint_with_def remove_checkpoint_def
  add_retained_checkpoint_def remove_retained_checkpoint_def

lemma store_write_synced:
  "synced index_of v s \<Longrightarrow> synced index_of v (store_write index_of w s)"
  by (cases w) (auto simp: synced_def store_op_defs map_of_bt_insert bt_insert_sorted bt_remove_sorted split: option.splits prod.splits)

lemma store_write_view:
  "synced index_of v s \<Longrightarrow> mem_view (store_write index_of w s) v = view_write index_of w (mem_view s v)"
  by (cases w) (auto simp: synced_def mem_view_def store_op_defs map_of_bt_insert map_of_bt_remove fun_upd_idem split: option.splits prod.splits)

lemma store_writes:
  "synced index_of v s \<Longrightarrow> synced index_of v (fold (store_write index_of) ws s) \<and>
     mem_view (fold (store_write index_of) ws s) v = fold (view_write index_of) ws (mem_view s v)"
  by (induction ws arbitrary: s) (simp_all add: store_write_synced store_write_view)

lemma dirty_trees_ok:
  "dirty_trees idxs shards = Inr ts \<Longrightarrow> (\<And>i t. map_of shards i = Some t \<Longrightarrow> index_of t = i) \<Longrightarrow>
   map index_of ts = idxs \<and> map (\<lambda>t. (index_of t, t)) ts = map (\<lambda>i. (i, the (map_of shards i))) idxs"
  by (induction idxs arbitrary: ts) (auto split: option.splits sum.splits simp: map_sum_def)

lemma dirty_trees_total: "set idxs \<subseteq> dom (map_of shards) \<Longrightarrow> \<exists>ts. dirty_trees idxs shards = Inr ts"
  by (induction idxs) (auto split: option.splits)

lemma ensure_all_retained_view:
  "ensure_all_retained db hs d = Inr d' \<Longrightarrow> writes_contract db index_of view \<Longrightarrow>
   view d' = (view d)\<lparr>tv_retained := tv_retained (view d) \<union> set hs\<rparr>"
  by (induction hs arbitrary: d) (auto simp: writes_contract_def split: sum.splits)

lemma map_of_filter_key: "map_of (filter (\<lambda>(h, _). P h) m) h = (if P h then map_of m h else None)"
  by (induction m) auto

lemma map_of_rekey: "map_of (map (\<lambda>(h, _). (h, f h)) m) h = (if h \<in> fst ` set m then Some (f h) else None)"
  by (induction m) auto

text \<open>Removing and adding what the delta says makes of the checkpoints on disk those in memory.\<close>

lemma checkpoint_delta_ok:
  assumes "bt_sorted (ss_checkpoints s)" and "bt_sorted (ss_db_checkpoints s)" and "checkpoint_delta s = (rm, add)"
  shows "distinct (map fst add)"
    and "(map_of (ss_db_checkpoints s) |` (- set rm)) ++ map_of add = map_of (ss_checkpoints s)"
    and "h \<in> fst ` set add \<longleftrightarrow> (\<exists>cp. map_of (ss_checkpoints s) h = Some cp \<and> map_of (ss_db_checkpoints s) h \<noteq> Some cp)"
proof -
  let ?M = "map_of (ss_checkpoints s)" and ?D = "map_of (ss_db_checkpoints s)"
  let ?ch = "\<lambda>(h, db_cp). case ?M h of None \<Rightarrow> False | Some cp \<Rightarrow> tree_state cp \<noteq> tree_state db_cp \<or> marks_removed cp \<noteq> marks_removed db_cp"
  let ?new = "filter (\<lambda>(h, _). ?D h = None) (ss_checkpoints s)"
  let ?chg = "filter ?ch (ss_db_checkpoints s)"
  have rm: "rm = map fst (filter (\<lambda>x. (\<lambda>(h, _). ?M h = None) x \<or> ?ch x) (ss_db_checkpoints s))"
    and add: "add = map (\<lambda>(h, _). (h, the (?M h))) ?chg @ ?new" using assms(3) by (auto simp: checkpoint_delta_def Let_def)
  have in_D: "(h, x) \<in> set (ss_db_checkpoints s) \<longleftrightarrow> ?D h = Some x" for h x using assms(2) by (simp add: bt_map_of_iff)
  have ch: "h \<in> fst ` set ?chg \<longleftrightarrow> (\<exists>x y. ?D h = Some x \<and> ?M h = Some y \<and> x \<noteq> y)" for h
    by (force simp: in_D image_iff split: option.splits)
  have new: "h \<in> fst ` set ?new \<longleftrightarrow> ?D h = None \<and> (\<exists>y. ?M h = Some y)" for h
    using assms(1) by (force simp: bt_map_of_iff image_iff)
  show "distinct (map fst add)"
  proof -
    have e: "map fst add = map fst ?chg @ map fst ?new" unfolding add by (simp add: comp_def case_prod_beta)
    have "distinct (map fst ?chg)" "distinct (map fst ?new)"
      using bt_sorted_distinct bt_filter_sorted assms(1,2) by blast+
    moreover have "set (map fst ?chg) \<inter> set (map fst ?new) = {}" using ch new by fastforce
    ultimately show ?thesis unfolding e distinct_append by blast
  qed
  have ma: "map_of add h = (if ?D h = None then ?M h else if h \<in> fst ` set ?chg then ?M h else None)" for h
    unfolding add map_of_append map_add_def map_of_rekey map_of_filter_key using ch by (auto split: option.splits)
  show "(?D |` (- set rm)) ++ map_of add = ?M"
  proof
    fix h
    have "h \<in> set rm \<longleftrightarrow> (\<exists>x. ?D h = Some x \<and> ?M h \<noteq> Some x)"
      unfolding rm by (force simp: in_D image_iff split: option.splits)
    then show "((?D |` (- set rm)) ++ map_of add) h = ?M h"
      using ma [of h] ch [of h] by (cases "?D h"; cases "?M h") (auto simp: map_add_def restrict_map_def)
  qed
  have "h \<in> fst ` set add \<longleftrightarrow> h \<in> fst ` set ?chg \<or> h \<in> fst ` set ?new" unfolding add by (force simp: image_iff)
  then show "h \<in> fst ` set add \<longleftrightarrow> (\<exists>cp. ?M h = Some cp \<and> ?D h \<noteq> Some cp)"
    unfolding ch new by (cases "?D h") auto
qed

lemma flush_store_ok:
  assumes "flush_store db s d = Inr (s', d')" and sy: "synced index_of (view d) s" and w: "writes_contract db index_of view"
  shows "synced index_of (view d') s' \<and> mem_view s' (view d') = view d' \<and>
    view d' = (mem_view s (view d))\<lparr>tv_retained := tv_retained (view d) \<union>
      {h \<in> ss_retained s. \<exists>cp. map_of (ss_checkpoints s) h = Some cp \<and> tv_checkpoints (view d) h \<noteq> Some cp}\<rparr>"
proof -
  obtain rm add where de: "checkpoint_delta s = (rm, add)" by force
  let ?idxs = "sorted_list_of_set (ss_dirty_shards s)"
  let ?cap = "if ss_cap_dirty s then Some (ss_cap s) else None"
  obtain ts d1 where ts: "dirty_trees ?idxs (ss_shards s) = Inr ts" and d1: "td_put_shards db ts ?cap rm add d = Inr d1"
    and d2: "ensure_all_retained db (filter (\<lambda>h. h \<in> ss_retained s) (map fst add)) d1 = Inr d'"
    and s': "s' = s\<lparr>ss_db_checkpoints := ss_checkpoints s, ss_dirty_shards := {}, ss_cap_dirty := False\<rparr>"
    using assms(1) by (auto simp: flush_store_def de split: sum.splits)
  have sorted: "bt_sorted (ss_checkpoints s)" "bt_sorted (ss_db_checkpoints s)"
    and own: "\<And>i t. map_of (ss_shards s) i = Some t \<Longrightarrow> index_of t = i"
    and fin: "finite (ss_dirty_shards s)" and dirty: "ss_dirty_shards s \<subseteq> dom (map_of (ss_shards s))"
    and clean: "\<And>i. i \<notin> ss_dirty_shards s \<Longrightarrow> map_of (ss_shards s) i = tv_shards (view d) i"
    and cap: "\<not> ss_cap_dirty s \<Longrightarrow> ss_cap s = tv_cap (view d)" and dbc: "map_of (ss_db_checkpoints s) = tv_checkpoints (view d)"
    using sy unfolding synced_def by blast+
  note C = checkpoint_delta_ok [OF sorted de]
  have T: "map index_of ts = ?idxs" "map (\<lambda>t. (index_of t, t)) ts = map (\<lambda>i. (i, the (map_of (ss_shards s) i))) ?idxs"
    using dirty_trees_ok [OF ts, of index_of] own by blast+
  have dt: "distinct (map index_of ts)" unfolding T(1) by simp
  have v1: "view d1 = (view d)\<lparr>tv_shards := tv_shards (view d) ++ map_of (map (\<lambda>t. (index_of t, t)) ts),
      tv_cap := (case ?cap of None \<Rightarrow> tv_cap (view d) | Some c \<Rightarrow> c), tv_checkpoints := (tv_checkpoints (view d) |` (- set rm)) ++ map_of add\<rparr>"
    using conjunct1 [OF w [unfolded writes_contract_def]] d1 C(1) dt by blast
  have "tv_shards (view d) ++ map_of (map (\<lambda>i. (i, the (map_of (ss_shards s) i))) ?idxs) = map_of (ss_shards s)"
  proof
    fix i
    show "(tv_shards (view d) ++ map_of (map (\<lambda>i. (i, the (map_of (ss_shards s) i))) ?idxs)) i = map_of (ss_shards s) i"
      using fin dirty clean [of i] by (cases "i \<in> ss_dirty_shards s") (auto simp: map_add_def map_of_map_restrict restrict_map_def)
  qed
  moreover have "(case ?cap of None \<Rightarrow> tv_cap (view d) | Some c \<Rightarrow> c) = ss_cap s" using cap by simp
  moreover have "(tv_checkpoints (view d) |` (- set rm)) ++ map_of add = map_of (ss_checkpoints s)" using C(2) dbc by simp
  ultimately have v1': "view d1 = mem_view s (view d)" unfolding v1 T(2) mem_view_def by simp
  let ?new = "{h \<in> ss_retained s. \<exists>cp. map_of (ss_checkpoints s) h = Some cp \<and> tv_checkpoints (view d) h \<noteq> Some cp}"
  have "set (filter (\<lambda>h. h \<in> ss_retained s) (map fst add)) = {h \<in> ss_retained s. h \<in> fst ` set add}" by auto
  also have "\<dots> = ?new" unfolding C(3) dbc ..
  finally have v2: "view d' = (mem_view s (view d))\<lparr>tv_retained := tv_retained (mem_view s (view d)) \<union> ?new\<rparr>"
    using ensure_all_retained_view [OF d2 w] unfolding v1' by simp
  have "tv_retained (mem_view s (view d)) = tv_retained (view d)" by (simp add: mem_view_def)
  with v2 have v3: "view d' = (mem_view s (view d))\<lparr>tv_retained := tv_retained (view d) \<union> ?new\<rparr>" by simp
  have sh: "tv_shards (view d') = map_of (ss_shards s)" "tv_cap (view d') = ss_cap s" "tv_checkpoints (view d') = map_of (ss_checkpoints s)"
    unfolding v3 by (simp_all add: mem_view_def)
  have "synced index_of (view d') s'" using sy unfolding synced_def sh by (simp add: s')
  moreover have "mem_view s' (view d') = view d'" unfolding mem_view_def s' by (simp add: sh [symmetric])
  ultimately show ?thesis using v3 by blast
qed

lemma load_shards_ok:
  assumes "load_shards db roots d m = Inr m'" and "reads_contract db index_of view" and "bt_sorted m"
  shows "bt_sorted m' \<and> map_of m' = (\<lambda>i. if i \<in> set roots \<and> tv_shards (view d) i \<noteq> None then tv_shards (view d) i else map_of m i)"
  using assms
proof (induction roots arbitrary: m)
  case (Cons i roots)
  have g: "td_get_shard db i d = Inr t \<Longrightarrow> t = tv_shards (view d) i" for t using Cons.prems(2) unfolding reads_contract_def by blast
  obtain t where t: "td_get_shard db i d = Inr t" using Cons.prems(1) by (cases "td_get_shard db i d") auto
  show ?case
  proof (cases t)
    case None
    then have "load_shards db roots d m = Inr m'" using Cons.prems(1) t by simp
    then show ?thesis using Cons.IH [OF _ Cons.prems(2,3)] None g [OF t] by (auto simp: fun_eq_iff)
  next
    case (Some x)
    then have "load_shards db roots d (bt_insert i x m) = Inr m'" using Cons.prems(1) t by simp
    then show ?thesis using Cons.IH [OF _ Cons.prems(2) bt_insert_sorted [OF Cons.prems(3)]] Some g [OF t] Cons.prems(3)
      by (auto simp: fun_eq_iff map_of_bt_insert)
  qed
qed auto

lemma fold_bt_insert:
  "bt_sorted m \<Longrightarrow> bt_sorted (fold (\<lambda>(h, cp). bt_insert h cp) xs m) \<and>
   (distinct (map fst xs) \<longrightarrow> map_of (fold (\<lambda>(h, cp). bt_insert h cp) xs m) = map_of m ++ map_of xs)"
proof (induction xs arbitrary: m)
  case (Cons x xs)
  obtain h cp where x: "x = (h, cp)" by force
  have "map_of ((h, cp) # m) ++ map_of xs = map_of m ++ map_of (x # xs)" if "h \<notin> fst ` set xs"
    using that map_of_eq_None_iff [of xs h] by (auto simp: x map_add_def fun_eq_iff split: option.splits)
  then show ?case using Cons.IH [OF bt_insert_sorted [OF Cons.prems], of h cp] Cons.prems by (auto simp: x map_of_bt_insert fun_upd_def)
qed simp

lemma seed_store_ok:
  assumes "seed_store db empty_cap height anchor d = Inr s" and r: "reads_contract db index_of view"
  shows "synced index_of (view d) s \<and> mem_view s (view d) = view d"
proof -
  obtain roots n xs shards cap where st: "td_shard_roots db d = Inr roots" "td_checkpoint_count db d = Inr n"
      "td_for_each_checkpoint db n d = Inr xs" "load_shards db roots d [] = Inr shards" "td_get_cap db d = Inr cap"
    and s: "ss_shards s = shards" "ss_cap s = cap" "ss_checkpoints s = fold (\<lambda>(h, cp). bt_insert h cp) xs []"
      "ss_db_checkpoints s = fold (\<lambda>(h, cp). bt_insert h cp) xs []" "ss_dirty_shards s = {}" "\<not> ss_cap_dirty s"
    using assms(1) by (auto simp: seed_store_def store_new_def Let_def split: sum.splits)
  have v: "set roots = dom (tv_shards (view d))" "cap = tv_cap (view d)" "distinct (map fst xs)" "map_of xs = tv_checkpoints (view d)"
      "\<And>i t. tv_shards (view d) i = Some t \<Longrightarrow> index_of t = i"
    using r st unfolding reads_contract_def by blast+
  have E: "bt_sorted []" by (simp add: bt_sorted_def)
  have L: "bt_sorted shards" "map_of shards = tv_shards (view d)"
    using load_shards_ok [OF st(4) r E] v(1) by (auto simp: fun_eq_iff)
  have F: "bt_sorted (ss_checkpoints s)" "map_of (ss_checkpoints s) = tv_checkpoints (view d)"
    using fold_bt_insert [OF E, of xs] v(3,4) s(3) by auto
  then show ?thesis using L F s v by (auto simp: synced_def mem_view_def)
qed

text \<open>Batches of writes, each followed by a flush.\<close>

fun run_batches :: "('d, 't, 'c, 'ts, 'mr) tree_db \<Rightarrow> ('t \<Rightarrow> nat) \<Rightarrow> ('t, 'c, 'ts, 'mr) tree_write list list \<Rightarrow>
    ('t, 'c, 'ts, 'mr) sparse_store \<times> 'd \<Rightarrow> sqlite_error + ('t, 'c, 'ts, 'mr) sparse_store \<times> 'd" where
  "run_batches db index_of [] st = Inr st"
| "run_batches db index_of (ws # wss) (s, d) =
     (case flush_store db (fold (store_write index_of) ws s) d of
        Inl e \<Rightarrow> Inl e
      | Inr st \<Rightarrow> run_batches db index_of wss st)"

definition tree_part :: "('t, 'c, 'ts, 'mr) tree_view \<Rightarrow> (nat \<rightharpoonup> 't) \<times> 'c \<times> (nat \<rightharpoonup> ('ts, 'mr) checkpoint)" where
  "tree_part v = (tv_shards v, tv_cap v, tv_checkpoints v)"

lemma view_writes_part: "tree_part v = tree_part v' \<Longrightarrow>
    tree_part (fold (view_write index_of) ws v) = tree_part (fold (view_write index_of) ws v')"
proof (induction ws arbitrary: v v')
  case (Cons w ws)
  have "tree_part (view_write index_of w v) = tree_part (view_write index_of w v')"
    using Cons.prems unfolding tree_part_def by (cases w) simp_all
  from Cons.IH [OF this] show ?case by simp
qed simp

lemma run_batches_ok:
  assumes "run_batches db index_of wss (s, d) = Inr (s', d')" and "synced index_of (view d) s" and "mem_view s (view d) = view d"
    and "writes_contract db index_of view"
  shows "synced index_of (view d') s' \<and> mem_view s' (view d') = view d' \<and>
    tree_part (view d') = tree_part (fold (view_write index_of) (concat wss) (view d))"
  using assms
proof (induction wss arbitrary: s d)
  case (Cons ws wss)
  obtain s1 d1 where f: "flush_store db (fold (store_write index_of) ws s) d = Inr (s1, d1)" and r: "run_batches db index_of wss (s1, d1) = Inr (s', d')"
    using Cons.prems(1) by (auto split: sum.splits)
  note W = store_writes [OF Cons.prems(2), of ws, unfolded Cons.prems(3)]
  note F = flush_store_ok [OF f conjunct1 [OF W] Cons.prems(4)]
  note R = Cons.IH [OF r conjunct1 [OF F] conjunct1 [OF conjunct2 [OF F]] Cons.prems(4)]
  have "tree_part (view d1) = tree_part (fold (view_write index_of) ws (view d))"
    unfolding conjunct2 [OF conjunct2 [OF F]] conjunct2 [OF W] by (simp add: tree_part_def)
  from view_writes_part [OF this, of index_of "concat wss"] R show ?case by simp
qed simp

text \<open>
  C5.  A range works in memory: it loads the wallet's tree store, makes batches of writes, and flushes after
  each.  The wallet's store then holds the shards, the cap and the checkpoints it would hold if every
  write had been made on it at once, and memory agrees with it.
\<close>

theorem write_back_is_write_through:
  assumes "reads_contract db index_of view" and "writes_contract db index_of view"
    and "seed_store db empty_cap height anchor d = Inr s" and "run_batches db index_of wss (s, d) = Inr (s', d')"
  shows "tree_part (view d') = tree_part (fold (view_write index_of) (concat wss) (view d)) \<and>
    tree_part (mem_view s' (view d')) = tree_part (view d')"
proof -
  note S = seed_store_ok [OF assms(3,1)]
  show ?thesis using run_batches_ok [OF assms(4) conjunct1 [OF S] conjunct2 [OF S] assms(2)] by simp
qed

text \<open>
  C20.  Which anchors a flush marks in the wallet's store: those retained in memory whose checkpoint this
  flush adds or changes, and no other.
\<close>

theorem flush_marks_added_anchors:
  assumes "reads_contract db index_of view" and "writes_contract db index_of view"
    and "seed_store db empty_cap height anchor d = Inr s" and "run_batches db index_of wss (s, d) = Inr (s1, d1)"
    and "flush_store db (fold (store_write index_of) ws s1) d1 = Inr (s2, d2)"
  shows "tv_retained (view d2) = tv_retained (view d1) \<union>
    {h \<in> ss_retained (fold (store_write index_of) ws s1). \<exists>cp. tv_checkpoints (view d2) h = Some cp \<and> tv_checkpoints (view d1) h \<noteq> Some cp}"
proof -
  note S = seed_store_ok [OF assms(3,1)]
  note B = conjunct1 [OF run_batches_ok [OF assms(4) conjunct1 [OF S] conjunct2 [OF S] assms(2)]]
  note V = conjunct2 [OF conjunct2 [OF flush_store_ok [OF assms(5) conjunct1 [OF store_writes [OF B]] assms(2)]]]
  show ?thesis unfolding V by (simp add: mem_view_def)
qed

text \<open>A tree store that meets the contract, as association lists.\<close>

type_synonym list_db = "(nat \<times> string) list \<times> string \<times> (nat \<times> (nat, nat) checkpoint) list \<times> nat list"

definition list_tree_db :: "(list_db, nat \<times> string, string, nat, nat) tree_db" where
  "list_tree_db = \<lparr>
     td_shard_roots = (\<lambda>(shards, cap, cps, marks). Inr (map fst shards)),
     td_checkpoint_count = (\<lambda>(shards, cap, cps, marks). Inr (length cps)),
     td_for_each_checkpoint = (\<lambda>n (shards, cap, cps, marks). Inr (map (\<lambda>h. (h, the (map_of cps h))) (remdups (map fst cps)))),
     td_get_shard = (\<lambda>i (shards, cap, cps, marks). Inr (map_option (Pair i) (map_of shards i))),
     td_get_cap = (\<lambda>(shards, cap, cps, marks). Inr cap),
     td_put_shards = (\<lambda>ts c rm add (shards, cap, cps, marks).
       Inr (ts @ shards, (case c of None \<Rightarrow> cap | Some c' \<Rightarrow> c'), add @ filter (\<lambda>(h, _). h \<notin> set rm) cps, marks)),
     td_ensure_retained = (\<lambda>h (shards, cap, cps, marks). Inr (shards, cap, cps, h # marks))\<rparr>"

definition list_view :: "list_db \<Rightarrow> (nat \<times> string, string, nat, nat) tree_view" where
  "list_view = (\<lambda>(shards, cap, cps, marks).
     \<lparr>tv_shards = (\<lambda>i. map_option (Pair i) (map_of shards i)), tv_cap = cap, tv_checkpoints = map_of cps, tv_retained = set marks\<rparr>)"

lemma map_of_keyed: "map_of (map (\<lambda>h. (h, f h)) hs) h = (if h \<in> set hs then Some (f h) else None)"
  by (induction hs) auto

lemma list_tree_db_reads: "reads_contract list_tree_db fst list_view"
proof -
  have "map_of (map (\<lambda>h. (h, the (map_of cps h))) (remdups (map fst cps))) = map_of cps" for cps :: "(nat \<times> (nat, nat) checkpoint) list"
  proof
    fix h show "map_of (map (\<lambda>h. (h, the (map_of cps h))) (remdups (map fst cps))) h = map_of cps h"
      unfolding map_of_keyed using map_of_eq_None_iff [of cps h] by (auto simp: image_iff)
  qed
  moreover have "distinct (map fst (map (\<lambda>h. (h, the (map_of cps h))) (remdups (map fst cps))))" for cps :: "(nat \<times> (nat, nat) checkpoint) list"
    by (simp add: comp_def)
  moreover have "dom (\<lambda>i. map_option (Pair i) (map_of shards i)) = fst ` set shards" for shards :: "(nat \<times> string) list"
    unfolding dom_map_of_conv_image_fst [symmetric] by (auto simp: dom_def)
  ultimately show ?thesis unfolding reads_contract_def list_tree_db_def list_view_def by auto
qed

lemma list_tree_db_writes: "writes_contract list_tree_db fst list_view"
proof -
  have "(\<lambda>i. map_option (Pair i) (map_of (ts @ shards) i)) =
      (\<lambda>i. map_option (Pair i) (map_of shards i)) ++ map_of (map (\<lambda>t. (fst t, t)) ts)" for ts shards :: "(nat \<times> string) list"
    by (induction ts) (auto simp: fun_eq_iff map_add_def split: option.splits)
  moreover have "map_of (add @ filter (\<lambda>(h, _). h \<notin> set rm) cps) = (map_of cps |` (- set rm)) ++ map_of add"
    for add cps :: "(nat \<times> (nat, nat) checkpoint) list" and rm
    by (auto simp: fun_eq_iff map_of_filter_key restrict_map_def map_add_def split: option.splits)
  ultimately show ?thesis unfolding writes_contract_def list_tree_db_def list_view_def by (auto split: option.splits)
qed

definition sample_db :: list_db where
  "sample_db = ([(0, ''a'')], ''cap'', [(10, \<lparr>tree_state = 1, marks_removed = 0\<rparr>), (11, \<lparr>tree_state = 2, marks_removed = 0\<rparr>)], [])"

definition sample_batches :: "(nat \<times> string, string, nat, nat) tree_write list list" where
  "sample_batches = [[PutShard (1, ''b''), Retain 12, AddCheckpoint 12 \<lparr>tree_state = 5, marks_removed = 0\<rparr>, RemoveCheckpoint 10],
     [PutCap ''cap2'', AddCheckpoint 11 \<lparr>tree_state = 2, marks_removed = 7\<rparr>]]"

lemmas store_eval = seed_store_def store_new_def list_tree_db_def sample_db_def sample_batches_def flush_store_def checkpoint_delta_def Let_def
  store_op_defs should_retain_anchor_def bt_remove_def

lemma sample_run: "\<exists>s s' d'. seed_store list_tree_db '''' 16 None sample_db = Inr s \<and> run_batches list_tree_db fst sample_batches (s, sample_db) = Inr (s', d') \<and>
    tv_checkpoints (list_view d') 11 = Some \<lparr>tree_state = 2, marks_removed = 7\<rparr> \<and> tv_retained (list_view d') = {12}"
  by (simp add: store_eval list_view_def)

theorem write_back_is_write_through_witness:
  "\<exists>s s' d'. seed_store list_tree_db '''' 16 None sample_db = Inr s \<and> run_batches list_tree_db fst sample_batches (s, sample_db) = Inr (s', d') \<and>
     tv_checkpoints (list_view d') 11 = Some \<lparr>tree_state = 2, marks_removed = 7\<rparr> \<and>
     tree_part (list_view d') = tree_part (fold (view_write fst) (concat sample_batches) (list_view sample_db))"
  using sample_run write_back_is_write_through [OF list_tree_db_reads list_tree_db_writes] by metis

theorem flush_marks_added_anchors_witness:
  "\<exists>s s2 d2. seed_store list_tree_db '''' 16 None sample_db = Inr s \<and>
     flush_store list_tree_db (fold (store_write fst) (hd sample_batches) s) sample_db = Inr (s2, d2) \<and>
     tv_retained (list_view d2) = tv_retained (list_view sample_db) \<union>
       {h \<in> ss_retained (fold (store_write fst) (hd sample_batches) s).
          \<exists>cp. tv_checkpoints (list_view d2) h = Some cp \<and> tv_checkpoints (list_view sample_db) h \<noteq> Some cp} \<and>
     12 \<in> tv_retained (list_view d2)"
proof -
  obtain s where s: "seed_store list_tree_db '''' 16 None sample_db = Inr s" using sample_run by blast
  have "\<exists>s s2 d2. seed_store list_tree_db '''' 16 None sample_db = Inr s \<and>
      flush_store list_tree_db (fold (store_write fst) (hd sample_batches) s) sample_db = Inr (s2, d2) \<and> 12 \<in> tv_retained (list_view d2)"
    by (simp add: store_eval list_view_def)
  then obtain s2 d2 where f: "flush_store list_tree_db (fold (store_write fst) (hd sample_batches) s) sample_db = Inr (s2, d2)"
    and m: "12 \<in> tv_retained (list_view d2)" using s by auto
  have r: "run_batches list_tree_db fst [] (s, sample_db) = Inr (s, sample_db)" by simp
  show ?thesis using flush_marks_added_anchors [OF list_tree_db_reads list_tree_db_writes s r f] s f m by blast
qed

end
