(* ===== verification/Slip_Checkpoint.thy ===== *)
theory Slip_Checkpoint
  imports Slip_Store
begin

text \<open>
  Which checkpoints of a scan are created at all, and which are removed again
  (\<open>src/core/src/persist.rs\<close>): the cutoff of a call, the downgrade of the retentions below it, the deep
  history that keeps none, and the repair of a store that has too many.

  A \<open>BlockHeight\<close> is a \<open>nat\<close> up to \<open>u32_max\<close>.  Adding to one saturates, which changes no comparison
  with a height.  Which heights are durable anchors is another crate's predicate, a parameter.
\<close>

section \<open>Checkpoints of a call\<close>

definition SPARSE_CHECKPOINT_WINDOW :: nat where "SPARSE_CHECKPOINT_WINDOW = 100"

definition DEEP_HISTORY_CHECKPOINT_MARGIN :: nat where "DEEP_HISTORY_CHECKPOINT_MARGIN = 10000"

fun checkpoint_of :: "nat \<times> ('h \<times> retention) option \<Rightarrow> (nat \<times> nat) option" where
  "checkpoint_of (p, Some (_, Checkpoint h _)) = Some (h, p)"
| "checkpoint_of _ = None"

text \<open>The later of two checkpoints with one height stays, as in a map collected from an iterator.\<close>

definition stream_checkpoint_positions :: "nat \<Rightarrow> ('h \<times> retention) option list \<Rightarrow> (nat \<times> nat) list" where
  "stream_checkpoint_positions start commitments =
     fold (\<lambda>(h, p). bt_insert h p) (List.map_filter checkpoint_of (enumerate start commitments)) []"

definition doomed_checkpoint_cutoff :: "nat list \<Rightarrow> nat \<Rightarrow> nat list \<Rightarrow> nat option" where
  "doomed_checkpoint_cutoff existing frontier_id new_ids =
     (let union = rev (sorted_list_of_set (set existing \<union> {frontier_id} \<union> set new_ids))
      in if SPARSE_CHECKPOINT_WINDOW - 1 < length union then Some (union ! (SPARSE_CHECKPOINT_WINDOW - 1)) else None)"

fun downgrade_if_doomed :: "nat \<Rightarrow> (nat \<Rightarrow> bool) option \<Rightarrow> retention \<Rightarrow> retention \<times> bool" where
  "downgrade_if_doomed cutoff anchor (Checkpoint h m) =
     (if h < cutoff \<and> \<not> should_retain_anchor anchor h
      then (if m = MarkedMark then Marked else Ephemeral, True)
      else (Checkpoint h m, False))"
| "downgrade_if_doomed cutoff anchor r = (r, False)"

definition downgrade_doomed_checkpoints :: "('h \<times> retention) option list \<Rightarrow> nat \<Rightarrow> (nat \<Rightarrow> bool) option \<Rightarrow>
    ('h \<times> retention) option list \<times> nat" where
  "downgrade_doomed_checkpoints commitments cutoff anchor =
     (map (map_option (\<lambda>(h, r). (h, fst (downgrade_if_doomed cutoff anchor r)))) commitments,
      length (filter (\<lambda>slot. case slot of None \<Rightarrow> False | Some (_, r) \<Rightarrow> snd (downgrade_if_doomed cutoff anchor r)) commitments))"

definition is_deep_history :: "nat option \<Rightarrow> nat \<Rightarrow> bool" where
  "is_deep_history tip_opt last_scanned_height =
     (case tip_opt of None \<Rightarrow> False | Some tip \<Rightarrow> last_scanned_height + DEEP_HISTORY_CHECKPOINT_MARGIN < tip)"

definition doom_deep_history_stream :: "('h \<times> retention) list \<Rightarrow> (nat \<Rightarrow> bool) option \<Rightarrow> ('h \<times> retention) list" where
  "doom_deep_history_stream stream anchor = map (\<lambda>(h, r). (h, fst (downgrade_if_doomed u32_max anchor r))) stream"

definition doom_deep_rows :: "'h acc_row list \<Rightarrow> nat \<Rightarrow> (nat \<Rightarrow> bool) option \<Rightarrow> 'h acc_row list" where
  "doom_deep_rows rows tip anchor =
     map (\<lambda>(p, h, r). (p, h, case r of
            Checkpoint i _ \<Rightarrow> (if is_deep_history (Some tip) i then fst (downgrade_if_doomed u32_max anchor r) else r)
          | _ \<Rightarrow> r)) rows"

definition deferred_build_cutoff :: "nat list \<Rightarrow> ('h \<times> retention) option list \<Rightarrow> nat option" where
  "deferred_build_cutoff existing rows =
     (if existing = [] then None
      else doomed_checkpoint_cutoff existing (Max (set existing))
             (List.map_filter (\<lambda>slot. case slot of Some (_, Checkpoint h _) \<Rightarrow> Some h | _ \<Rightarrow> None) rows))"

section \<open>What is created is what a prune would keep\<close>

text \<open>
  The prune the commitment-tree crate runs: the oldest checkpoint is removed until \<open>n\<close> are left.  The
  cutoff of a call is computed so that nothing the prune removes is created.
\<close>

fun prune_excess :: "nat \<Rightarrow> nat list \<Rightarrow> nat list" where
  "prune_excess n [] = []"
| "prune_excess n (h # hs) = (if n < length (h # hs) then prune_excess n hs else h # hs)"

lemma prune_excess_drop: "prune_excess n hs = drop (length hs - n) hs"
  by (induction n hs rule: prune_excess.induct) (auto simp: Suc_diff_le)

lemma sorted_drop_iff:
  assumes "sorted_wrt (<) hs" and "0 < n" and "n \<le> length hs"
  shows "h \<in> set (drop (length hs - n) hs) \<longleftrightarrow> h \<in> set hs \<and> rev hs ! (n - 1) \<le> (h :: nat)"
proof -
  let ?k = "length hs - n"
  have e: "rev hs ! (n - 1) = hs ! ?k" using assms(2,3) by (simp add: rev_nth)
  have split: "hs = take ?k hs @ drop ?k hs" by simp
  have k: "?k < length hs" using assms(2,3) by simp
  have hd: "hs ! ?k \<in> set (drop ?k hs)" using k by (metis Cons_nth_drop_Suc list.set_intros(1))
  have "\<forall>x \<in> set (take ?k hs). \<forall>y \<in> set (drop ?k hs). x < y"
    using assms(1) split by (metis sorted_wrt_append)
  moreover have "\<forall>y \<in> set (drop ?k hs). hs ! ?k \<le> y"
    using sorted_wrt_drop [OF assms(1), of ?k] Cons_nth_drop_Suc [OF k]
    by (metis less_imp_le order_refl set_ConsD sorted_wrt.simps(2))
  moreover have "set hs = set (take ?k hs) \<union> set (drop ?k hs)" using split by (metis set_append)
  ultimately show ?thesis unfolding e using hd by (metis UnCI UnE leD)
qed

lemma cutoff_prune:
  assumes "U = sorted_list_of_set (set existing \<union> {frontier_id} \<union> set new_ids)"
  shows "h \<in> set (prune_excess SPARSE_CHECKPOINT_WINDOW U) \<longleftrightarrow>
    h \<in> set existing \<union> {frontier_id} \<union> set new_ids \<and>
    (case doomed_checkpoint_cutoff existing frontier_id new_ids of None \<Rightarrow> True | Some c \<Rightarrow> c \<le> h)"
proof -
  have U: "set U = set existing \<union> {frontier_id} \<union> set new_ids" "sorted_wrt (<) U"
    unfolding assms by (rule set_sorted_list_of_set, simp) (rule strict_sorted_list_of_set)
  show ?thesis
  proof (cases "SPARSE_CHECKPOINT_WINDOW - 1 < length U")
    case True
    then have "SPARSE_CHECKPOINT_WINDOW \<le> length U" by (simp add: SPARSE_CHECKPOINT_WINDOW_def)
    moreover have "doomed_checkpoint_cutoff existing frontier_id new_ids = Some (rev U ! (SPARSE_CHECKPOINT_WINDOW - 1))"
      using True by (simp add: doomed_checkpoint_cutoff_def Let_def assms)
    ultimately show ?thesis using sorted_drop_iff [OF U(2), of SPARSE_CHECKPOINT_WINDOW h] U(1)
      by (simp add: prune_excess_drop SPARSE_CHECKPOINT_WINDOW_def)
  next
    case False
    then have "doomed_checkpoint_cutoff existing frontier_id new_ids = None" by (simp add: doomed_checkpoint_cutoff_def Let_def assms)
    then show ?thesis using False U(1) by (simp add: prune_excess_drop)
  qed
qed

lemma bt_insert_front: "\<forall>x \<in> set m. k < fst x \<Longrightarrow> bt_insert k v m = (k, v) # m"
  by (cases m) auto

lemma filter_bt_insert:
  "bt_sorted m \<Longrightarrow> filter (\<lambda>(h, _). P h) (bt_insert k v m) =
     (if P k then bt_insert k v (filter (\<lambda>(h, _). P h) m) else filter (\<lambda>(h, _). P h) m)"
proof (induction k v m rule: bt_insert.induct)
  case (2 k v k' v' m)
  have s: "bt_sorted m" "\<forall>x \<in> set m. k' < fst x" using 2(2) by (auto simp: bt_sorted_def)
  have above: "\<forall>x \<in> set (filter (\<lambda>(h, _). P h) m). k < fst x" if "k \<le> k'" using that s(2) by fastforce
  show ?case using 2(1) s bt_insert_front [OF above, of v] by (cases "k < k'"; cases "k = k'") auto
qed simp

lemma filter_fold_bt_insert:
  "bt_sorted m \<Longrightarrow> filter (\<lambda>(h, _). P h) (fold (\<lambda>(h, p). bt_insert h p) xs m) =
     fold (\<lambda>(h, p). bt_insert h p) (filter (\<lambda>(h, _). P h) xs) (filter (\<lambda>(h, _). P h) m)"
proof (induction xs arbitrary: m)
  case (Cons x xs)
  then show ?case using Cons.IH [OF bt_insert_sorted [OF Cons.prems], of "fst x" "snd x"] filter_bt_insert [OF Cons.prems, of P "fst x" "snd x"]
    by (cases x) auto
qed simp

definition spared :: "nat \<Rightarrow> (nat \<Rightarrow> bool) option \<Rightarrow> nat \<Rightarrow> bool" where
  "spared cutoff anchor h \<longleftrightarrow> cutoff \<le> h \<or> should_retain_anchor anchor h"

lemma downgrade_checkpoints_filter:
  "List.map_filter checkpoint_of (enumerate p (fst (downgrade_doomed_checkpoints cs cutoff anchor))) =
   filter (\<lambda>(h, _). spared cutoff anchor h) (List.map_filter checkpoint_of (enumerate p cs))"
proof (induction cs arbitrary: p)
  case (Cons c cs)
  have "checkpoint_of (p, map_option (\<lambda>(h, r). (h, fst (downgrade_if_doomed cutoff anchor r))) c) =
      (case checkpoint_of (p, c) of None \<Rightarrow> None | Some (h, q) \<Rightarrow> if spared cutoff anchor h then Some (h, q) else None)"
  proof (cases c)
    case (Some x)
    obtain h r where "x = (h, r)" by force
    then show ?thesis using Some by (cases r) (auto simp: spared_def)
  qed simp
  then show ?case using Cons.IH [of "Suc p"] by (auto simp: downgrade_doomed_checkpoints_def map_filter_simps split: option.splits)
qed (simp add: downgrade_doomed_checkpoints_def map_filter_simps)

lemma downgrade_positions:
  "stream_checkpoint_positions start (fst (downgrade_doomed_checkpoints cs cutoff anchor)) =
   filter (\<lambda>(h, _). spared cutoff anchor h) (stream_checkpoint_positions start cs)"
proof -
  have "bt_sorted []" by (simp add: bt_sorted_def)
  from filter_fold_bt_insert [OF this] show ?thesis
    unfolding stream_checkpoint_positions_def downgrade_checkpoints_filter by (metis filter.simps(1))
qed

definition is_marked :: "('h \<times> retention) option \<Rightarrow> bool" where
  "is_marked slot = (case slot of Some (_, Marked) \<Rightarrow> True | Some (_, Checkpoint _ MarkedMark) \<Rightarrow> True | _ \<Rightarrow> False)"

text \<open>
  C19.  The checkpoints one build creates, of those its commitments carry: the durable anchors, and the ones
  that a prune to the newest hundred, of those stored, the frontier's and this call's, would keep.
  They keep their positions, and every leaf marked as the wallet's stays marked.
\<close>

theorem created_checkpoints_are_kept_ones:
  "let pos = stream_checkpoint_positions start cs;
       cutoff = doomed_checkpoint_cutoff existing frontier_id (map fst pos);
       built = (case cutoff of None \<Rightarrow> cs | Some c \<Rightarrow> fst (downgrade_doomed_checkpoints cs c anchor))
   in stream_checkpoint_positions start built =
        filter (\<lambda>(h, _). should_retain_anchor anchor h \<or>
          h \<in> set (prune_excess SPARSE_CHECKPOINT_WINDOW (sorted_list_of_set (set existing \<union> {frontier_id} \<union> set (map fst pos))))) pos \<and>
      map is_marked built = map is_marked cs \<and> map (map_option fst) built = map (map_option fst) cs"
proof -
  define pos where "pos = stream_checkpoint_positions start cs"
  define cutoff where "cutoff = doomed_checkpoint_cutoff existing frontier_id (map fst pos)"
  define built where "built = (case cutoff of None \<Rightarrow> cs | Some c \<Rightarrow> fst (downgrade_doomed_checkpoints cs c anchor))"
  let ?kept = "set (prune_excess SPARSE_CHECKPOINT_WINDOW (sorted_list_of_set (set existing \<union> {frontier_id} \<union> set (map fst pos))))"
  note C = cutoff_prune [OF refl, of _ existing frontier_id "map fst pos", folded cutoff_def]
  have m: "is_marked (map_option (\<lambda>(h, r). (h, fst (downgrade_if_doomed c anchor r))) slot) = is_marked slot" for c slot
  proof (cases slot)
    case (Some x)
    then show ?thesis by (cases x; cases "snd x") (auto simp: is_marked_def split: marking.splits)
  qed (simp add: is_marked_def)
  have "map is_marked built = map is_marked cs" "map (map_option fst) built = map (map_option fst) cs"
    using m by (auto simp: built_def downgrade_doomed_checkpoints_def option.map_comp comp_def case_prod_beta split: option.splits)
  moreover have "filter (\<lambda>(h, _). case cutoff of None \<Rightarrow> True | Some c \<Rightarrow> spared c anchor h) pos =
      filter (\<lambda>(h, _). should_retain_anchor anchor h \<or> h \<in> ?kept) pos"
    by (rule filter_cong [OF refl]) (use C in \<open>force simp: spared_def split: option.splits\<close>)
  moreover have "stream_checkpoint_positions start built = filter (\<lambda>(h, _). case cutoff of None \<Rightarrow> True | Some c \<Rightarrow> spared c anchor h) pos"
    using downgrade_positions [of start cs] by (cases cutoff) (simp_all add: built_def pos_def case_prod_beta)
  ultimately show ?thesis unfolding Let_def pos_def [symmetric] cutoff_def [symmetric] built_def [symmetric] by simp
qed

section \<open>Repair of a flooded store\<close>

text \<open>The calls made of a tree store, each of which may fail.\<close>

record ('s, 'cp, 'e) checkpoint_ops =
  co_at_depth :: "nat \<Rightarrow> 's \<Rightarrow> 'e + (nat \<times> 'cp) option"
  co_retained :: "'s \<Rightarrow> 'e + nat set"
  co_count :: "'s \<Rightarrow> 'e + nat"
  co_for_each :: "nat \<Rightarrow> 's \<Rightarrow> 'e + (nat \<times> 'cp) list"
  co_remove :: "nat \<Rightarrow> 's \<Rightarrow> 'e + 's"

fun remove_checkpoints :: "('s, 'cp, 'e) checkpoint_ops \<Rightarrow> nat list \<Rightarrow> 's \<Rightarrow> 'e + 's" where
  "remove_checkpoints ops [] s = Inr s"
| "remove_checkpoints ops (h # hs) s =
     (case co_remove ops h s of Inl e \<Rightarrow> Inl e | Inr s' \<Rightarrow> remove_checkpoints ops hs s')"

definition heal_pool_checkpoints :: "('s, 'cp, 'e) checkpoint_ops \<Rightarrow> 's \<Rightarrow> 'e + 's \<times> nat" where
  "heal_pool_checkpoints ops s =
     (case co_at_depth ops 0 s of
        Inl e \<Rightarrow> Inl e
      | Inr None \<Rightarrow> Inr (s, 0)
      | Inr (Some (max_id, _)) \<Rightarrow>
          (let cutoff = max_id - DEEP_HISTORY_CHECKPOINT_MARGIN
           in case co_retained ops s of Inl e \<Rightarrow> Inl e | Inr retained \<Rightarrow>
              (case co_count ops s of Inl e \<Rightarrow> Inl e | Inr n \<Rightarrow>
              (case co_for_each ops n s of Inl e \<Rightarrow> Inl e | Inr visited \<Rightarrow>
               (let doomed = filter (\<lambda>h. h < cutoff \<and> h \<notin> retained) (map fst visited)
                in case remove_checkpoints ops doomed s of
                     Inl e \<Rightarrow> Inl e
                   | Inr s' \<Rightarrow> Inr (s', length doomed))))))"

text \<open>
  The three pools, one after the other; a wallet without the third counts none for it.  \<open>heal_sapling\<close>
  and the others are the wallet crate's calls that run the repair on a pool's store.
\<close>

definition heal_flooded_checkpoints :: "('w \<Rightarrow> 'w \<times> (string + nat)) \<Rightarrow> ('w \<Rightarrow> 'w \<times> (string + nat)) \<Rightarrow>
    ('w \<Rightarrow> 'w \<times> (string + nat option)) \<Rightarrow> 'w \<Rightarrow> 'w \<times> (slipstream_error + nat)" where
  "heal_flooded_checkpoints heal_sapling heal_orchard heal_ironwood w =
     (let heal_err = (\<lambda>pool e. Wallet (''checkpoint heal ('' @ pool @ ''): '' @ e))
      in case heal_sapling w of
           (w1, Inl e) \<Rightarrow> (w1, Inl (heal_err ''sapling'' e))
         | (w1, Inr n1) \<Rightarrow>
             (case heal_orchard w1 of
                (w2, Inl e) \<Rightarrow> (w2, Inl (heal_err ''orchard'' e))
              | (w2, Inr n2) \<Rightarrow>
                  (case heal_ironwood w2 of
                     (w3, Inl e) \<Rightarrow> (w3, Inl (heal_err ''ironwood'' e))
                   | (w3, Inr n3) \<Rightarrow> (w3, Inr (n1 + n2 + (case n3 of None \<Rightarrow> 0 | Some n \<Rightarrow> n))))))"

text \<open>
  What the repair relies on, of any tree store: \<open>cps s\<close> are the checkpoints it holds and \<open>ok\<close> its own
  invariant.
\<close>

locale checkpoint_store =
  fixes ops :: "('s, 'cp, 'e) checkpoint_ops" and cps :: "'s \<Rightarrow> nat \<rightharpoonup> 'cp" and marks :: "'s \<Rightarrow> nat set" and ok :: "'s \<Rightarrow> bool"
  assumes newest_none: "ok s \<Longrightarrow> co_at_depth ops 0 s = Inr None \<Longrightarrow> dom (cps s) = {}"
    and newest: "ok s \<Longrightarrow> co_at_depth ops 0 s = Inr (Some (h, cp)) \<Longrightarrow> h \<in> dom (cps s) \<and> (\<forall>h' \<in> dom (cps s). h' \<le> h)"
    and retained: "ok s \<Longrightarrow> co_retained ops s = Inr m \<Longrightarrow> m = marks s"
    and visited: "ok s \<Longrightarrow> co_count ops s = Inr n \<Longrightarrow> co_for_each ops n s = Inr xs \<Longrightarrow> distinct (map fst xs) \<and> fst ` set xs = dom (cps s)"
    and removed: "ok s \<Longrightarrow> co_remove ops h s = Inr s' \<Longrightarrow> ok s' \<and> cps s' = (cps s)(h := None) \<and> marks s' = marks s"
begin

lemma remove_all:
  "remove_checkpoints ops hs s = Inr s' \<Longrightarrow> ok s \<Longrightarrow> ok s' \<and> cps s' = cps s |` (- set hs) \<and> marks s' = marks s"
proof (induction hs arbitrary: s)
  case (Cons h hs)
  obtain s1 where s1: "co_remove ops h s = Inr s1" "remove_checkpoints ops hs s1 = Inr s'"
    using Cons.prems(1) by (auto split: sum.splits)
  have R: "ok s1" "cps s1 = (cps s)(h := None)" "marks s1 = marks s" using removed [OF Cons.prems(2) s1(1)] by auto
  show ?case using Cons.IH [OF s1(2) R(1)] R by (auto simp: fun_eq_iff restrict_map_def)
qed (simp add: restrict_map_def)

lemma heal_exact:
  assumes "heal_pool_checkpoints ops s = Inr (s', n)" and "ok s"
  shows "ok s' \<and> marks s' = marks s \<and>
    cps s' = cps s |` {h. h \<in> marks s \<or> (\<forall>h' \<in> dom (cps s). h' \<le> h + DEEP_HISTORY_CHECKPOINT_MARGIN)} \<and>
    n = card (dom (cps s)) - card (dom (cps s'))"
proof -
  obtain mx where mx: "co_at_depth ops 0 s = Inr mx" using assms(1) by (cases "co_at_depth ops 0 s") (auto simp: heal_pool_checkpoints_def)
  show ?thesis
  proof (cases mx)
    case None
    then show ?thesis using assms mx newest_none [OF assms(2)] by (auto simp: heal_pool_checkpoints_def)
  next
    case (Some x)
    obtain max_id cp where x: "x = (max_id, cp)" by force
    obtain r k xs where st: "co_retained ops s = Inr r" "co_count ops s = Inr k" "co_for_each ops k s = Inr xs"
      and rm: "remove_checkpoints ops (filter (\<lambda>h. h < max_id - DEEP_HISTORY_CHECKPOINT_MARGIN \<and> h \<notin> r) (map fst xs)) s = Inr s'"
      and n: "n = length (filter (\<lambda>h. h < max_id - DEEP_HISTORY_CHECKPOINT_MARGIN \<and> h \<notin> r) (map fst xs))"
      using assms(1) mx Some x by (auto simp: heal_pool_checkpoints_def Let_def split: sum.splits)
    let ?doomed = "filter (\<lambda>h. h < max_id - DEEP_HISTORY_CHECKPOINT_MARGIN \<and> h \<notin> r) (map fst xs)"
    have top: "max_id \<in> dom (cps s)" "\<forall>h' \<in> dom (cps s). h' \<le> max_id" using newest [OF assms(2)] mx Some x by blast+
    have v: "distinct (map fst xs)" "fst ` set xs = dom (cps s)" using visited [OF assms(2) st(2,3)] by auto
    have R: "ok s'" "cps s' = cps s |` (- set ?doomed)" "marks s' = marks s" using remove_all [OF rm assms(2)] by auto
    have "(\<forall>h' \<in> dom (cps s). h' \<le> h + DEEP_HISTORY_CHECKPOINT_MARGIN) \<longleftrightarrow> max_id \<le> h + DEEP_HISTORY_CHECKPOINT_MARGIN" for h
      using top by (meson order_trans)
    then have w: "(\<forall>h' \<in> dom (cps s). h' \<le> h + DEEP_HISTORY_CHECKPOINT_MARGIN) \<longleftrightarrow> \<not> h < max_id - DEEP_HISTORY_CHECKPOINT_MARGIN" for h
      unfolding less_diff_conv not_less .
    have "h \<in> set ?doomed \<longleftrightarrow> h \<in> dom (cps s) \<and> h < max_id - DEEP_HISTORY_CHECKPOINT_MARGIN \<and> h \<notin> marks s" for h
      unfolding set_filter set_map v(2) retained [OF assms(2) st(1)] by blast
    then have "cps s' = cps s |` {h. h \<in> marks s \<or> (\<forall>h' \<in> dom (cps s). h' \<le> h + DEEP_HISTORY_CHECKPOINT_MARGIN)}"
      unfolding R(2) w by (intro ext) (auto simp: restrict_map_def domIff)
    moreover have "n = card (set ?doomed)" using n v(1) by (metis distinct_card distinct_filter)
    moreover have "dom (cps s') = dom (cps s) - set ?doomed" unfolding R(2) dom_restrict by blast
    moreover have "set ?doomed \<subseteq> dom (cps s)" unfolding set_filter set_map v(2) by blast
    moreover have "finite (dom (cps s))" by (metis v(2) finite_imageI finite_set)
    ultimately show ?thesis using R by (simp add: card_Diff_subset card_mono finite_subset)
  qed
qed

end

text \<open>The in-memory store is such a store.\<close>

definition sparse_checkpoint_ops :: "(('t, 'c, 'ts, 'mr) sparse_store, ('ts, 'mr) checkpoint, sparse_store_error) checkpoint_ops" where
  "sparse_checkpoint_ops = \<lparr>co_at_depth = (\<lambda>k s. Inr (get_checkpoint_at_depth k s)), co_retained = (\<lambda>s. Inr (ss_retained s)),
     co_count = (\<lambda>s. Inr (checkpoint_count s)), co_for_each = (\<lambda>n s. Inr (for_each_checkpoint n s)),
     co_remove = (\<lambda>h s. Inr (remove_checkpoint h s))\<rparr>"

lemma bt_last_max: "bt_sorted m \<Longrightarrow> m \<noteq> [] \<Longrightarrow> x \<in> set m \<Longrightarrow> fst x \<le> fst (last m)"
  by (induction m) (auto simp: bt_sorted_def less_imp_le)

interpretation sparse: checkpoint_store sparse_checkpoint_ops "\<lambda>s. map_of (ss_checkpoints s)" ss_retained "\<lambda>s. bt_sorted (ss_checkpoints s)"
proof (unfold_locales, goal_cases)
  case (1 s)
  then show ?case by (auto simp: sparse_checkpoint_ops_def get_checkpoint_at_depth_def split: if_splits)
next
  case (2 s h cp)
  then have ne: "ss_checkpoints s \<noteq> []" and l: "last (ss_checkpoints s) = (h, cp)"
    by (auto simp: sparse_checkpoint_ops_def get_checkpoint_at_depth_def rev_nth last_conv_nth split: if_splits)
  have "(h, cp) \<in> set (ss_checkpoints s)" using last_in_set [OF ne] l by simp
  then have "map_of (ss_checkpoints s) h = Some cp" using 2(1) by (simp add: bt_map_of_iff)
  moreover have "h' \<le> h" if "map_of (ss_checkpoints s) h' = Some cp'" for h' cp'
    using bt_last_max [OF 2(1) ne map_of_SomeD [OF that]] l by simp
  ultimately show ?case by blast
next
  case (4 s n xs)
  then have "xs = ss_checkpoints s" by (simp add: sparse_checkpoint_ops_def for_each_checkpoint_def checkpoint_count_def)
  then show ?case using bt_sorted_distinct [OF 4(1)] by (simp add: dom_map_of_conv_image_fst)
next
  case (5 s h s')
  then show ?case by (auto simp: sparse_checkpoint_ops_def remove_checkpoint_def map_of_bt_remove bt_remove_sorted)
qed (auto simp: sparse_checkpoint_ops_def)

lemma remove_checkpoints_sparse: "\<exists>s'. remove_checkpoints sparse_checkpoint_ops hs s = Inr s'"
  by (induction hs arbitrary: s) (simp_all add: sparse_checkpoint_ops_def)

text \<open>
  C21.  The repair of the in-memory store always ends, and leaves exactly the checkpoints that are durable
  anchors or at most ten thousand below the newest; it reports how many it removed.
\<close>

theorem heal_keeps_window_and_anchors:
  assumes "bt_sorted (ss_checkpoints s)"
  shows "\<exists>s' n. heal_pool_checkpoints sparse_checkpoint_ops s = Inr (s', n) \<and> ss_retained s' = ss_retained s \<and>
    map_of (ss_checkpoints s') = map_of (ss_checkpoints s) |`
      {h. h \<in> ss_retained s \<or> (\<forall>h' \<in> dom (map_of (ss_checkpoints s)). h' \<le> h + DEEP_HISTORY_CHECKPOINT_MARGIN)} \<and>
    n = length (ss_checkpoints s) - length (ss_checkpoints s')"
proof -
  obtain s' n where h: "heal_pool_checkpoints sparse_checkpoint_ops s = Inr (s', n)"
  proof (cases "get_checkpoint_at_depth 0 s")
    case None
    then show ?thesis using that [of s 0] by (simp add: heal_pool_checkpoints_def sparse_checkpoint_ops_def)
  next
    case (Some x)
    let ?doomed = "filter (\<lambda>h. h < fst x - DEEP_HISTORY_CHECKPOINT_MARGIN \<and> h \<notin> ss_retained s) (map fst (for_each_checkpoint (checkpoint_count s) s))"
    obtain s' where "remove_checkpoints sparse_checkpoint_ops ?doomed s = Inr s'" using remove_checkpoints_sparse by blast
    then have "heal_pool_checkpoints sparse_checkpoint_ops s = Inr (s', length ?doomed)"
      using Some by (simp add: heal_pool_checkpoints_def sparse_checkpoint_ops_def Let_def case_prod_beta)
    then show ?thesis by (rule that)
  qed
  note H = sparse.heal_exact [OF h assms]
  have "length (ss_checkpoints s) = card (dom (map_of (ss_checkpoints s)))" "length (ss_checkpoints s') = card (dom (map_of (ss_checkpoints s')))"
    using bt_length_card assms H by blast+
  then show ?thesis using h H by auto
qed

theorem heal_keeps_window_and_anchors_witness:
  "\<exists>s' n. heal_pool_checkpoints sparse_checkpoint_ops
       ((store_new () 16 :: (unit, unit, nat, nat) sparse_store)
         \<lparr>ss_checkpoints := [(5, \<lparr>tree_state = 0, marks_removed = 0\<rparr>), (7, \<lparr>tree_state = 1, marks_removed = 0\<rparr>), (20000, \<lparr>tree_state = 2, marks_removed = 0\<rparr>)],
          ss_retained := {7}\<rparr>) = Inr (s', n) \<and> n = 1 \<and> map fst (ss_checkpoints s') = [7, 20000]"
proof -
  let ?s = "(store_new () 16 :: (unit, unit, nat, nat) sparse_store)
         \<lparr>ss_checkpoints := [(5, \<lparr>tree_state = 0, marks_removed = 0\<rparr>), (7, \<lparr>tree_state = 1, marks_removed = 0\<rparr>), (20000, \<lparr>tree_state = 2, marks_removed = 0\<rparr>)],
          ss_retained := {7}\<rparr>"
  have "bt_sorted (ss_checkpoints ?s)" by (simp add: bt_sorted_def)
  from heal_keeps_window_and_anchors [OF this] obtain s' n where h: "heal_pool_checkpoints sparse_checkpoint_ops ?s = Inr (s', n)"
    and n: "n = length (ss_checkpoints ?s) - length (ss_checkpoints s')" by blast
  have "map fst (ss_checkpoints s') = [7, 20000]"
    using h by (auto simp: heal_pool_checkpoints_def sparse_checkpoint_ops_def get_checkpoint_at_depth_def for_each_checkpoint_def checkpoint_count_def
      remove_checkpoint_def bt_remove_def DEEP_HISTORY_CHECKPOINT_MARGIN_def store_new_def)
  then have "length (ss_checkpoints s') = 2" using length_map [of fst "ss_checkpoints s'"] by simp
  then show ?thesis using h n \<open>map fst (ss_checkpoints s') = [7, 20000]\<close> by auto
qed

end
