(* ===== verification/Slip_Sweep.thy ===== *)
theory Slip_Sweep
  imports Slip_Checkpoint
begin

text \<open>
  The sweep at the start of a pass (\<open>sweep_stranded_graft_rows\<close> in \<open>src/core/src/persist.rs\<close>, its decisions
  in \<open>src/core/src/graft.rs\<close>): rows that an interrupted range left in the buffer are built if what the
  wallet holds checks them, and otherwise deleted once the blocks they came from are queued for a rescan.

  The wallet database and the commitment tree are other crates': \<open>sweep_wallet\<close> and \<open>sweep_tree\<close> have the
  calls made of them.  A range of heights is a pair with an exclusive end, a run of positions a pair with
  an inclusive one, as in the source.
\<close>

section \<open>Runs of positions\<close>

definition contiguous_runs :: "nat list \<Rightarrow> (nat \<times> nat) list" where
  "contiguous_runs positions =
     fold (\<lambda>p runs. if runs \<noteq> [] \<and> snd (last runs) + 1 = p then butlast runs @ [(fst (last runs), p)] else runs @ [(p, p)])
       positions []"

text \<open>The first range to seed in a shard claims it, with its start if no range before it has an unknown start.\<close>

fun claim_starts :: "nat option list \<Rightarrow> (nat \<times> nat option) list \<Rightarrow> bool \<Rightarrow> (nat \<times> nat option) list" where
  "claim_starts [] claimed unknown_start_before = claimed"
| "claim_starts (None # starts) claimed unknown_start_before = claim_starts starts claimed True"
| "claim_starts (Some position # starts) claimed unknown_start_before =
     claim_starts starts
       (if map_of claimed (shard_of position) = None
        then bt_insert (shard_of position) (if unknown_start_before then None else Some position) claimed else claimed)
       unknown_start_before"

definition first_seeders :: "nat option list \<Rightarrow> (nat \<times> nat) list" where
  "first_seeders starts =
     List.map_filter (\<lambda>(shard, start). map_option (Pair shard) start) (claim_starts starts [] False)"

definition stranded_runs :: "nat list \<Rightarrow> nat option \<Rightarrow> (nat \<times> nat) list" where
  "stranded_runs positions resume_at =
     (let resumed = (case resume_at of None \<Rightarrow> None | Some start \<Rightarrow> if start = 0 then None else Some (start - 1))
      in filter (\<lambda>(lo, hi). case resumed of None \<Rightarrow> True | Some l \<Rightarrow> \<not> (lo \<le> l \<and> l \<le> hi)) (contiguous_runs positions))"

datatype 'h end_check = LastLeaf | ShardRoot 'h

definition end_check_of :: "nat \<times> nat \<Rightarrow> bool \<Rightarrow> 'h option \<Rightarrow> 'h end_check option" where
  "end_check_of run last_leaf_matches stored_root =
     (if last_leaf_matches then Some LastLeaf
      else if 2 ^ SHARD_BITS dvd (snd run + 1) then map_option ShardRoot stored_root
      else None)"

definition rows_cover_run :: "'h acc_row list \<Rightarrow> nat \<times> nat \<Rightarrow> bool" where
  "rows_cover_run rows run \<longleftrightarrow>
     length rows = snd run - fst run + 1 \<and> rows \<noteq> [] \<and> fst (hd rows) = fst run \<and>
     (\<forall>i \<in> set [0..<length rows - 1]. fst (rows ! i) + 1 = fst (rows ! (i + 1)))"

section \<open>Placing a run on the chain\<close>

text \<open>The loop over the pending ranges, by their starts; it ends when the end is reached.\<close>

fun stretch_loop :: "(nat \<times> nat) list \<Rightarrow> nat \<Rightarrow> nat \<Rightarrow> (nat \<times> nat) list \<Rightarrow> (nat \<times> nat) list \<times> nat" where
  "stretch_loop [] next end' acc = (acc, next)"
| "stretch_loop ((s, e) # pending) next end' acc =
     (let acc' = (if s > next then acc @ [(next, min s end')] else acc); next' = max next e
      in if next' \<ge> end' then (acc', next') else stretch_loop pending next' end' acc')"

definition scanned_stretches :: "(nat \<times> nat) list \<Rightarrow> nat \<Rightarrow> nat \<Rightarrow> (nat \<times> nat) list" where
  "scanned_stretches pending floor' end' =
     (case stretch_loop (sort_key fst pending) floor' end' [] of
        (stretches, next) \<Rightarrow> filter (\<lambda>(s, e). s < e) (if next < end' then stretches @ [(next, end')] else stretches))"

text \<open>The bisection of \<open>first_block_past\<close>: heights \<open>lo\<close> to \<open>hi\<close>.\<close>

function bisect :: "(nat \<Rightarrow> 'e + nat option) \<Rightarrow> nat \<Rightarrow> nat \<Rightarrow> nat \<Rightarrow> 'e + nat option" where
  "bisect size_at position lo hi =
     (if lo < hi
      then (let mid = lo + (hi - lo) div 2
            in case size_at mid of
                 Inl e \<Rightarrow> Inl e
               | Inr None \<Rightarrow> Inr None
               | Inr (Some sz) \<Rightarrow>
                   if sz > position then bisect size_at position lo mid else bisect size_at position (mid + 1) hi)
      else Inr (Some lo))"
  by pat_completeness auto

termination
  by (relation "measure (\<lambda>(size_at, position, lo, hi). hi - lo)") auto

declare bisect.simps [simp del]

definition first_block_past :: "(nat \<Rightarrow> 'e + nat option) \<Rightarrow> nat \<Rightarrow> nat \<times> nat \<Rightarrow> 'e + nat option" where
  "first_block_past size_at position stretch =
     (let lo = fst stretch; hi = snd stretch - 1
      in case size_at hi of
           Inl e \<Rightarrow> Inl e
         | Inr None \<Rightarrow> Inr None
         | Inr (Some sz) \<Rightarrow> if sz \<le> position then Inr None else bisect size_at position lo hi)"

text \<open>The walk from the newest stretch down, over the stretches in reverse; \<open>rescans\<close> collects newest first.\<close>

fun newest_loop :: "(nat \<Rightarrow> 'e + nat option) \<Rightarrow> nat \<times> nat \<Rightarrow> (nat \<times> nat) list \<Rightarrow> (nat \<times> nat) option \<Rightarrow> (nat \<times> nat) list \<Rightarrow>
    'e + (nat \<times> nat) list option" where
  "newest_loop size_at run [] past_last rescans = Inr (Some (rev (rescans @ (case past_last of None \<Rightarrow> [] | Some r \<Rightarrow> [r]))))"
| "newest_loop size_at run (stretch # older) past_last rescans =
     (case size_at (snd stretch - 1) of
        Inl e \<Rightarrow> Inl e
      | Inr None \<Rightarrow> Inr None
      | Inr (Some end_size) \<Rightarrow>
          if end_size \<le> fst run then newest_loop size_at run [] past_last rescans
          else (case first_block_past size_at (fst run) stretch of
                  Inl e \<Rightarrow> Inl e
                | Inr None \<Rightarrow> Inr None
                | Inr (Some start) \<Rightarrow>
                    (let stop = start > fst stretch
                     in if end_size > snd run
                        then (case first_block_past size_at (snd run) stretch of
                                Inl e \<Rightarrow> Inl e
                              | Inr None \<Rightarrow> Inr None
                              | Inr (Some to) \<Rightarrow>
                                  newest_loop size_at run (if stop then [] else older) (Some (start, to + 1)) rescans)
                        else newest_loop size_at run (if stop then [] else older) None
                               (rescans @ (case past_last of None \<Rightarrow> [] | Some r \<Rightarrow> [r]) @ [(start, snd stretch)]))))"

definition walk_from_newest :: "(nat \<Rightarrow> 'e + nat option) \<Rightarrow> nat \<times> nat \<Rightarrow> (nat \<times> nat) list \<Rightarrow> 'e + (nat \<times> nat) list option" where
  "walk_from_newest size_at run stretches = newest_loop size_at run (rev stretches) None []"

fun oldest_loop :: "(nat \<Rightarrow> 'e + nat option) \<Rightarrow> nat \<times> nat \<Rightarrow> (nat \<times> nat) list \<Rightarrow> (nat \<times> nat) list \<Rightarrow>
    'e + (nat \<times> nat) list option" where
  "oldest_loop size_at run [] rescans = Inr (Some rescans)"
| "oldest_loop size_at run (stretch # newer) rescans =
     (case size_at (snd stretch - 1) of
        Inl e \<Rightarrow> Inl e
      | Inr None \<Rightarrow> Inr None
      | Inr (Some end_size) \<Rightarrow>
          if end_size \<le> fst run then oldest_loop size_at run newer rescans
          else (case first_block_past size_at (fst run) stretch of
                  Inl e \<Rightarrow> Inl e
                | Inr None \<Rightarrow> Inr None
                | Inr (Some start) \<Rightarrow>
                    if end_size > snd run
                    then (case first_block_past size_at (snd run) stretch of
                            Inl e \<Rightarrow> Inl e
                          | Inr None \<Rightarrow> Inr None
                          | Inr (Some to) \<Rightarrow> Inr (Some (rescans @ [(start, to + 1)])))
                    else oldest_loop size_at run newer (rescans @ [(start, snd stretch)])))"

definition walk_from_oldest :: "(nat \<Rightarrow> 'e + nat option) \<Rightarrow> nat \<times> nat \<Rightarrow> (nat \<times> nat) list \<Rightarrow> 'e + (nat \<times> nat) list option" where
  "walk_from_oldest size_at run stretches = oldest_loop size_at run stretches []"

definition rescans_for :: "(nat \<Rightarrow> 'e + nat option) \<Rightarrow> nat \<times> nat \<Rightarrow> (nat \<times> nat) list \<Rightarrow> 'e + (nat \<times> nat) list option" where
  "rescans_for size_at run stretches =
     (case walk_from_newest size_at run stretches of
        Inl e \<Rightarrow> Inl e
      | Inr (Some rescans) \<Rightarrow> Inr (Some rescans)
      | Inr None \<Rightarrow> walk_from_oldest size_at run stretches)"

section \<open>Where a run lies\<close>

text \<open>
  \<open>S h\<close> is the size of the tree after block \<open>h\<close>: block \<open>h\<close> holds the positions from \<open>size_before S h\<close> to
  \<open>S h\<close>.  The wallet knows some of these sizes.
\<close>

definition size_before :: "(nat \<Rightarrow> nat) \<Rightarrow> nat \<Rightarrow> nat" where
  "size_before S h = (if h = 0 then 0 else S (h - 1))"

definition sizes_ok :: "(nat \<Rightarrow> nat) \<Rightarrow> (nat \<Rightarrow> 'e + nat option) \<Rightarrow> bool" where
  "sizes_ok S size_at \<longleftrightarrow> mono S \<and> (\<forall>h n. size_at h = Inr (Some n) \<longrightarrow> n = S h)"

definition ascending :: "(nat \<times> nat) list \<Rightarrow> bool" where
  "ascending stretches \<longleftrightarrow> sorted_wrt (\<lambda>a b. snd a \<le> fst b) stretches \<and> (\<forall>s \<in> set stretches. fst s < snd s)"

definition block_past :: "(nat \<Rightarrow> nat) \<Rightarrow> nat \<Rightarrow> nat \<times> nat \<Rightarrow> nat" where
  "block_past S position stretch = hd (filter (\<lambda>h. S h > position) [fst stretch..<snd stretch])"

text \<open>The reference: the part of each stretch that the run reaches, oldest first.\<close>

fun placed :: "(nat \<Rightarrow> nat) \<Rightarrow> nat \<times> nat \<Rightarrow> (nat \<times> nat) list \<Rightarrow> (nat \<times> nat) list" where
  "placed S run [] = []"
| "placed S run (st # newer) =
     (if S (snd st - 1) \<le> fst run then placed S run newer
      else if S (snd st - 1) > snd run then [(block_past S (fst run) st, block_past S (snd run) st + 1)]
      else (block_past S (fst run) st, snd st) # placed S run newer)"

lemma ascending_simps [simp]:
  "ascending []"
  "ascending (s # ss) \<longleftrightarrow> fst s < snd s \<and> (\<forall>x \<in> set ss. snd s \<le> fst x) \<and> ascending ss"
  by (auto simp: ascending_def)

lemma ascending_append: "ascending (xs @ ys) \<longleftrightarrow> ascending xs \<and> ascending ys \<and> (\<forall>x \<in> set xs. \<forall>y \<in> set ys. snd x \<le> fst y)"
  by (auto simp: ascending_def sorted_wrt_append)

lemma hd_filter_upt:
  assumes "s \<le> b" and "b < e" and "P b" and "\<And>h. s \<le> h \<Longrightarrow> h < b \<Longrightarrow> \<not> P h"
  shows "hd (filter P [s..<e]) = b"
proof -
  have "[s..<e] = [s..<b] @ b # [b + 1..<e]" 
    using assms(1,2) upt_add_eq_append [of s b "e - b"] upt_conv_Cons [of b e] by simp
  moreover have "filter P [s..<b] = []" using assms(4) by (auto simp: filter_empty_conv)
  ultimately show ?thesis using assms(3) by simp
qed

lemma block_past_spec:
  assumes "fst st < snd st" and "S (snd st - 1) > p"
  shows "fst st \<le> block_past S p st \<and> block_past S p st < snd st \<and> S (block_past S p st) > p \<and>
    (\<forall>h. fst st \<le> h \<longrightarrow> h < block_past S p st \<longrightarrow> S h \<le> p)"
proof -
  define b where "b = (LEAST h. fst st \<le> h \<and> S h > p)"
  have ex: "fst st \<le> snd st - 1 \<and> S (snd st - 1) > p" using assms by simp
  have b: "fst st \<le> b \<and> S b > p" unfolding b_def by (rule LeastI [of _ "snd st - 1"]) (rule ex)
  have le: "b \<le> snd st - 1" unfolding b_def by (rule Least_le) (rule ex)
  have least: "S h \<le> p" if "fst st \<le> h" "h < b" for h
    using not_less_Least [of h "\<lambda>h. fst st \<le> h \<and> S h > p"] that unfolding b_def by auto
  have "block_past S p st = b"
    unfolding block_past_def by (rule hd_filter_upt) (use b le least assms(1) in \<open>auto simp: not_less\<close>)
  then show ?thesis using b le least assms(1) by auto
qed

lemma bisect_spec:
  assumes "bisect size_at p lo hi = Inr (Some b)" and "sizes_ok S size_at" and "lo \<le> hi" and "S hi > p"
  shows "lo \<le> b \<and> b \<le> hi \<and> S b > p \<and> (\<forall>h. lo \<le> h \<longrightarrow> h < b \<longrightarrow> S h \<le> p)"
  using assms
proof (induction size_at p lo hi arbitrary: b rule: bisect.induct)
  case (1 size_at p lo hi)
  show ?case
  proof (cases "lo < hi")
    case False
    then have "b = lo" using 1(3) by (subst (asm) bisect.simps) simp
    then show ?thesis using False 1(5,6) by auto
  next
    case True
    let ?mid = "lo + (hi - lo) div 2"
    have m: "lo \<le> ?mid" "?mid < hi" using True by auto
    obtain n where n: "size_at ?mid = Inr (Some n)"
      using 1(3) True by (auto simp: bisect.simps [of size_at p lo hi] Let_def split: sum.splits option.splits)
    have sn: "n = S ?mid" and mono: "\<And>a b. a \<le> b \<Longrightarrow> S a \<le> S b" using 1(4) n by (auto simp: sizes_ok_def monoD)
    show ?thesis
    proof (cases "n > p")
      case left: True
      then have "bisect size_at p lo ?mid = Inr (Some b)" using 1(3) True n by (simp add: bisect.simps [of size_at p lo hi] Let_def)
      from 1(1) [OF True refl n refl left this 1(4) m(1)] left sn m show ?thesis by auto
    next
      case right: False
      then have "bisect size_at p (?mid + 1) hi = Inr (Some b)" using 1(3) True n by (simp add: bisect.simps [of size_at p lo hi] Let_def)
      from 1(2) [OF True refl n refl right this 1(4) _ 1(6)] m
      have R: "?mid + 1 \<le> b" "b \<le> hi" "S b > p" "\<And>h. ?mid + 1 \<le> h \<Longrightarrow> h < b \<Longrightarrow> S h \<le> p" by auto
      have "S h \<le> p" if "h < b" for h
      proof (cases "h \<le> ?mid")
        case True
        then show ?thesis using mono [of h ?mid] sn right by simp
      qed (use R(4) [of h] that in simp)
      then show ?thesis using R m by simp
    qed
  qed
qed

lemma first_block_past_spec:
  assumes "first_block_past size_at p st = Inr (Some b)" and "sizes_ok S size_at" and "fst st < snd st"
  shows "S (snd st - 1) > p \<and> b = block_past S p st"
proof -
  obtain n where n: "size_at (snd st - 1) = Inr (Some n)" "\<not> n \<le> p" and bi: "bisect size_at p (fst st) (snd st - 1) = Inr (Some b)"
    using assms(1) by (auto simp: first_block_past_def Let_def split: sum.splits option.splits if_splits)
  have big: "S (snd st - 1) > p" using n assms(2) by (auto simp: sizes_ok_def)
  have B: "fst st \<le> b" "b \<le> snd st - 1" "S b > p" "\<And>h. fst st \<le> h \<Longrightarrow> h < b \<Longrightarrow> S h \<le> p"
    using bisect_spec [OF bi assms(2) _ big] assms(3) by auto
  have "block_past S p st = b" unfolding block_past_def by (rule hd_filter_upt) (use B assms(3) in \<open>auto simp: not_less\<close>)
  then show ?thesis using big by simp
qed

lemma oldest_loop_placed:
  assumes "oldest_loop size_at run stretches acc = Inr (Some rs)" and "sizes_ok S size_at" and "ascending stretches"
  shows "rs = acc @ placed S run stretches"
  using assms
proof (induction size_at run stretches acc rule: oldest_loop.induct)
  case (2 size_at run st newer acc)
  obtain n where n: "size_at (snd st - 1) = Inr (Some n)" using 2(3) by (auto split: sum.splits option.splits)
  have sn: "n = S (snd st - 1)" using 2(4) n by (auto simp: sizes_ok_def)
  show ?case
  proof (cases "n \<le> fst run")
    case True
    then show ?thesis using 2(1) [OF n refl True _ 2(4)] 2(3,5) n sn by simp
  next
    case False
    obtain b where b: "first_block_past size_at (fst run) st = Inr (Some b)"
      using 2(3) n False by (auto split: sum.splits option.splits)
    have bp: "b = block_past S (fst run) st" using first_block_past_spec [OF b 2(4)] 2(5) by simp
    show ?thesis
    proof (cases "n > snd run")
      case True
      obtain c where c: "first_block_past size_at (snd run) st = Inr (Some c)" and rs: "rs = acc @ [(b, c + 1)]"
        using 2(3) n False b True by (auto split: sum.splits option.splits)
      show ?thesis using first_block_past_spec [OF c 2(4)] 2(5) True False sn bp rs by simp
    next
      case le: False
      have "oldest_loop size_at run newer (acc @ [(b, snd st)]) = Inr (Some rs)" using 2(3) n False b le by simp
      then show ?thesis using 2(2) [OF n refl False b refl le _ 2(4)] 2(5) sn bp False le by simp
    qed
  qed
qed simp

lemma placed_low: "\<forall>s \<in> set xs. S (snd s - 1) \<le> fst run \<Longrightarrow> placed S run (xs @ ys) = placed S run ys"
  by (induction xs) auto

lemma ends_low:
  assumes "mono S" and "ascending (older @ [st])" and "s \<in> set older" and "fst st \<le> h" and "S h \<le> n"
  shows "S (snd s - 1) \<le> n"
proof -
  have "snd s - 1 \<le> h" using assms(2-4) by (auto simp: ascending_append)
  then show ?thesis using monoD [OF assms(1)] assms(5) order_trans by blast
qed

abbreviation opt_list :: "'a option \<Rightarrow> 'a list" where
  "opt_list x \<equiv> (case x of None \<Rightarrow> [] | Some r \<Rightarrow> [r])"

lemma newest_loop_placed:
  assumes "newest_loop size_at run (rev older) past rescans = Inr (Some rs)" and "sizes_ok S size_at" and "ascending (older @ newer)"
    and "rev (rescans @ opt_list past) = placed S run newer" and "rescans \<noteq> [] \<Longrightarrow> \<exists>s \<in> set newer. S (snd s - 1) \<le> snd run"
  shows "rs = placed S run (older @ newer)"
  using assms
proof (induction older arbitrary: past rescans newer rule: rev_induct)
  case (snoc st older)
  have mono: "mono S" using snoc.prems(2) by (simp add: sizes_ok_def)
  have asc: "ascending (older @ [st])" "fst st < snd st" "ascending (older @ (st # newer))"
    using snoc.prems(3) by (auto simp: ascending_append)
  obtain n where n: "size_at (snd st - 1) = Inr (Some n)" using snoc.prems(1) by (auto split: sum.splits option.splits)
  have sn: "n = S (snd st - 1)" using snoc.prems(2) n by (auto simp: sizes_ok_def)
  show ?case
  proof (cases "n \<le> fst run")
    case True
    then have "rs = placed S run newer" using snoc.prems(1,4) n by simp
    moreover have "\<forall>s \<in> set (older @ [st]). S (snd s - 1) \<le> fst run"
      using ends_low [OF mono asc(1), of _ "snd st - 1" "fst run"] True sn asc(2) by auto
    ultimately show ?thesis using placed_low by metis
  next
    case False
    obtain b where b: "first_block_past size_at (fst run) st = Inr (Some b)"
      using snoc.prems(1) n False by (auto split: sum.splits option.splits)
    have big: "S (snd st - 1) > fst run" and bp: "b = block_past S (fst run) st"
      using first_block_past_spec [OF b snoc.prems(2) asc(2)] by auto
    have below: "\<forall>s \<in> set older. S (snd s - 1) \<le> fst run" if "b > fst st"
      using ends_low [OF mono asc(1), of _ "b - 1" "fst run"] block_past_spec [where S = S and p = "fst run", OF asc(2) big] bp that by auto
    have stop: "rs = placed S run (older @ st # newer)"
      if l: "newest_loop size_at run (if b > fst st then [] else rev older) past' rescans' = Inr (Some rs)"
        and p: "rev (rescans' @ opt_list past') = placed S run (st # newer)"
        and r: "rescans' \<noteq> [] \<Longrightarrow> \<exists>s \<in> set (st # newer). S (snd s - 1) \<le> snd run" for past' rescans'
    proof (cases "b > fst st")
      case True
      then show ?thesis using l p placed_low [OF below [OF True]] by simp
    next
      case False
      then show ?thesis using snoc.IH [OF _ snoc.prems(2) asc(3) p r] l by simp
    qed
    show ?thesis
    proof (cases "n > snd run")
      case True
      obtain c where c: "first_block_past size_at (snd run) st = Inr (Some c)"
        and l: "newest_loop size_at run (if b > fst st then [] else rev older) (Some (b, c + 1)) rescans = Inr (Some rs)"
        using snoc.prems(1) n False b True by (auto simp: Let_def split: sum.splits option.splits)
      have "rescans = []"
      proof (rule ccontr)
        assume "rescans \<noteq> []"
        then obtain s where s: "s \<in> set newer" "S (snd s - 1) \<le> snd run" using snoc.prems(5) by blast
        then have "snd st \<le> fst s" "fst s < snd s" using asc(3) by (auto simp: ascending_append, auto simp: ascending_def)
        then have "snd st - 1 \<le> snd s - 1" by simp
        then show False using monoD [OF mono] s(2) True sn by fastforce
      qed
      then show ?thesis using stop [OF l] first_block_past_spec [OF c snoc.prems(2) asc(2)] True False sn bp by simp
    next
      case le: False
      have "newest_loop size_at run (if b > fst st then [] else rev older) None (rescans @ opt_list past @ [(b, snd st)]) = Inr (Some rs)"
        using snoc.prems(1) n False b le by (simp add: Let_def)
      from stop [OF this] show ?thesis using snoc.prems(4) False le sn bp by (simp add: not_less)
    qed
  qed
qed simp

lemma rescans_for_placed:
  assumes "rescans_for size_at run stretches = Inr (Some rs)" and "sizes_ok S size_at" and "ascending stretches"
  shows "rs = placed S run stretches"
proof (cases "walk_from_newest size_at run stretches = Inr (Some rs)")
  case True
  then show ?thesis using newest_loop_placed [of size_at run stretches None "[]" rs S "[]"] assms(2,3) by (simp add: walk_from_newest_def)
next
  case False
  then have "oldest_loop size_at run stretches [] = Inr (Some rs)"
    using assms(1) by (auto simp: rescans_for_def walk_from_oldest_def split: sum.splits option.splits)
  then show ?thesis using oldest_loop_placed [OF _ assms(2,3)] by fastforce
qed

text \<open>Every block of a stretch that holds a position of the run lies in a rescan.\<close>

lemma placed_covers:
  assumes "mono S" and "ascending stretches" and "st \<in> set stretches" and "fst st \<le> h" and "h < snd st"
    and "size_before S h \<le> p" and "p < S h" and "fst run \<le> p" and "p \<le> snd run"
  shows "\<exists>(a, b) \<in> set (placed S run stretches). a \<le> h \<and> h < b"
  using assms(2,3)
proof (induction stretches)
  case (Cons s ss)
  have mono: "S x \<le> S y" if "x \<le> y" for x y using monoD [OF assms(1) that] .
  show ?case
  proof (cases "S (snd s - 1) \<le> fst run")
    case True
    have "h \<le> snd st - 1" using assms(5) by simp
    then have "st \<noteq> s" using True assms(7,8) mono [of h "snd st - 1"] by auto
    then show ?thesis using Cons True by auto
  next
    case low: False
    show ?thesis
    proof (cases "st = s")
      case True
      have L: "block_past S (fst run) s \<le> h"
        using block_past_spec [of s "fst run" S] Cons.prems(1) low assms(4,7,8) True by (force simp: not_le)
      have U: "h \<le> block_past S (snd run) s" if big: "S (snd s - 1) > snd run"
      proof (rule ccontr)
        assume "\<not> h \<le> block_past S (snd run) s"
        then have "S (block_past S (snd run) s) \<le> S (h - 1)" and "h \<noteq> 0" using mono by auto
        then show False using block_past_spec [of s "snd run" S] Cons.prems(1) big assms(6,9) by (auto simp: size_before_def)
      qed
      show ?thesis using L U low True assms(5) by (cases "S (snd s - 1) > snd run") auto
    next
      case False
      then have later: "snd s \<le> h" "h \<noteq> 0" using Cons.prems assms(4) by auto
      have "snd s - 1 \<le> h - 1" using later by simp
      then have "\<not> S (snd s - 1) > snd run"
        using mono [of "snd s - 1" "h - 1"] later assms(6,9) by (auto simp: size_before_def)
      then show ?thesis using Cons False low by auto
    qed
  qed
qed simp

text \<open>No rescan leaves its stretch or takes a block that lies wholly before or after the run, a stretch's first block apart.\<close>

lemma placed_within:
  assumes "mono S" and "ascending stretches" and "(a, b) \<in> set (placed S run stretches)" and "fst run \<le> snd run"
  shows "\<exists>st \<in> set stretches. fst st \<le> a \<and> a < b \<and> b \<le> snd st \<and>
    (\<forall>h. a \<le> h \<longrightarrow> h < b \<longrightarrow> fst run < S h \<and> (fst st < h \<longrightarrow> size_before S h \<le> snd run))"
  using assms(2,3)
proof (induction stretches)
  case (Cons s ss)
  have mono: "S x \<le> S y" if "x \<le> y" for x y using monoD [OF assms(1) that] .
  show ?case
  proof (cases "S (snd s - 1) > fst run \<and> (a, b) \<notin> set (placed S run ss) \<or> S (snd s - 1) > snd run")
    case False
    then show ?thesis using Cons assms(4) by (auto split: if_splits)
  next
    case True
    then have big: "S (snd s - 1) > fst run" using assms(4) by auto
    note B = block_past_spec [of s "fst run" S, OF _ big]
    have s: "fst s < snd s" using Cons.prems(1) by simp
    have a: "a = block_past S (fst run) s" using Cons.prems(2) True big by (auto split: if_splits)
    have above: "fst run < S h" if "a \<le> h" for h using B [OF s] a mono [OF that] by auto
    show ?thesis
    proof (cases "S (snd s - 1) > snd run")
      case hi: True
      note C = block_past_spec [of s "snd run" S, OF s hi]
      have b: "b = block_past S (snd run) s + 1" using Cons.prems(2) hi big by (auto split: if_splits)
      have "a < b"
      proof (rule ccontr)
        assume "\<not> a < b"
        then have "S (block_past S (snd run) s) \<le> fst run" using B [OF s] C a b by auto
        then show False using C assms(4) by auto
      qed
      then show ?thesis using B [OF s] C a b above
        by (intro bexI [of _ s]) (auto simp: size_before_def)
    next
      case lo: False
      have b: "b = snd s" using Cons.prems(2) True lo big by (auto split: if_splits)
      have "S (h - 1) \<le> snd run" if "h < b" for h
      proof -
        have "h - 1 \<le> snd s - 1" using that b by simp
        then show ?thesis using mono [of "h - 1" "snd s - 1"] lo by simp
      qed
      then show ?thesis using B [OF s] a b above by (intro bexI [of _ s]) (auto simp: size_before_def)
    qed
  qed
qed simp

lemma bisect_total: "\<forall>h. lo \<le> h \<and> h \<le> hi \<longrightarrow> size_at h = Inr (Some (S h)) \<Longrightarrow> \<exists>b. bisect size_at p lo hi = Inr (Some b)"
proof (induction size_at p lo hi rule: bisect.induct)
  case (1 size_at p lo hi)
  show ?case
  proof (cases "lo < hi")
    case True
    let ?mid = "lo + (hi - lo) div 2"
    have m: "size_at ?mid = Inr (Some (S ?mid))" "?mid < hi" using 1(3) True by auto
    show ?thesis
      using 1(1) [OF True refl m(1) refl] 1(2) [OF True refl m(1) refl] 1(3) True m
      by (cases "S ?mid > p") (auto simp: bisect.simps [of size_at p lo hi] Let_def)
  qed (subst bisect.simps, simp)
qed

lemma first_block_past_total:
  assumes "\<forall>h. fst st \<le> h \<and> h < snd st \<longrightarrow> size_at h = Inr (Some (S h))" and "fst st < snd st" and "S (snd st - 1) > p"
  shows "\<exists>b. first_block_past size_at p st = Inr (Some b)"
proof -
  have "\<exists>b. bisect size_at p (fst st) (snd st - 1) = Inr (Some b)" using assms(1,2) by (intro bisect_total [of _ _ _ S]) auto
  moreover have "size_at (snd st - 1) = Inr (Some (S (snd st - 1)))" using assms(1,2) by auto
  ultimately show ?thesis using assms(3) by (auto simp: first_block_past_def Let_def)
qed

lemma oldest_loop_total:
  assumes "\<forall>st \<in> set stretches. fst st < snd st \<and> (\<forall>h. fst st \<le> h \<and> h < snd st \<longrightarrow> size_at h = Inr (Some (S h)))"
  shows "\<exists>rs. oldest_loop size_at run stretches acc = Inr (Some rs)"
  using assms
proof (induction stretches arbitrary: acc)
  case (Cons st newer)
  have sz: "size_at (snd st - 1) = Inr (Some (S (snd st - 1)))" using Cons.prems by auto
  have F: "\<exists>b. first_block_past size_at p st = Inr (Some b)" if "S (snd st - 1) > p" for p
    using first_block_past_total [of st size_at S p] Cons.prems that by auto
  have IH: "\<exists>rs. oldest_loop size_at run newer acc = Inr (Some rs)" for acc using Cons by auto
  show ?case
  proof (cases "S (snd st - 1) \<le> fst run")
    case False
    then obtain b where b: "first_block_past size_at (fst run) st = Inr (Some b)" using F by (auto simp: not_le)
    show ?thesis
    proof (cases "S (snd st - 1) > snd run")
      case True
      then obtain c where "first_block_past size_at (snd run) st = Inr (Some c)" using F by blast
      then show ?thesis using False True b sz by simp
    qed (use False b sz IH in simp)
  qed (use sz IH in simp)
qed simp

lemma newest_loop_no_error:
  assumes "\<forall>st \<in> set sts. fst st < snd st \<and> (\<forall>h. fst st \<le> h \<longrightarrow> h < snd st \<longrightarrow> size_at h = Inr (Some (S h)))"
  shows "\<exists>r. newest_loop size_at run sts past rescans = Inr r"
  using assms
proof (induction sts arbitrary: past rescans)
  case (Cons st older)
  have sz: "size_at (snd st - 1) = Inr (Some (S (snd st - 1)))" using Cons.prems by auto
  have F: "\<exists>b. first_block_past size_at p st = Inr (Some b)" if "S (snd st - 1) > p" for p
    using first_block_past_total [of st size_at S p] Cons.prems that by auto
  have IH: "\<exists>r. newest_loop size_at run (if c then [] else older) past rescans = Inr r" for c past rescans
    using Cons by (cases c) auto
  show ?case
  proof (cases "S (snd st - 1) \<le> fst run")
    case False
    then obtain b where b: "first_block_past size_at (fst run) st = Inr (Some b)" using F by (auto simp: not_le)
    show ?thesis
    proof (cases "S (snd st - 1) > snd run")
      case True
      then obtain c where "first_block_past size_at (snd run) st = Inr (Some c)" using F by blast
      then show ?thesis using False True b sz IH by (simp add: Let_def)
    qed (use False b sz IH in \<open>simp add: Let_def\<close>)
  qed (use sz in simp)
qed simp

text \<open>
  C11.  The blocks to rescan for a run.  Whatever sizes the wallet lacks, an answer is the one that is right
  when all are known: it has every scanned block that holds a position of the run, it stays within the
  scanned stretches, and but for a stretch's first block it has no block wholly before or after the run.
  With every size known there is an answer.
\<close>

theorem rescans_cover_run:
  assumes "sizes_ok S size_at" and "ascending stretches" and "fst run \<le> snd run"
  shows "(\<forall>rs. rescans_for size_at run stretches = Inr (Some rs) \<longrightarrow>
      rs = placed S run stretches \<and>
      (\<forall>st \<in> set stretches. \<forall>h p. fst st \<le> h \<longrightarrow> h < snd st \<longrightarrow> size_before S h \<le> p \<longrightarrow> p < S h \<longrightarrow> fst run \<le> p \<longrightarrow> p \<le> snd run \<longrightarrow>
         (\<exists>(a, b) \<in> set rs. a \<le> h \<and> h < b)) \<and>
      (\<forall>(a, b) \<in> set rs. \<exists>st \<in> set stretches. fst st \<le> a \<and> a < b \<and> b \<le> snd st \<and>
         (\<forall>h. a \<le> h \<longrightarrow> h < b \<longrightarrow> fst run < S h \<and> (fst st < h \<longrightarrow> size_before S h \<le> snd run)))) \<and>
    ((\<forall>st \<in> set stretches. \<forall>h. fst st \<le> h \<longrightarrow> h < snd st \<longrightarrow> size_at h = Inr (Some (S h))) \<longrightarrow>
       rescans_for size_at run stretches = Inr (Some (placed S run stretches)))"
proof -
  have mono: "mono S" using assms(1) by (simp add: sizes_ok_def)
  have eq: "rs = placed S run stretches" if "rescans_for size_at run stretches = Inr (Some rs)" for rs
    using rescans_for_placed [OF that assms(1,2)] .
  have total: "\<exists>rs. rescans_for size_at run stretches = Inr (Some rs)"
    if known: "\<forall>st \<in> set stretches. \<forall>h. fst st \<le> h \<longrightarrow> h < snd st \<longrightarrow> size_at h = Inr (Some (S h))"
  proof -
    have "\<exists>rs. walk_from_oldest size_at run stretches = Inr (Some rs)"
      using oldest_loop_total [of stretches size_at S run "[]"] known assms(2) by (auto simp: ascending_def walk_from_oldest_def)
    moreover have "\<exists>r. walk_from_newest size_at run stretches = Inr r"
      unfolding walk_from_newest_def by (rule newest_loop_no_error [of _ _ S]) (use known assms(2) in \<open>auto simp: ascending_def\<close>)
    ultimately show ?thesis by (auto simp: rescans_for_def split: option.splits)
  qed
  show ?thesis
    using eq total placed_covers [OF mono assms(2)] placed_within [OF mono assms(2) _ assms(3)] by blast
qed

definition gap_sizes :: "nat \<Rightarrow> string + nat option" where
  "gap_sizes h = Inr (if 50 \<le> h \<and> h < 60 then None else Some (h + 1))"

theorem rescans_cover_run_witness:
  "rescans_for gap_sizes (32, 35) [(10, 20), (30, 40), (50, 60)] = Inr (Some (placed (\<lambda>h. h + 1) (32, 35) [(10, 20), (30, 40), (50, 60)])) \<and>
   walk_from_newest gap_sizes (32, 35) [(10, 20), (30, 40), (50, 60)] = Inr None"
proof -
  have n: "walk_from_newest gap_sizes (32, 35) [(10, 20), (30, 40), (50, 60)] = Inr None"
    by (simp add: walk_from_newest_def gap_sizes_def)
  have "rescans_for gap_sizes (32, 35) [(10, 20), (30, 40), (50, 60)] = Inr (Some [(32, 36)])"
    unfolding rescans_for_def n
    by (simp add: walk_from_oldest_def gap_sizes_def first_block_past_def Let_def bisect.simps [of gap_sizes] bisect.simps [of "\<lambda>h. Inr (f h)" for f])
  moreover have "sizes_ok (\<lambda>h. h + 1) gap_sizes" by (auto simp: sizes_ok_def gap_sizes_def mono_def split: if_splits)
  ultimately show ?thesis using n rescans_cover_run [of "\<lambda>h. h + 1" gap_sizes "[(10, 20), (30, 40), (50, 60)]" "(32, 35)"]
    by auto
qed

section \<open>The scanned stretches\<close>

definition heights_of :: "(nat \<times> nat) list \<Rightarrow> nat set" where
  "heights_of ranges = (\<Union>(s, e) \<in> set ranges. {s..<e})"

lemma heights_of_simps [simp]:
  "heights_of [] = {}" "heights_of (r # rs) = {fst r..<snd r} \<union> heights_of rs" "heights_of (xs @ ys) = heights_of xs \<union> heights_of ys"
  by (auto simp: heights_of_def)

lemma stretch_loop_ok:
  assumes "stretch_loop pending next end' acc = (acc', next')" and "sorted (map fst pending)"
    and "sorted_wrt (\<lambda>a b. snd a \<le> fst b) acc" and "\<forall>a \<in> set acc. snd a \<le> next" and "next \<le> end'"
    and "\<forall>r \<in> set pending. fst r \<le> snd r"
  shows "sorted_wrt (\<lambda>a b. snd a \<le> fst b) (acc' @ (if next' < end' then [(next', end')] else [])) \<and>
    heights_of (acc' @ (if next' < end' then [(next', end')] else [])) = heights_of acc \<union> ({next..<end'} - heights_of pending)"
  using assms
proof (induction pending "next" end' acc rule: stretch_loop.induct)
  case (1 "next" end' acc)
  then show ?case by (auto simp: sorted_wrt_append)
next
  case (2 s e pending "next" end' acc)
  let ?acc = "if s > next then acc @ [(next, min s end')] else acc"
  let ?next = "max next e"
  have low: "\<forall>x \<in> set pending. s \<le> fst x" and sp: "sorted (map fst pending)" using 2(3) by auto
  have hp: "heights_of pending \<subseteq> {s..}" using low by (fastforce simp: heights_of_def)
  have acc: "sorted_wrt (\<lambda>a b. snd a \<le> fst b) ?acc" "\<forall>a \<in> set ?acc. snd a \<le> max next s" using 2(4,5) by (auto simp: sorted_wrt_append)
  have hacc: "heights_of ?acc = heights_of acc \<union> {next..<min s end'}" by auto
  show ?case
  proof (cases "?next \<ge> end'")
    case True
    then have out: "acc' = ?acc" "next' = ?next" using 2(2) by (auto simp: Let_def)
    have "heights_of ?acc = heights_of acc \<union> ({next..<end'} - heights_of ((s, e) # pending))"
      unfolding hacc using True hp 2(6) by (auto simp: subset_iff)
    then show ?thesis using True acc(1) unfolding out by (simp only: not_le [symmetric] if_not_P if_False append_Nil2 simp_thms)
  next
    case False
    then have l: "stretch_loop pending ?next end' ?acc = (acc', next')" using 2(2) by (simp add: Let_def)
    have bound: "\<forall>a \<in> set ?acc. snd a \<le> ?next" using acc(2) 2(7) by force
    have le: "?next \<le> end'" using False by (simp only: not_le less_imp_le)
    have ne: "\<forall>r \<in> set pending. fst r \<le> snd r" using 2(7) by simp
    have "heights_of ?acc \<union> ({?next..<end'} - heights_of pending) = heights_of acc \<union> ({next..<end'} - heights_of ((s, e) # pending))"
      unfolding hacc using hp False by (auto simp: subset_iff)
    then show ?thesis using 2(1) [OF refl refl False l sp acc(1) bound le ne] by (simp only: simp_thms)
  qed
qed

lemma heights_of_filter: "heights_of (filter (\<lambda>(s, e). s < e) xs) = heights_of xs"
  by (induction xs) (simp_all add: case_prod_beta)

lemma stretch_loop_past:
  assumes "end' \<le> n"
  shows "(fst (stretch_loop ps n end' acc) = acc \<or> (\<exists>m. fst (stretch_loop ps n end' acc) = acc @ [(n, m)] \<and> m \<le> end')) \<and>
    n \<le> snd (stretch_loop ps n end' acc)"
proof (cases ps)
  case (Cons r ps')
  then show ?thesis using assms by (cases r) (simp add: Let_def max.coboundedI1)
qed simp

lemma scanned_stretches_ok:
  assumes "\<forall>r \<in> set pending. fst r \<le> snd r"
  shows "ascending (scanned_stretches pending floor' end') \<and>
    heights_of (scanned_stretches pending floor' end') = {floor'..<end'} - heights_of pending"
proof (cases "floor' \<le> end'")
  case True
  obtain acc next' where l: "stretch_loop (sort_key fst pending) floor' end' [] = (acc, next')" by force
  let ?all = "acc @ (if next' < end' then [(next', end')] else [])"
  have ne: "\<forall>r \<in> set (sort_key fst pending). fst r \<le> snd r" using assms by simp
  have L: "sorted_wrt (\<lambda>a b. snd a \<le> fst b) ?all" "heights_of ?all = {floor'..<end'} - heights_of (sort_key fst pending)"
    using stretch_loop_ok [OF l sorted_sort_key _ _ True ne, unfolded heights_of_simps(1) Un_empty_left] by simp_all
  have e: "scanned_stretches pending floor' end' = filter (\<lambda>(s, e). s < e) ?all" unfolding scanned_stretches_def l prod.case by simp
  have "heights_of (sort_key fst pending) = heights_of pending" by (simp add: heights_of_def)
  then have "heights_of (filter (\<lambda>(s, e). s < e) ?all) = {floor'..<end'} - heights_of pending" using L(2) heights_of_filter by metis
  moreover have "ascending (filter (\<lambda>(s, e). s < e) ?all)"
    unfolding ascending_def by (intro conjI sorted_wrt_filter [OF L(1)]) (simp only: set_filter, auto)
  ultimately show ?thesis unfolding e by blast
next
  case False
  obtain acc next' where l: "stretch_loop (sort_key fst pending) floor' end' [] = (acc, next')" by force
  have P: "acc = [] \<or> (\<exists>m. acc = [(floor', m)] \<and> m \<le> end')" "floor' \<le> next'"
    using stretch_loop_past [of end' floor' "sort_key fst pending" "[]"] False l by auto
  have "scanned_stretches pending floor' end' = []" unfolding scanned_stretches_def l prod.case using P False by auto
  then show ?thesis using False by simp
qed

section \<open>The sweep\<close>

record graft_sweep =
  gs_built_rows :: nat
  gs_discarded_rows :: nat
  gs_rescans :: "(nat \<times> nat) list"

definition sweep_none :: graft_sweep where
  "sweep_none = \<lparr>gs_built_rows = 0, gs_discarded_rows = 0, gs_rescans = []\<rparr>"

text \<open>The metadata of a block has the sizes of the three trees at its end, each if recorded.\<close>

record 'w sweep_wallet =
  wl_chain_height :: "'w \<Rightarrow> sqlite_error + nat option"
  wl_birthday :: "'w \<Rightarrow> sqlite_error + nat option"
  wl_suggest :: "'w \<Rightarrow> sqlite_error + (bool \<times> nat \<times> nat) list"
  wl_metadata :: "nat \<Rightarrow> 'w \<Rightarrow> sqlite_error + (nat option \<times> nat option \<times> nat option) option"
  wl_queue_rescan :: "nat \<times> nat \<Rightarrow> 'w \<Rightarrow> sqlite_error + 'w"

record ('w, 'h, 'tr, 'sub) sweep_tree =
  tr_seed :: "'w \<Rightarrow> sqlite_error + 'tr"
  tr_leaf :: "nat \<Rightarrow> nat \<Rightarrow> 'tr \<Rightarrow> string + 'h option"
  tr_stored_root :: "nat \<Rightarrow> 'w \<Rightarrow> sqlite_error + 'h option"
  tr_checkpoints :: "'tr \<Rightarrow> nat list"
  tr_build :: "nat \<Rightarrow> ('h \<times> retention) option list \<Rightarrow> ('sub \<times> (nat \<times> nat) list) list"
  tr_retain :: "nat \<Rightarrow> 'tr \<Rightarrow> string + 'tr"
  tr_insert :: "'sub \<Rightarrow> (nat \<times> nat) list \<Rightarrow> 'tr \<Rightarrow> string + 'tr"
  tr_content_root :: "nat \<Rightarrow> 'tr \<Rightarrow> 'h option"
  tr_flush :: "'tr \<Rightarrow> 'w \<Rightarrow> sqlite_error + 'tr \<times> 'w"

fun pool_name :: "shielded_pool \<Rightarrow> string" where
  "pool_name SaplingPool = ''Sapling''"
| "pool_name OrchardPool = ''Orchard''"
| "pool_name IronwoodPool = ''Ironwood''"

fun retain_anchors :: "('w, 'h, 'tr, 'sub) sweep_tree \<Rightarrow> string \<Rightarrow> nat list \<Rightarrow> 'tr \<Rightarrow> sqlite_error + 'tr" where
  "retain_anchors tr label [] tree = Inr tree"
| "retain_anchors tr label (h # hs) tree =
     (case tr_retain tr h tree of
        Inl e \<Rightarrow> Inl (CorruptedData (label @ '' retain: '' @ e))
      | Inr tree' \<Rightarrow> retain_anchors tr label hs tree')"

fun insert_subtrees :: "('w, 'h, 'tr, 'sub) sweep_tree \<Rightarrow> (nat \<Rightarrow> bool) option \<Rightarrow> string \<Rightarrow> ('sub \<times> (nat \<times> nat) list) list \<Rightarrow> 'tr \<Rightarrow>
    sqlite_error + 'tr" where
  "insert_subtrees tr anchor label [] tree = Inr tree"
| "insert_subtrees tr anchor label ((subtree, checkpoints) # subtrees) tree =
     (case retain_anchors tr label (filter (should_retain_anchor anchor) (map fst checkpoints)) tree of
        Inl e \<Rightarrow> Inl e
      | Inr tree1 \<Rightarrow>
          (case tr_insert tr subtree checkpoints tree1 of
             Inl e \<Rightarrow> Inl (CorruptedData (label @ '' insert: '' @ e))
           | Inr tree2 \<Rightarrow> insert_subtrees tr anchor label subtrees tree2))"

definition insert_deferred_rows :: "('w, 'h, 'tr, 'sub) sweep_tree \<Rightarrow> 'h acc_row list \<Rightarrow> (nat \<Rightarrow> bool) option \<Rightarrow> string \<Rightarrow> 'tr \<Rightarrow>
    sqlite_error + 'tr \<times> bool" where
  "insert_deferred_rows tr rows anchor label tree =
     (case rows_to_segment rows of
        [] \<Rightarrow> Inr (tree, False)
      | (seg_start, seg) # _ \<Rightarrow>
          (let seg' = (case deferred_build_cutoff (tr_checkpoints tr tree) seg of
                         None \<Rightarrow> seg
                       | Some cutoff \<Rightarrow> fst (downgrade_doomed_checkpoints seg cutoff anchor))
           in case insert_subtrees tr anchor label (tr_build tr seg_start seg') tree of
                Inl e \<Rightarrow> Inl e
              | Inr tree' \<Rightarrow> Inr (tree', True)))"

definition insert_checked :: "('w, 'h, 'tr, 'sub) sweep_tree \<Rightarrow> shielded_pool \<Rightarrow> nat \<Rightarrow> 'h acc_row list \<Rightarrow> 'h end_check \<Rightarrow> nat \<Rightarrow>
    (nat \<Rightarrow> bool) option \<Rightarrow> 'tr \<Rightarrow> sqlite_error + 'tr" where
  "insert_checked tr pool shard rows check tip anchor tree =
     (let label = ''graft sweep '' @ pool_name pool
      in case insert_deferred_rows tr (doom_deep_rows rows tip anchor) anchor label tree of
           Inl e \<Rightarrow> Inl e
         | Inr (tree', _) \<Rightarrow>
             (case check of
                LastLeaf \<Rightarrow> Inr tree'
              | ShardRoot stored \<Rightarrow>
                  (case tr_content_root tr shard tree' of
                     Some rt \<Rightarrow>
                       if rt = stored then Inr tree'
                       else Inl (CorruptedData (label @ '': shard '' @ nat_str shard @ '''s root is not the root the wallet stores''))
                   | None \<Rightarrow> Inl (CorruptedData (label @ '': shard '' @ nat_str shard @ '''s root cannot be computed from the tree'')))))"

definition tree_size_at :: "'w sweep_wallet \<Rightarrow> shielded_pool \<Rightarrow> 'w \<Rightarrow> nat \<Rightarrow> sqlite_error + nat option" where
  "tree_size_at wl pool w height =
     (case wl_metadata wl height w of
        Inl e \<Rightarrow> Inl e
      | Inr None \<Rightarrow> Inr None
      | Inr (Some (sapling, orchard, ironwood)) \<Rightarrow>
          Inr (case pool of SaplingPool \<Rightarrow> sapling | OrchardPool \<Rightarrow> orchard | IronwoodPool \<Rightarrow> ironwood))"

definition range_start_position :: "'w sweep_wallet \<Rightarrow> shielded_pool \<Rightarrow> 'w \<Rightarrow> nat \<times> nat \<Rightarrow> sqlite_error + nat option" where
  "range_start_position wl pool w rg = (if fst rg = 0 then Inr None else tree_size_at wl pool w (fst rg - 1))"

fun queue_all :: "'w sweep_wallet \<Rightarrow> (nat \<times> nat) list \<Rightarrow> 'w \<Rightarrow> 'w \<times> (sqlite_error + unit)" where
  "queue_all wl [] w = (w, Inr ())"
| "queue_all wl (r # rs) w = (case wl_queue_rescan wl r w of Inl e \<Rightarrow> (w, Inl e) | Inr w' \<Rightarrow> queue_all wl rs w')"

record sweep_inputs =
  si_fault :: "graft_stmt \<Rightarrow> string option"
  si_pending :: "(bool \<times> nat \<times> nat) list"
  si_stretches :: "(nat \<times> nat) list"
  si_chain_tip :: nat
  si_graft_resumes :: bool
  si_anchor_retention :: "(nat \<Rightarrow> bool) option"

text \<open>What a sweep changes: the wallet, the buffer and its account of what it did.\<close>

record 'w sweep_state =
  sw_wallet :: 'w
  sw_table :: graft_table
  sw_done :: graft_sweep

definition queue_rescans :: "'w sweep_wallet \<Rightarrow> sweep_inputs \<Rightarrow> shielded_pool \<Rightarrow> nat \<times> nat \<Rightarrow> 'w sweep_state \<Rightarrow>
    'w sweep_state \<times> (sqlite_error + bool)" where
  "queue_rescans wl inp pool run st =
     (case rescans_for (tree_size_at wl pool (sw_wallet st)) run (si_stretches inp) of
        Inl e \<Rightarrow> (st, Inl e)
      | Inr None \<Rightarrow> (st, Inr False)
      | Inr (Some rescans) \<Rightarrow>
          (case queue_all wl rescans (sw_wallet st) of
             (w', Inl e) \<Rightarrow> (st\<lparr>sw_wallet := w'\<rparr>, Inl e)
           | (w', Inr _) \<Rightarrow>
               (st\<lparr>sw_wallet := w', sw_done := (sw_done st)\<lparr>gs_rescans := gs_rescans (sw_done st) @ rescans\<rparr>\<rparr>, Inr True)))"

definition discard_run :: "'w sweep_wallet \<Rightarrow> sweep_inputs \<Rightarrow> shielded_pool \<Rightarrow> nat \<Rightarrow> nat \<times> nat \<Rightarrow> 'w sweep_state \<Rightarrow>
    'w sweep_state \<times> (sqlite_error + unit)" where
  "discard_run wl inp pool shard run st =
     (case queue_rescans wl inp pool run st of
        (st1, Inl e) \<Rightarrow> (st1, Inl e)
      | (st1, Inr False) \<Rightarrow> (st1, Inr ())
      | (st1, Inr True) \<Rightarrow>
          (case delete_rows_in (si_fault inp) pool shard (fst run, snd run + 1) (sw_table st1) of
             (t', Inl e) \<Rightarrow> (st1\<lparr>sw_table := t'\<rparr>, Inl e)
           | (t', Inr _) \<Rightarrow>
               (st1\<lparr>sw_table := t', sw_done := (sw_done st1)\<lparr>gs_discarded_rows := gs_discarded_rows (sw_done st1) + (snd run - fst run + 1)\<rparr>\<rparr>,
                Inr ())))"

text \<open>
  One run.  The tree is a copy of what the wallet holds: a build that is refused, or whose transaction
  fails, leaves it as it was.
\<close>

definition sweep_run :: "'w sweep_wallet \<Rightarrow> ('w, 'h, 'tr, 'sub) sweep_tree \<Rightarrow> sweep_inputs \<Rightarrow> shielded_pool \<Rightarrow> nat \<Rightarrow> nat \<times> nat \<Rightarrow>
    'h acc_row list \<Rightarrow> 'h option \<Rightarrow> 'w sweep_state \<times> 'tr \<Rightarrow> ('w sweep_state \<times> 'tr) \<times> (sqlite_error + unit)" where
  "sweep_run wl tr inp pool shard run rows stored_root s =
     (case s of (st, tree) \<Rightarrow>
        (case tr_leaf tr shard (snd run) tree of
           Inl e \<Rightarrow> ((st, tree), Inl (CorruptedData (''shard '' @ nat_str shard @ '': '' @ e)))
         | Inr leaf \<Rightarrow>
             (let last_leaf_matches = (rows \<noteq> [] \<and> leaf = Some (fst (snd (last rows))));
                  check = (if rows_cover_run rows run then end_check_of run last_leaf_matches stored_root else None);
                  inserted = (case check of
                                None \<Rightarrow> None
                              | Some c \<Rightarrow> (case insert_checked tr pool shard rows c (si_chain_tip inp) (si_anchor_retention inp) tree of
                                            Inl _ \<Rightarrow> None | Inr tree' \<Rightarrow> Some tree'))
              in case inserted of
                   Some tree' \<Rightarrow>
                     (case tr_flush tr tree' (sw_wallet st) of
                        Inl e \<Rightarrow> ((st, tree), Inl e)
                      | Inr (tree'', w') \<Rightarrow>
                          (case delete_rows_in (si_fault inp) pool shard (fst run, snd run + 1) (sw_table st) of
                             (t', Inl e) \<Rightarrow> ((st\<lparr>sw_wallet := w', sw_table := t'\<rparr>, tree''), Inl e)
                           | (t', Inr _) \<Rightarrow>
                               ((st\<lparr>sw_wallet := w', sw_table := t',
                                    sw_done := (sw_done st)\<lparr>gs_built_rows := gs_built_rows (sw_done st) + length rows\<rparr>\<rparr>, tree''), Inr ())))
                 | None \<Rightarrow> (case discard_run wl inp pool shard run st of (st', r) \<Rightarrow> ((st', tree), r)))))"

text \<open>A shard whose rows will not decode is swept by position; what fails is left for the next sweep.\<close>

fun undecodable_runs :: "'w sweep_wallet \<Rightarrow> sweep_inputs \<Rightarrow> shielded_pool \<Rightarrow> nat \<Rightarrow> (nat \<times> nat) list \<Rightarrow> 'w sweep_state \<Rightarrow> 'w sweep_state" where
  "undecodable_runs wl inp pool shard [] st = st"
| "undecodable_runs wl inp pool shard (run # runs) st =
     undecodable_runs wl inp pool shard runs (fst (discard_run wl inp pool shard run st))"

definition undecodable_shard :: "'w sweep_wallet \<Rightarrow> sweep_inputs \<Rightarrow> shielded_pool \<Rightarrow> nat \<Rightarrow> nat list \<Rightarrow> 'w sweep_state \<Rightarrow> 'w sweep_state" where
  "undecodable_shard wl inp pool shard positions st = undecodable_runs wl inp pool shard (contiguous_runs positions) st"

type_synonym 'h stranded_shard = "nat \<times> (nat \<times> nat) list \<times> 'h acc_row list"

fun find_stranded :: "'w sweep_wallet \<Rightarrow> (bytes \<Rightarrow> string + 'h) \<Rightarrow> sweep_inputs \<Rightarrow> shielded_pool \<Rightarrow> (nat \<times> nat) list \<Rightarrow> nat list \<Rightarrow>
    'w sweep_state \<Rightarrow> 'w sweep_state \<times> 'h stranded_shard list" where
  "find_stranded wl rd inp pool seeders [] st = (st, [])"
| "find_stranded wl rd inp pool seeders (shard # shards) st =
     (case buffered_positions (si_fault inp) pool shard (sw_table st) of
        Inl _ \<Rightarrow> find_stranded wl rd inp pool seeders shards st
      | Inr positions \<Rightarrow>
          (case load_shard (si_fault inp) rd pool shard (sw_table st) of
             Inr rows \<Rightarrow>
               (case find_stranded wl rd inp pool seeders shards st of
                  (st', found) \<Rightarrow>
                    (st', (if stranded_runs positions (map_of seeders shard) = [] then []
                           else [(shard, stranded_runs positions (map_of seeders shard), rows)]) @ found))
           | Inl e \<Rightarrow>
               find_stranded wl rd inp pool seeders shards
                 (if will_not_decode e then undecodable_shard wl inp pool shard positions st else st)))"

fun sweep_runs :: "'w sweep_wallet \<Rightarrow> ('w, 'h, 'tr, 'sub) sweep_tree \<Rightarrow> sweep_inputs \<Rightarrow> shielded_pool \<Rightarrow> nat \<Rightarrow> 'h acc_row list \<Rightarrow> 'h option \<Rightarrow>
    (nat \<times> nat) list \<Rightarrow> 'w sweep_state \<times> 'tr \<Rightarrow> 'w sweep_state \<times> 'tr" where
  "sweep_runs wl tr inp pool shard rows stored_root [] s = s"
| "sweep_runs wl tr inp pool shard rows stored_root (run # runs) s =
     sweep_runs wl tr inp pool shard rows stored_root runs
       (fst (sweep_run wl tr inp pool shard run
               (takeWhile (\<lambda>row. fst row \<le> snd run) (dropWhile (\<lambda>row. fst row < fst run) rows)) stored_root s))"

fun sweep_stranded :: "'w sweep_wallet \<Rightarrow> ('w, 'h, 'tr, 'sub) sweep_tree \<Rightarrow> sweep_inputs \<Rightarrow> shielded_pool \<Rightarrow> 'h stranded_shard list \<Rightarrow>
    'w sweep_state \<times> 'tr \<Rightarrow> 'w sweep_state \<times> 'tr" where
  "sweep_stranded wl tr inp pool [] s = s"
| "sweep_stranded wl tr inp pool ((shard, runs, rows) # stranded) s =
     sweep_stranded wl tr inp pool stranded
       (case tr_stored_root tr shard (sw_wallet (fst s)) of
          Inl _ \<Rightarrow> s
        | Inr stored_root \<Rightarrow> sweep_runs wl tr inp pool shard rows stored_root runs s)"

fun historic_starts :: "'w sweep_wallet \<Rightarrow> shielded_pool \<Rightarrow> 'w \<Rightarrow> (bool \<times> nat \<times> nat) list \<Rightarrow> sqlite_error + nat option list" where
  "historic_starts wl pool w [] = Inr []"
| "historic_starts wl pool w ((historic, rg) # pending) =
     (if \<not> historic then historic_starts wl pool w pending
      else case range_start_position wl pool w rg of
             Inl e \<Rightarrow> Inl e
           | Inr start \<Rightarrow> map_sum id (Cons start) (historic_starts wl pool w pending))"

definition sweep_pool :: "'w sweep_wallet \<Rightarrow> ('w, 'h, 'tr, 'sub) sweep_tree \<Rightarrow> (bytes \<Rightarrow> string + 'h) \<Rightarrow> sweep_inputs \<Rightarrow> shielded_pool \<Rightarrow>
    nat list \<Rightarrow> 'w sweep_state \<Rightarrow> 'w sweep_state \<times> (sqlite_error + unit)" where
  "sweep_pool wl tr rd inp pool shards st =
     (if shards = [] then (st, Inr ())
      else case (if si_graft_resumes inp then map_sum id first_seeders (historic_starts wl pool (sw_wallet st) (si_pending inp)) else Inr []) of
             Inl e \<Rightarrow> (st, Inl e)
           | Inr seeders \<Rightarrow>
               (case find_stranded wl rd inp pool seeders shards st of
                  (st1, stranded) \<Rightarrow>
                    if stranded = [] then (st1, Inr ())
                    else (case tr_seed tr (sw_wallet st1) of
                            Inl e \<Rightarrow> (st1, Inl e)
                          | Inr tree \<Rightarrow> (fst (sweep_stranded wl tr inp pool stranded (st1, tree)), Inr ()))))"

definition read_queue :: "'w sweep_wallet \<Rightarrow> nat \<Rightarrow> nat \<Rightarrow> 'w \<Rightarrow> sqlite_error + (bool \<times> nat \<times> nat) list \<times> (nat \<times> nat) list" where
  "read_queue wl floor' tip w =
     (case wl_suggest wl w of
        Inl e \<Rightarrow> Inl e
      | Inr pending \<Rightarrow> Inr (pending, scanned_stretches (map snd pending) floor' (tip + 1)))"

text \<open>The Sapling pool, then the Orchard pool, over a queue read again when the first queued rescans.\<close>

definition sweep_both :: "'w sweep_wallet \<Rightarrow> ('w, 'h1, 'tr1, 'sub1) sweep_tree \<Rightarrow> ('w, 'h2, 'tr2, 'sub2) sweep_tree \<Rightarrow>
    (bytes \<Rightarrow> string + 'h1) \<Rightarrow> (bytes \<Rightarrow> string + 'h2) \<Rightarrow> sweep_inputs \<Rightarrow> nat \<Rightarrow> nat \<Rightarrow> nat list \<Rightarrow> nat list \<Rightarrow> 'w \<times> graft_table \<Rightarrow> 'w sweep_state" where
  "sweep_both wl sapling orchard rd1 rd2 inp floor' tip sapling_shards orchard_shards s =
     (let st1 = fst (sweep_pool wl sapling rd1 inp SaplingPool sapling_shards
                       \<lparr>sw_wallet = fst s, sw_table = snd s, sw_done = sweep_none\<rparr>);
          queue = (if gs_rescans (sw_done st1) = [] \<or> orchard_shards = [] then Inr (si_pending inp, si_stretches inp)
                   else read_queue wl floor' tip (sw_wallet st1))
      in case queue of
           Inl _ \<Rightarrow> st1
         | Inr (pending, stretches) \<Rightarrow>
             fst (sweep_pool wl orchard rd2 (inp\<lparr>si_pending := pending, si_stretches := stretches\<rparr>) OrchardPool orchard_shards st1))"

text \<open>
  \<open>opened\<close> is what opening the side connection gives, \<open>show_err\<close> the rendering of a wallet error.  A pool
  that cannot be swept is left as it is; only what fails before any pool is swept is an error.
\<close>

definition sweep_stranded_graft_rows :: "'w sweep_wallet \<Rightarrow> ('w, 'h1, 'tr1, 'sub1) sweep_tree \<Rightarrow> ('w, 'h2, 'tr2, 'sub2) sweep_tree \<Rightarrow>
    (bytes \<Rightarrow> string + 'h1) \<Rightarrow> (bytes \<Rightarrow> string + 'h2) \<Rightarrow> (sqlite_error \<Rightarrow> string) \<Rightarrow> (graft_stmt \<Rightarrow> string option) \<Rightarrow> slipstream_error + unit \<Rightarrow>
    bool \<Rightarrow> (nat \<Rightarrow> bool) option \<Rightarrow> 'w \<times> graft_table \<Rightarrow> ('w \<times> graft_table) \<times> (slipstream_error + graft_sweep)" where
  "sweep_stranded_graft_rows wl sapling orchard rd1 rd2 show_err fault opened graft_resumes anchor s =
     (let werr = (\<lambda>e. Wallet (''graft sweep: '' @ show_err e)); w = fst s; t = snd s
      in case opened of Inl e \<Rightarrow> (s, Inl e) | Inr _ \<Rightarrow>
         (case buffered_shards fault SaplingPool t of Inl e \<Rightarrow> (s, Inl (werr e)) | Inr sapling_shards \<Rightarrow>
         (case buffered_shards fault OrchardPool t of Inl e \<Rightarrow> (s, Inl (werr e)) | Inr orchard_shards \<Rightarrow>
          if sapling_shards = [] \<and> orchard_shards = [] then (s, Inr sweep_none)
          else
         (case wl_chain_height wl w of Inl e \<Rightarrow> (s, Inl (werr e)) | Inr tip_opt \<Rightarrow>
         (case wl_birthday wl w of Inl e \<Rightarrow> (s, Inl (werr e)) | Inr floor_opt \<Rightarrow>
         (case (tip_opt, floor_opt) of
            (Some tip, Some floor') \<Rightarrow>
              (case read_queue wl floor' tip w of Inl e \<Rightarrow> (s, Inl (werr e)) | Inr (pending, stretches) \<Rightarrow>
                 (let st = sweep_both wl sapling orchard rd1 rd2
                             \<lparr>si_fault = fault, si_pending = pending, si_stretches = stretches, si_chain_tip = tip,
                              si_graft_resumes = graft_resumes, si_anchor_retention = anchor\<rparr>
                             floor' tip sapling_shards orchard_shards s
                  in ((sw_wallet st, sw_table st), Inr (sw_done st))))
          | _ \<Rightarrow> (s, Inr sweep_none)))))))"

section \<open>No row is lost\<close>

text \<open>
  What is assumed of the wallet and of a pool's tree.  \<open>pend w\<close> are the heights the wallet has queued,
  \<open>in_tree w q\<close> the positions its tree has accounted for, \<open>S q\<close> the true sizes of the trees, of which the
  wallet's metadata has some.  \<open>pos\<close> and \<open>sub_pos\<close> are the positions in a tree in memory and in a subtree.
\<close>

definition wallet_contract :: "'w sweep_wallet \<Rightarrow> ('w \<Rightarrow> nat set) \<Rightarrow> ('w \<Rightarrow> shielded_pool \<Rightarrow> nat set) \<Rightarrow> (shielded_pool \<Rightarrow> nat \<Rightarrow> nat) \<Rightarrow> bool" where
  "wallet_contract wl pend in_tree S \<longleftrightarrow>
     (\<forall>q. mono (S q)) \<and>
     (\<forall>w h a b c. wl_metadata wl h w = Inr (Some (a, b, c)) \<longrightarrow>
        a \<in> {None, Some (S SaplingPool h)} \<and> b \<in> {None, Some (S OrchardPool h)} \<and> c \<in> {None, Some (S IronwoodPool h)}) \<and>
     (\<forall>w rs. wl_suggest wl w = Inr rs \<longrightarrow> (\<forall>r \<in> set rs. fst (snd r) \<le> snd (snd r)) \<and> heights_of (map snd rs) = pend w) \<and>
     (\<forall>w r w'. wl_queue_rescan wl r w = Inr w' \<longrightarrow> pend w' = pend w \<union> {fst r..<snd r} \<and> in_tree w' = in_tree w)"

definition tree_contract :: "('w, 'h, 'tr, 'sub) sweep_tree \<Rightarrow> shielded_pool \<Rightarrow> ('w \<Rightarrow> nat set) \<Rightarrow> ('w \<Rightarrow> shielded_pool \<Rightarrow> nat set) \<Rightarrow>
    ('tr \<Rightarrow> nat set) \<Rightarrow> ('sub \<Rightarrow> nat set) \<Rightarrow> bool" where
  "tree_contract tr pool pend in_tree pos sub_pos \<longleftrightarrow>
     (\<forall>start rows i. i < length rows \<longrightarrow> rows ! i \<noteq> None \<longrightarrow> (\<exists>x \<in> set (tr_build tr start rows). start + i \<in> sub_pos (fst x))) \<and>
     (\<forall>h t t'. tr_retain tr h t = Inr t' \<longrightarrow> pos t' = pos t) \<and>
     (\<forall>x cps t t'. tr_insert tr x cps t = Inr t' \<longrightarrow> pos t' = pos t \<union> sub_pos x) \<and>
     (\<forall>t w t' w'. tr_flush tr t w = Inr (t', w') \<longrightarrow>
        pos t \<subseteq> in_tree w' pool \<and> (\<forall>q. in_tree w q \<subseteq> in_tree w' q) \<and> pend w' = pend w)"

text \<open>
  A position is safe: its leaf is in the wallet's tree, or every block from the birthday to the tip that
  holds it is queued.  The buffer has lost nothing when every row is as it was, or gone and safe.
\<close>

definition safe_at :: "('w \<Rightarrow> nat set) \<Rightarrow> ('w \<Rightarrow> shielded_pool \<Rightarrow> nat set) \<Rightarrow> (shielded_pool \<Rightarrow> nat \<Rightarrow> nat) \<Rightarrow> nat \<Rightarrow> nat \<Rightarrow> 'w \<Rightarrow>
    shielded_pool \<Rightarrow> nat \<Rightarrow> bool" where
  "safe_at pend in_tree S floor' tip w q p \<longleftrightarrow>
     p \<in> in_tree w q \<or> (\<forall>h. floor' \<le> h \<longrightarrow> h \<le> tip \<longrightarrow> size_before (S q) h \<le> p \<longrightarrow> p < S q h \<longrightarrow> h \<in> pend w)"

definition nothing_lost :: "('w \<Rightarrow> nat set) \<Rightarrow> ('w \<Rightarrow> shielded_pool \<Rightarrow> nat set) \<Rightarrow> (shielded_pool \<Rightarrow> nat \<Rightarrow> nat) \<Rightarrow> nat \<Rightarrow> nat \<Rightarrow>
    graft_table \<Rightarrow> 'w \<times> graft_table \<Rightarrow> bool" where
  "nothing_lost pend in_tree S floor' tip t0 s \<longleftrightarrow>
     (\<forall>k. map_of (snd s) k = map_of t0 k \<or>
        map_of (snd s) k = None \<and> (\<exists>q. fst k = pool_code q \<and> safe_at pend in_tree S floor' tip (fst s) q (snd (snd k))))"

lemma safe_at_mono:
  "safe_at pend in_tree S floor' tip w q p \<Longrightarrow> pend w \<subseteq> pend w' \<Longrightarrow> in_tree w q \<subseteq> in_tree w' q \<Longrightarrow> safe_at pend in_tree S floor' tip w' q p"
  by (auto simp: safe_at_def)

lemma nothing_lost_wallet:
  assumes "nothing_lost pend in_tree S floor' tip t0 (w, t)" and "pend w \<subseteq> pend w'" and "\<And>q. in_tree w q \<subseteq> in_tree w' q"
  shows "nothing_lost pend in_tree S floor' tip t0 (w', t)"
proof -
  have "\<And>q p. safe_at pend in_tree S floor' tip w q p \<Longrightarrow> safe_at pend in_tree S floor' tip w' q p"
    by (rule safe_at_mono [OF _ assms(2) assms(3)])
  with assms(1) show ?thesis unfolding nothing_lost_def fst_conv snd_conv by blast
qed

lemma nothing_lost_delete:
  assumes "nothing_lost pend in_tree S floor' tip t0 (w, t)" and "bt_sorted t"
    and "delete_rows_in fault pool shard (lo, hi + 1) t = (t', r)"
    and "\<And>p. lo \<le> p \<Longrightarrow> p \<le> hi \<Longrightarrow> safe_at pend in_tree S floor' tip w pool p"
  shows "nothing_lost pend in_tree S floor' tip t0 (w, t') \<and> bt_sorted t'"
proof -
  note D = delete_rows_lookup [OF assms(3,2)]
  show ?thesis using assms(1,4) D unfolding nothing_lost_def by (auto simp: less_Suc_eq_le)
qed

text \<open>What holds between two steps of a sweep whose stretches are \<open>stretches\<close>.\<close>

definition sweep_inv :: "('w \<Rightarrow> nat set) \<Rightarrow> ('w \<Rightarrow> shielded_pool \<Rightarrow> nat set) \<Rightarrow> (shielded_pool \<Rightarrow> nat \<Rightarrow> nat) \<Rightarrow> nat \<Rightarrow> nat \<Rightarrow>
    graft_table \<Rightarrow> (nat \<times> nat) list \<Rightarrow> 'w sweep_state \<Rightarrow> bool" where
  "sweep_inv pend in_tree S floor' tip t0 stretches st \<longleftrightarrow>
     nothing_lost pend in_tree S floor' tip t0 (sw_wallet st, sw_table st) \<and> bt_sorted (sw_table st) \<and> ascending stretches \<and>
     {floor'..<tip + 1} - heights_of stretches \<subseteq> pend (sw_wallet st)"

lemma sweep_inv_wallet:
  assumes "sweep_inv pend in_tree S floor' tip t0 stretches st" and "pend (sw_wallet st) \<subseteq> pend w'"
    and "\<And>q. in_tree (sw_wallet st) q \<subseteq> in_tree w' q" and "sw_table st' = sw_table st" and "sw_wallet st' = w'"
  shows "sweep_inv pend in_tree S floor' tip t0 stretches st'"
proof -
  have "nothing_lost pend in_tree S floor' tip t0 (sw_wallet st, sw_table st)" using assms(1) by (simp add: sweep_inv_def)
  from nothing_lost_wallet [OF this assms(2,3)] show ?thesis
    using assms(1,2) unfolding sweep_inv_def assms(4,5) by blast
qed

lemma sweep_inv_delete:
  assumes "sweep_inv pend in_tree S floor' tip t0 stretches st"
    and "delete_rows_in fault pool shard (fst run, snd run + 1) (sw_table st) = (t', r)"
    and "\<And>p. fst run \<le> p \<Longrightarrow> p \<le> snd run \<Longrightarrow> safe_at pend in_tree S floor' tip (sw_wallet st) pool p"
    and "sw_table st' = t'" and "sw_wallet st' = sw_wallet st"
  shows "sweep_inv pend in_tree S floor' tip t0 stretches st'"
proof -
  have i: "nothing_lost pend in_tree S floor' tip t0 (sw_wallet st, sw_table st)" "bt_sorted (sw_table st)"
    using assms(1) by (simp_all add: sweep_inv_def)
  from nothing_lost_delete [OF i assms(2,3)] show ?thesis using assms(1) unfolding sweep_inv_def assms(4,5) by blast
qed

lemma queue_all_ok:
  assumes "wallet_contract wl pend in_tree S" and "queue_all wl rs w = (w', r)"
  shows "pend w \<subseteq> pend w' \<and> in_tree w' = in_tree w \<and> (r = Inr () \<longrightarrow> heights_of rs \<subseteq> pend w')"
  using assms(2)
proof (induction rs arbitrary: w)
  case (Cons x rs)
  show ?case
  proof (cases "wl_queue_rescan wl x w")
    case (Inr w1)
    then have "pend w1 = pend w \<union> {fst x..<snd x} \<and> in_tree w1 = in_tree w" using assms(1) unfolding wallet_contract_def by blast
    moreover have "queue_all wl rs w1 = (w', r)" using Cons.prems Inr by simp
    from Cons.IH [OF this] have "pend w1 \<subseteq> pend w' \<and> in_tree w' = in_tree w1 \<and> (r = Inr () \<longrightarrow> heights_of rs \<subseteq> pend w')" .
    ultimately show ?thesis by auto
  qed (use Cons.prems in auto)
qed auto

lemma tree_size_sizes_ok: "wallet_contract wl pend in_tree S \<Longrightarrow> sizes_ok (S pool) (tree_size_at wl pool w)"
  unfolding sizes_ok_def
proof (intro conjI allI impI)
  fix h n
  assume c: "wallet_contract wl pend in_tree S" and t: "tree_size_at wl pool w h = Inr (Some n)"
  then obtain a b c' where m: "wl_metadata wl h w = Inr (Some (a, b, c'))"
    and n: "(case pool of SaplingPool \<Rightarrow> a | OrchardPool \<Rightarrow> b | IronwoodPool \<Rightarrow> c') = Some n"
    by (auto simp: tree_size_at_def split: sum.splits option.splits)
  have "a \<in> {None, Some (S SaplingPool h)} \<and> b \<in> {None, Some (S OrchardPool h)} \<and> c' \<in> {None, Some (S IronwoodPool h)}"
    using c m unfolding wallet_contract_def by blast
  then show "n = S pool h" using n by (cases pool) auto
qed (simp add: wallet_contract_def)

lemma queue_rescans_ok:
  assumes "wallet_contract wl pend in_tree S" and "sweep_inv pend in_tree S floor' tip t0 (si_stretches inp) st"
    and "queue_rescans wl inp pool run st = (st', r)"
  shows "sweep_inv pend in_tree S floor' tip t0 (si_stretches inp) st' \<and>
    (r = Inr True \<longrightarrow> (\<forall>p. fst run \<le> p \<longrightarrow> p \<le> snd run \<longrightarrow> safe_at pend in_tree S floor' tip (sw_wallet st') pool p))"
proof (cases "\<exists>rs. rescans_for (tree_size_at wl pool (sw_wallet st)) run (si_stretches inp) = Inr (Some rs)")
  case True
  then obtain rs where rs: "rescans_for (tree_size_at wl pool (sw_wallet st)) run (si_stretches inp) = Inr (Some rs)" by blast
  obtain w' q where q: "queue_all wl rs (sw_wallet st) = (w', q)" by force
  note Q = queue_all_ok [OF assms(1) q]
  have asc: "ascending (si_stretches inp)" and cover: "{floor'..<tip + 1} - heights_of (si_stretches inp) \<subseteq> pend w'"
    using assms(2) Q by (auto simp: sweep_inv_def)
  have eq: "rs = placed (S pool) run (si_stretches inp)" using rescans_for_placed [OF rs tree_size_sizes_ok [OF assms(1)] asc] .
  have st': "sw_wallet st' = w'" "sw_table st' = sw_table st" "r = Inr True \<Longrightarrow> q = Inr ()"
    using assms(3) rs q by (auto simp: queue_rescans_def split: sum.splits)
  have "sweep_inv pend in_tree S floor' tip t0 (si_stretches inp) st'"
    using sweep_inv_wallet [OF assms(2) _ _ st'(2,1)] Q by simp
  moreover have "safe_at pend in_tree S floor' tip w' pool p" if "r = Inr True" and p: "fst run \<le> p" "p \<le> snd run" for p
  proof -
    have hs: "heights_of rs \<subseteq> pend w'" using Q st'(3) [OF that(1)] by simp
    have "h \<in> pend w'" if h: "floor' \<le> h" "h \<le> tip" "size_before (S pool) h \<le> p" "p < S pool h" for h
    proof (cases "h \<in> heights_of (si_stretches inp)")
      case True
      then obtain s where "s \<in> set (si_stretches inp)" "fst s \<le> h" "h < snd s" by (auto simp: heights_of_def)
      from placed_covers [OF _ asc this h(3,4) p] have "h \<in> heights_of rs"
        using assms(1) unfolding eq heights_of_def wallet_contract_def by fastforce
      then show ?thesis using hs by blast
    qed (use cover h in auto)
    then show ?thesis by (simp add: safe_at_def)
  qed
  ultimately show ?thesis using st'(1) by blast
next
  case False
  then have "st' = st \<and> r \<noteq> Inr True" using assms(3) by (auto simp: queue_rescans_def split: sum.splits option.splits)
  then show ?thesis using assms(2) by blast
qed

lemma discard_run_ok:
  assumes "wallet_contract wl pend in_tree S" and "sweep_inv pend in_tree S floor' tip t0 (si_stretches inp) st"
  shows "sweep_inv pend in_tree S floor' tip t0 (si_stretches inp) (fst (discard_run wl inp pool shard run st))"
proof -
  obtain st1 r where q: "queue_rescans wl inp pool run st = (st1, r)" by force
  note Q = queue_rescans_ok [OF assms q]
  show ?thesis
  proof (cases "r = Inr True")
    case True
    obtain t' d where d: "delete_rows_in (si_fault inp) pool shard (fst run, snd run + 1) (sw_table st1) = (t', d)" by force
    have "sw_table (fst (discard_run wl inp pool shard run st)) = t'" "sw_wallet (fst (discard_run wl inp pool shard run st)) = sw_wallet st1"
      using q d True by (auto simp: discard_run_def split: sum.splits)
    then show ?thesis using sweep_inv_delete [OF conjunct1 [OF Q] d] Q True by blast
  next
    case False
    then have "fst (discard_run wl inp pool shard run st) = st1" using q by (auto simp: discard_run_def split: sum.splits bool.splits)
    then show ?thesis using Q by simp
  qed
qed

lemma retain_anchors_pos:
  "tree_contract tr pool pend in_tree pos sub_pos \<Longrightarrow> retain_anchors tr label hs t = Inr t' \<Longrightarrow> pos t' = pos t"
proof (induction hs arbitrary: t)
  case (Cons h hs)
  then obtain t1 where r: "tr_retain tr h t = Inr t1" "retain_anchors tr label hs t1 = Inr t'" by (auto split: sum.splits)
  have "pos t1 = pos t" using Cons.prems(1) r(1) unfolding tree_contract_def by blast
  then show ?case using Cons.IH [OF Cons.prems(1) r(2)] by simp
qed simp

lemma insert_subtrees_pos:
  "tree_contract tr pool pend in_tree pos sub_pos \<Longrightarrow> insert_subtrees tr anchor label subs t = Inr t' \<Longrightarrow>
    pos t' = pos t \<union> (\<Union>x \<in> set subs. sub_pos (fst x))"
proof (induction subs arbitrary: t)
  case (Cons x subs)
  obtain sub cps where x: "x = (sub, cps)" by force
  obtain t1 t2 where r: "retain_anchors tr label (filter (should_retain_anchor anchor) (map fst cps)) t = Inr t1"
    "tr_insert tr sub cps t1 = Inr t2" "insert_subtrees tr anchor label subs t2 = Inr t'"
    using Cons.prems(2) unfolding x by (auto split: sum.splits)
  have "pos t2 = pos t1 \<union> sub_pos sub" using Cons.prems(1) r(2) unfolding tree_contract_def by blast
  then show ?case using Cons.IH [OF Cons.prems(1) r(3)] retain_anchors_pos [OF Cons.prems(1) r(1)] unfolding x by auto
qed simp

lemma insert_deferred_rows_pos:
  assumes "tree_contract tr pool pend in_tree pos sub_pos" and "insert_deferred_rows tr rows anchor label t = Inr (t', b)"
    and "i < length rows"
  shows "fst (hd rows) + i \<in> pos t'"
proof -
  let ?seg = "map (\<lambda>(_, h, r). Some (h, r)) rows"
  have rs: "rows_to_segment rows = [(fst (hd rows), ?seg)]" using assms(3) by (auto simp: rows_to_segment_def)
  define seg' where "seg' = (case deferred_build_cutoff (tr_checkpoints tr t) ?seg of None \<Rightarrow> ?seg
    | Some cutoff \<Rightarrow> fst (downgrade_doomed_checkpoints ?seg cutoff anchor))"
  have seg': "i < length seg'" "seg' ! i \<noteq> None"
    using assms(3) by (auto simp: seg'_def downgrade_doomed_checkpoints_def case_prod_beta split: option.splits)
  have ins: "insert_subtrees tr anchor label (tr_build tr (fst (hd rows)) seg') t = Inr t'"
    using assms(2) unfolding insert_deferred_rows_def rs list.case prod.case Let_def seg'_def [symmetric] by (auto split: sum.splits)
  have "\<exists>x \<in> set (tr_build tr (fst (hd rows)) seg'). fst (hd rows) + i \<in> sub_pos (fst x)"
    using assms(1) seg' by (simp only: tree_contract_def simp_thms)
  then show ?thesis using insert_subtrees_pos [OF assms(1) ins] by blast
qed

lemma insert_checked_pos:
  assumes "tree_contract tr pool pend in_tree pos sub_pos" and "insert_checked tr pool shard rows check tip anchor t = Inr t'"
    and "rows_cover_run rows run" and "fst run \<le> p" and "p \<le> snd run"
  shows "p \<in> pos t'"
proof -
  let ?rows = "doom_deep_rows rows tip anchor"
  have len: "length ?rows = length rows" and hd: "fst (hd ?rows) = fst run"
    using assms(3) by (auto simp: doom_deep_rows_def rows_cover_run_def hd_map case_prod_beta)
  obtain b where "insert_deferred_rows tr ?rows anchor (''graft sweep '' @ pool_name pool) t = Inr (t', b)"
    using assms(2) by (auto simp: insert_checked_def Let_def split: sum.splits end_check.splits option.splits if_splits)
  from insert_deferred_rows_pos [OF assms(1) this, of "p - fst run"] show ?thesis
    using assms(3-5) len hd by (simp add: rows_cover_run_def)
qed

text \<open>A run is left, given up for a rescan, or built and then deleted.\<close>

lemma sweep_run_outcomes:
  fixes wl tr inp pool shard run rows root' st tree
  defines "st' \<equiv> fst (fst (sweep_run wl tr inp pool shard run rows root' (st, tree)))"
  obtains "st' = st" | "st' = fst (discard_run wl inp pool shard run st)"
  | c tree' tree'' w' t' d where "rows_cover_run rows run"
    "insert_checked tr pool shard rows c (si_chain_tip inp) (si_anchor_retention inp) tree = Inr tree'"
    "tr_flush tr tree' (sw_wallet st) = Inr (tree'', w')"
    "delete_rows_in (si_fault inp) pool shard (fst run, snd run + 1) (sw_table st) = (t', d)"
    "sw_wallet st' = w'" "sw_table st' = t'"
proof (cases "tr_leaf tr shard (snd run) tree")
  case (Inl e)
  then have "st' = st" by (simp add: st'_def sweep_run_def)
  then show ?thesis by (rule that(1))
next
  case (Inr leaf)
  define check where "check = (if rows_cover_run rows run then end_check_of run (rows \<noteq> [] \<and> leaf = Some (fst (snd (last rows)))) root' else None)"
  show ?thesis
  proof (cases "\<exists>c tree'. check = Some c \<and> insert_checked tr pool shard rows c (si_chain_tip inp) (si_anchor_retention inp) tree = Inr tree'")
    case True
    then obtain c tree' where c: "check = Some c"
      "insert_checked tr pool shard rows c (si_chain_tip inp) (si_anchor_retention inp) tree = Inr tree'" by blast
    have cov: "rows_cover_run rows run" using c(1) by (simp add: check_def split: if_splits)
    show ?thesis
    proof (cases "tr_flush tr tree' (sw_wallet st)")
      case (Inl e)
      then have "st' = st" unfolding st'_def sweep_run_def prod.case Inr sum.case Let_def check_def [symmetric] c option.case by simp
      then show ?thesis by (rule that(1))
    next
      case (Inr x)
      obtain tree'' w' where x: "x = (tree'', w')" by force
      obtain t' d where d: "delete_rows_in (si_fault inp) pool shard (fst run, snd run + 1) (sw_table st) = (t', d)" by force
      have "sw_wallet st' = w' \<and> sw_table st' = t'"
        unfolding st'_def sweep_run_def prod.case \<open>tr_leaf tr shard (snd run) tree = Inr leaf\<close> sum.case Let_def check_def [symmetric] c option.case
          Inr x d by (simp split: sum.split)
      then show ?thesis using that(3) [OF cov c(2) Inr [unfolded x] d] by blast
    qed
  next
    case False
    then have n: "(case check of None \<Rightarrow> None
        | Some c \<Rightarrow> (case insert_checked tr pool shard rows c (si_chain_tip inp) (si_anchor_retention inp) tree of
                      Inl _ \<Rightarrow> None | Inr tree' \<Rightarrow> Some tree')) = None"
      by (auto split: option.splits sum.splits)
    have "st' = fst (discard_run wl inp pool shard run st)"
      unfolding st'_def sweep_run_def prod.case Inr sum.case Let_def check_def [symmetric] n option.case by (simp split: prod.split)
    then show ?thesis by (rule that(2))
  qed
qed

lemma sweep_run_ok:
  assumes "wallet_contract wl pend in_tree S" and "tree_contract tr pool pend in_tree pos sub_pos"
    and "sweep_inv pend in_tree S floor' tip t0 (si_stretches inp) (fst s)"
  shows "sweep_inv pend in_tree S floor' tip t0 (si_stretches inp) (fst (fst (sweep_run wl tr inp pool shard run rows root' s)))"
proof -
  obtain st tree where s: "s = (st, tree)" by force
  have inv: "sweep_inv pend in_tree S floor' tip t0 (si_stretches inp) st" using assms(3) s by simp
  let ?st' = "fst (fst (sweep_run wl tr inp pool shard run rows root' s))"
  consider "?st' = st" | "?st' = fst (discard_run wl inp pool shard run st)"
    | c tree' tree'' w' t' d where "rows_cover_run rows run"
      "insert_checked tr pool shard rows c (si_chain_tip inp) (si_anchor_retention inp) tree = Inr tree'"
      "tr_flush tr tree' (sw_wallet st) = Inr (tree'', w')"
      "delete_rows_in (si_fault inp) pool shard (fst run, snd run + 1) (sw_table st) = (t', d)"
      "sw_wallet ?st' = w'" "sw_table ?st' = t'"
    by (rule sweep_run_outcomes [of wl tr inp pool shard run rows root' st tree, folded s])
  then show ?thesis
  proof cases
    case 3
    have f: "pos tree' \<subseteq> in_tree w' pool \<and> (\<forall>q. in_tree (sw_wallet st) q \<subseteq> in_tree w' q) \<and> pend w' = pend (sw_wallet st)"
      using assms(2) 3(3) unfolding tree_contract_def by blast
    have "sweep_inv pend in_tree S floor' tip t0 (si_stretches inp) (st\<lparr>sw_wallet := w'\<rparr>)"
      by (rule sweep_inv_wallet [OF inv]) (use f in auto)
    moreover have "safe_at pend in_tree S floor' tip w' pool p" if "fst run \<le> p" "p \<le> snd run" for p
      using insert_checked_pos [OF assms(2) 3(2,1) that] f by (auto simp: safe_at_def)
    ultimately show ?thesis using sweep_inv_delete [of pend in_tree S floor' tip t0 _ "st\<lparr>sw_wallet := w'\<rparr>" _ pool shard run t' d ?st'] 3(4-6) by simp
  qed (use inv discard_run_ok [OF assms(1) inv] in auto)
qed

lemma undecodable_runs_ok:
  "wallet_contract wl pend in_tree S \<Longrightarrow> sweep_inv pend in_tree S floor' tip t0 (si_stretches inp) st \<Longrightarrow>
    sweep_inv pend in_tree S floor' tip t0 (si_stretches inp) (undecodable_runs wl inp pool shard runs st)"
  by (induction runs arbitrary: st) (simp_all add: discard_run_ok)

lemma find_stranded_ok:
  "wallet_contract wl pend in_tree S \<Longrightarrow> sweep_inv pend in_tree S floor' tip t0 (si_stretches inp) st \<Longrightarrow>
    sweep_inv pend in_tree S floor' tip t0 (si_stretches inp) (fst (find_stranded wl rd inp pool seeders shards st))"
  by (induction shards arbitrary: st) (simp_all add: undecodable_shard_def undecodable_runs_ok case_prod_beta split: sum.splits)

lemma sweep_runs_ok:
  "wallet_contract wl pend in_tree S \<Longrightarrow> tree_contract tr pool pend in_tree pos sub_pos \<Longrightarrow>
    sweep_inv pend in_tree S floor' tip t0 (si_stretches inp) (fst s) \<Longrightarrow>
    sweep_inv pend in_tree S floor' tip t0 (si_stretches inp) (fst (sweep_runs wl tr inp pool shard rows root' runs s))"
  by (induction runs arbitrary: s) (simp_all add: sweep_run_ok)

lemma sweep_stranded_ok:
  "wallet_contract wl pend in_tree S \<Longrightarrow> tree_contract tr pool pend in_tree pos sub_pos \<Longrightarrow>
    sweep_inv pend in_tree S floor' tip t0 (si_stretches inp) (fst s) \<Longrightarrow>
    sweep_inv pend in_tree S floor' tip t0 (si_stretches inp) (fst (sweep_stranded wl tr inp pool stranded s))"
  by (induction wl tr inp pool stranded s rule: sweep_stranded.induct) (simp_all add: sweep_runs_ok split: sum.splits)

lemma sweep_pool_ok:
  assumes "wallet_contract wl pend in_tree S" and "tree_contract tr pool pend in_tree pos sub_pos"
    and "sweep_inv pend in_tree S floor' tip t0 (si_stretches inp) st"
  shows "sweep_inv pend in_tree S floor' tip t0 (si_stretches inp) (fst (sweep_pool wl tr rd inp pool shards st))"
proof -
  have "sweep_inv pend in_tree S floor' tip t0 (si_stretches inp) (fst (find_stranded wl rd inp pool seeders shards st))" for seeders
    by (rule find_stranded_ok [OF assms(1,3)])
  then show ?thesis using assms(3) sweep_stranded_ok [OF assms(1,2)] unfolding sweep_pool_def
    by (auto split: sum.splits prod.splits) (metis fst_conv)+
qed

lemma read_queue_ok:
  assumes "wallet_contract wl pend in_tree S" and "read_queue wl floor' tip w = Inr (pending, stretches)"
  shows "ascending stretches \<and> {floor'..<tip + 1} - heights_of stretches \<subseteq> pend w"
proof -
  have s: "wl_suggest wl w = Inr pending" "stretches = scanned_stretches (map snd pending) floor' (tip + 1)"
    using assms(2) by (auto simp: read_queue_def split: sum.splits)
  have p: "(\<forall>r \<in> set pending. fst (snd r) \<le> snd (snd r)) \<and> heights_of (map snd pending) = pend w"
    using assms(1) s(1) unfolding wallet_contract_def by blast
  have "\<forall>r \<in> set (map snd pending). fst r \<le> snd r" using p by simp
  from scanned_stretches_ok [OF this, of floor' "tip + 1"] show ?thesis using p unfolding s(2) by (simp only: simp_thms) blast
qed

lemma sweep_both_ok:
  fixes rd1 :: "bytes \<Rightarrow> string + 'h1" and rd2 :: "bytes \<Rightarrow> string + 'h2"
  assumes "wallet_contract wl pend in_tree S" and "tree_contract sapling SaplingPool pend in_tree pos1 sub1"
    and "tree_contract orchard OrchardPool pend in_tree pos2 sub2" and "bt_sorted t"
    and "read_queue wl floor' tip w = Inr (si_pending inp, si_stretches inp)"
    and "sweep_both wl sapling orchard rd1 rd2 inp floor' tip shards1 shards2 (w, t) = st2"
  shows "nothing_lost pend in_tree S floor' tip t (sw_wallet st2, sw_table st2)"
proof -
  note R = read_queue_ok [OF assms(1)]
  define st1 where "st1 = fst (sweep_pool wl sapling rd1 inp SaplingPool shards1 \<lparr>sw_wallet = w, sw_table = t, sw_done = sweep_none\<rparr>)"
  have "sweep_inv pend in_tree S floor' tip t (si_stretches inp) \<lparr>sw_wallet = w, sw_table = t, sw_done = sweep_none\<rparr>"
    using R [OF assms(5)] assms(4) by (simp add: sweep_inv_def nothing_lost_def)
  then have i1: "sweep_inv pend in_tree S floor' tip t (si_stretches inp) st1"
    unfolding st1_def by (rule sweep_pool_ok [OF assms(1,2)])
  have i2: "sweep_inv pend in_tree S floor' tip t stretches'
      (fst (sweep_pool wl orchard rd2 (inp\<lparr>si_pending := pending', si_stretches := stretches'\<rparr>) OrchardPool shards2 st1))"
    if "sweep_inv pend in_tree S floor' tip t stretches' st1" for pending' stretches'
    using sweep_pool_ok [OF assms(1,3), of floor' tip t "inp\<lparr>si_pending := pending', si_stretches := stretches'\<rparr>" st1] that by simp
  have "\<exists>stretches'. sweep_inv pend in_tree S floor' tip t stretches' st2"
  proof (cases "gs_rescans (sw_done st1) = [] \<or> shards2 = []")
    case True
    then show ?thesis using i2 [OF i1, of "si_pending inp"] assms(6) unfolding sweep_both_def Let_def fst_conv snd_conv st1_def [symmetric] by auto
  next
    case no: False
    show ?thesis
    proof (cases "read_queue wl floor' tip (sw_wallet st1)")
      case (Inl e)
      then show ?thesis using no i1 assms(6) unfolding sweep_both_def Let_def fst_conv snd_conv st1_def [symmetric] by auto
    next
      case (Inr x)
      obtain pending' stretches' where x: "x = (pending', stretches')" by force
      have "sweep_inv pend in_tree S floor' tip t stretches' st1" using i1 R [OF Inr [unfolded x]] unfolding sweep_inv_def by blast
      from i2 [OF this] show ?thesis
        using no Inr x assms(6) unfolding sweep_both_def Let_def fst_conv snd_conv st1_def [symmetric] by auto
    qed
  qed
  then show ?thesis unfolding sweep_inv_def by blast
qed

text \<open>
  C4.  A pass's sweep of the rows an earlier pass left behind loses none of them, whatever statement of the
  buffer fails, whatever the wallet's reads give and wherever a tree refuses a run.  When it returns, every
  row is as it was, or it is gone and its leaf is in the wallet's tree or every block from the birthday to
  the tip that holds it is queued for a scan.  A sweep that is an error changes nothing at all.
\<close>

theorem sweep_loses_no_row:
  fixes rd1 :: "bytes \<Rightarrow> string + 'h1" and rd2 :: "bytes \<Rightarrow> string + 'h2"
  assumes "wallet_contract wl pend in_tree S" and "tree_contract sapling SaplingPool pend in_tree pos1 sub1"
    and "tree_contract orchard OrchardPool pend in_tree pos2 sub2" and "bt_sorted t"
    and "sweep_stranded_graft_rows wl sapling orchard rd1 rd2 show_err fault opened graft_resumes anchor (w, t) = ((w', t'), res)"
  shows "(\<forall>e. res = Inl e \<longrightarrow> w' = w \<and> t' = t) \<and>
    (w' = w \<and> t' = t \<or> (\<exists>floor' tip. wl_birthday wl w = Inr (Some floor') \<and> wl_chain_height wl w = Inr (Some tip) \<and>
       nothing_lost pend in_tree S floor' tip t (w', t')))"
proof (cases "\<exists>floor' tip q. wl_birthday wl w = Inr (Some floor') \<and> wl_chain_height wl w = Inr (Some tip) \<and> read_queue wl floor' tip w = Inr q")
  case True
  then obtain floor' tip pending stretches where h: "wl_birthday wl w = Inr (Some floor')" "wl_chain_height wl w = Inr (Some tip)"
    "read_queue wl floor' tip w = Inr (pending, stretches)" by auto
  note B = sweep_both_ok [OF assms(1-4), of floor' tip w "\<lparr>si_fault = fault, si_pending = pending, si_stretches = stretches, si_chain_tip = tip,
    si_graft_resumes = graft_resumes, si_anchor_retention = anchor\<rparr>", OF _ refl, unfolded sweep_inputs.simps, OF h(3)]
  show ?thesis using assms(5) h B by (auto simp: sweep_stranded_graft_rows_def Let_def split: sum.splits if_splits)
next
  case False
  then have "w' = w \<and> t' = t" using assms(5)
    by (auto simp: sweep_stranded_graft_rows_def Let_def split: sum.splits option.splits if_splits)
  then show ?thesis by blast
qed

text \<open>A wallet of three lists, its queue and the positions of its two trees, on a chain with one note of each pool a block.\<close>

type_synonym note_wallet = "(nat \<times> nat) list \<times> nat list \<times> nat list"

definition note_queue :: "note_wallet sweep_wallet" where
  "note_queue = \<lparr>wl_chain_height = \<lambda>_. Inr (Some 25), wl_birthday = \<lambda>_. Inr (Some 1), wl_suggest = \<lambda>w. Inr (map (Pair False) (filter (\<lambda>(s, e). s < e) (fst w))),
     wl_metadata = \<lambda>h _. Inr (Some (Some (h + 1), Some (h + 1), None)),
     wl_queue_rescan = \<lambda>r (rs, x). Inr ((fst r, snd r) # rs, x)\<rparr>"

definition note_tree :: "bool \<Rightarrow> (nat list \<Rightarrow> note_wallet \<Rightarrow> note_wallet) \<Rightarrow> (note_wallet, bytes, nat list, nat list) sweep_tree" where
  "note_tree full put = \<lparr>tr_seed = \<lambda>_. Inr [], tr_leaf = \<lambda>_ p _. Inr (if p = 7 then Some [6] else Some [8]), tr_stored_root = \<lambda>_ _. Inr None,
     tr_checkpoints = \<lambda>_. [], tr_build = \<lambda>start rows. [([start..<start + length rows], [])], tr_retain = \<lambda>_ t. Inr t,
     tr_insert = \<lambda>sub _ t. if full then Inl ''conflict'' else Inr (sub @ t), tr_content_root = \<lambda>_ _. None, tr_flush = \<lambda>t w. Inr (t, put t w)\<rparr>"

fun note_positions :: "note_wallet \<Rightarrow> shielded_pool \<Rightarrow> nat set" where
  "note_positions (_, s, orch) SaplingPool = set s"
| "note_positions (_, s, orch) OrchardPool = set orch"
| "note_positions _ IronwoodPool = {}"

definition put_sapling :: "nat list \<Rightarrow> note_wallet \<Rightarrow> note_wallet" where
  "put_sapling t = (\<lambda>(rs, s, orch). (rs, t @ s, orch))"

definition put_orchard :: "nat list \<Rightarrow> note_wallet \<Rightarrow> note_wallet" where
  "put_orchard t = (\<lambda>(rs, s, orch). (rs, s, t @ orch))"

definition ordered_queue :: "note_wallet \<Rightarrow> nat set" where
  "ordered_queue w = heights_of (fst w)"

definition left_rows :: graft_table where
  "left_rows = [((2, 0, 3), [7], 0, None, None), ((2, 0, 4), [8], 0, None, None), ((3, 0, 7), [6], 0, None, None)]"

lemma note_sweep:
  "sweep_stranded_graft_rows note_queue (note_tree True put_sapling) (note_tree False put_orchard) Inr Inr (\<lambda>_. '''') (\<lambda>_. None) (Inr ()) False None
     (([(20, 30)], [], []), left_rows) =
   ((([(3, 5), (20, 30)], [], [7]), []), Inr \<lparr>gs_built_rows = 1, gs_discarded_rows = 2, gs_rescans = [(3, 5)]\<rparr>)"
  by code_simp

lemma note_wallet_contract: "wallet_contract note_queue ordered_queue note_positions (\<lambda>_ h. h + 1)"
proof -
  have "note_positions (r # rs, x) = note_positions (rs, x)" for r rs x
    by (rule ext) (case_tac xa; cases x; simp)
  then show ?thesis
    unfolding wallet_contract_def note_queue_def ordered_queue_def by (auto simp: mono_def comp_def heights_of_filter)
qed

lemma note_tree_contract:
  "tree_contract (note_tree full put_sapling) SaplingPool ordered_queue note_positions set set"
  "tree_contract (note_tree full put_orchard) OrchardPool ordered_queue note_positions set set"
  by (auto simp: tree_contract_def note_tree_def put_sapling_def put_orchard_def ordered_queue_def split: if_splits) (case_tac q; simp)+

theorem sweep_loses_no_row_witness:
  "\<exists>w' t' res.
     sweep_stranded_graft_rows note_queue (note_tree True put_sapling) (note_tree False put_orchard) Inr Inr (\<lambda>_. '''') (\<lambda>_. None) (Inr ()) False None
       (([(20, 30)], [], []), left_rows) = ((w', t'), res) \<and>
     t' = [] \<and> nothing_lost ordered_queue note_positions (\<lambda>_ h. h + 1) 1 25 left_rows (w', t')"
proof -
  have "bt_sorted left_rows" by (auto simp: bt_sorted_def left_rows_def)
  from sweep_loses_no_row [OF note_wallet_contract note_tree_contract(1) note_tree_contract(2) this note_sweep] show ?thesis
    using note_sweep by (auto simp: note_queue_def)
qed

end
