(* ===== verification/Slip_Throttle.thy ===== *)
theory Slip_Throttle
  imports Slip_Blocks Complex_Main
begin

text \<open>
  The throttling proxy (\<open>src/core/src/throttle.rs\<close>): a token bucket that all connections share and the
  forwarding of one connection.  Tokens and seconds are rationals where the code has floats.

  The lock makes each round of \<open>consume\<close> one step: rounds of different connections interleave as a list.  A
  round sees the cap and the clock of its moment.
\<close>

section \<open>The bucket\<close>

definition UNCAPPED :: nat where "UNCAPPED = u64_max"
definition READ_BUF :: nat where "READ_BUF = 16 * 1024"

record bucket_state =
  tb_tokens :: rat
  tb_last :: rat

definition bucket_new :: "rat \<Rightarrow> bucket_state" where
  "bucket_new now = \<lparr>tb_tokens = 0, tb_last = now\<rparr>"

definition bucket_rate :: "nat \<Rightarrow> rat" where
  "bucket_rate cap = of_nat (max cap 1)"

text \<open>One round: \<open>None\<close> is the return, \<open>Some s\<close> the seconds to sleep before the next round.\<close>

definition consume_round :: "nat \<Rightarrow> nat \<Rightarrow> rat \<Rightarrow> bucket_state \<Rightarrow> bucket_state \<times> rat option" where
  "consume_round n cap now b =
     (if cap = UNCAPPED then (b, None)
      else let c = bucket_rate cap; tokens = min (tb_tokens b + max 0 (now - tb_last b) * c) c
           in if tokens \<ge> of_nat n then (\<lparr>tb_tokens = tokens - of_nat n, tb_last = now\<rparr>, None)
              else (\<lparr>tb_tokens = tokens, tb_last = now\<rparr>, Some (min ((of_nat n - tokens) / c) (1 / 20))))"

text \<open>The loop over what its rounds see; \<open>None\<close> when it still waits after all of them.\<close>

fun consume :: "nat \<Rightarrow> (nat \<times> rat) list \<Rightarrow> bucket_state \<Rightarrow> bucket_state \<times> (nat \<times> rat) list option" where
  "consume n [] b = (b, None)"
| "consume n ((cap, now) # rounds) b =
     (case consume_round n cap now b of (b', None) \<Rightarrow> (b', Some rounds) | (b', Some _) \<Rightarrow> consume n rounds b')"

section \<open>A connection\<close>

text \<open>
  The direction from the server: what each read gives, what the rounds of its \<open>consume\<close> see, whether the
  write succeeds.  The result is what the client gets, and whether the loop has ended.
\<close>

datatype pump_read = ReadEnd | ReadFailed | ReadBytes bytes

fun proxy_down :: "(pump_read \<times> (nat \<times> rat) list \<times> bool) list \<Rightarrow> bucket_state \<Rightarrow> bytes \<Rightarrow> bytes \<times> bucket_state \<times> bool" where
  "proxy_down [] b got = (got, b, False)"
| "proxy_down ((ReadEnd, _, _) # rest) b got = (got, b, True)"
| "proxy_down ((ReadFailed, _, _) # rest) b got = (got, b, True)"
| "proxy_down ((ReadBytes data, rounds, wrote) # rest) b got =
     (if data = [] then (got, b, True)
      else case consume (length data) rounds b of
             (b', None) \<Rightarrow> (got, b', False)
           | (b', Some _) \<Rightarrow> if wrote then proxy_down rest b' (got @ data) else (got, b', True))"

section \<open>The rate\<close>

text \<open>Rounds of all connections as the lock orders them, and the bytes they admit.\<close>

fun rounds_admit :: "(nat \<times> nat \<times> rat) list \<Rightarrow> bucket_state \<Rightarrow> nat" where
  "rounds_admit [] b = 0"
| "rounds_admit ((n, cap, now) # rounds) b =
     (case consume_round n cap now b of (b', w) \<Rightarrow> (if w = None then n else 0) + rounds_admit rounds b')"

lemma bucket_rate_pos [simp]: "0 < bucket_rate cap" "0 \<le> bucket_rate cap"
  by (auto simp: bucket_rate_def)

lemma consume_round_capped:
  assumes "consume_round n cap now b = (b', w)" and "cap \<noteq> UNCAPPED" and "tb_last b \<le> now"
  shows "tb_last b' = now \<and>
    tb_tokens b' + (if w = None then of_nat n else 0) = min (tb_tokens b + (now - tb_last b) * bucket_rate cap) (bucket_rate cap)"
  using assms by (auto simp: consume_round_def Let_def split: if_splits)

lemma rounds_admit_bound:
  assumes "\<forall>r \<in> set rounds. fst (snd r) \<le> C" and "C < UNCAPPED" and "1 \<le> C"
    and "sorted (tb_last b # map (\<lambda>r. snd (snd r)) rounds)" and "0 \<le> tb_tokens b"
  shows "of_nat (rounds_admit rounds b) \<le> tb_tokens b + of_nat C * (last (tb_last b # map (\<lambda>r. snd (snd r)) rounds) - tb_last b)"
  using assms
proof (induction rounds arbitrary: b)
  case (Cons r rounds)
  obtain n cap now where r: "r = (n, cap, now)" by (cases r)
  obtain b' w where c: "consume_round n cap now b = (b', w)" by force
  have cap: "cap \<noteq> UNCAPPED" "max cap 1 \<le> C" and le: "tb_last b \<le> now" using Cons.prems r by auto
  note R = consume_round_capped [OF c cap(1) le]
  have nonneg: "0 \<le> tb_tokens b'"
  proof (cases "w = None")
    case False
    then have e: "tb_tokens b' = min (tb_tokens b + (now - tb_last b) * bucket_rate cap) (bucket_rate cap)" using R by auto
    have "0 \<le> (now - tb_last b) * bucket_rate cap" by (rule mult_nonneg_nonneg) (use le in auto)
    then show ?thesis unfolding e using Cons.prems(5) by (intro min.boundedI) auto
  next
    case True
    then show ?thesis using c cap by (auto simp: consume_round_def Let_def split: if_splits)
  qed
  have s: "sorted (tb_last b' # map (\<lambda>r. snd (snd r)) rounds)" using Cons.prems(4) R r by (simp add: comp_def)
  have IH: "of_nat (rounds_admit rounds b') \<le> tb_tokens b' + of_nat C * (last (now # map (\<lambda>r. snd (snd r)) rounds) - now)"
    using Cons.IH [OF _ Cons.prems(2,3) s nonneg] Cons.prems(1) R by simp
  have "bucket_rate cap \<le> of_nat C" unfolding bucket_rate_def using cap(2) by (simp only: of_nat_le_iff)
  then have "(now - tb_last b) * bucket_rate cap \<le> of_nat C * (now - tb_last b)" using le by (simp add: mult.commute mult_right_mono)
  moreover have "tb_tokens b' + (if w = None then of_nat n else 0) \<le> tb_tokens b + (now - tb_last b) * bucket_rate cap" using R by simp
  moreover have "(of_nat (rounds_admit (r # rounds) b) :: rat) = (if w = None then of_nat n else 0) + of_nat (rounds_admit rounds b')"
    using c r by auto
  ultimately have "of_nat (rounds_admit (r # rounds) b) \<le>
      tb_tokens b + of_nat C * (now - tb_last b) + of_nat C * (last (now # map (\<lambda>r. snd (snd r)) rounds) - now)"
    using IH by linarith
  then show ?case using r by (simp add: algebra_simps split: if_splits)
qed simp

text \<open>
  C29.  However the connections interleave, the bucket lets through at most what it held and a cap's worth a
  second since: a fresh bucket at most the cap times the seconds gone, with the highest cap that was in
  force.
\<close>

theorem bucket_bounds_the_rate:
  assumes "\<forall>r \<in> set rounds. fst (snd r) \<le> C" and "C < UNCAPPED" and "1 \<le> C" and "rounds \<noteq> []"
    and "sorted (start # map (\<lambda>r. snd (snd r)) rounds)"
  shows "of_nat (rounds_admit rounds (bucket_new start)) \<le> of_nat C * (snd (snd (last rounds)) - start)"
  using rounds_admit_bound [OF assms(1-3), of "bucket_new start"] assms(4,5) by (simp add: bucket_new_def last_map)

theorem bucket_bounds_the_rate_witness:
  "of_nat (rounds_admit [(400, 1000, 1 / 2), (400, 1000, 1 / 2), (600, 500, 3 / 2)] (bucket_new 0)) \<le> (1000 * (3 / 2) :: rat) \<and>
   rounds_admit [(400, 1000, 1 / 2), (400, 1000, 1 / 2), (600, 500, 3 / 2)] (bucket_new 0) = 400"
  using bucket_bounds_the_rate [of "[(400, 1000, 1 / 2), (400, 1000, 1 / 2), (600, 500, 3 / 2)]" 1000 0]
  by (simp add: UNCAPPED_def u64_max_def bucket_new_def consume_round_def bucket_rate_def Let_def)

text \<open>
  A connection alone: a round that sleeps \<open>s\<close> seconds is followed by one at least \<open>s\<close> seconds later.
\<close>

fun slept :: "nat \<Rightarrow> (nat \<times> rat) list \<Rightarrow> bucket_state \<Rightarrow> bool" where
  "slept n ((cap, now) # (cap', now') # rounds) b =
     (case consume_round n cap now b of
        (b', None) \<Rightarrow> True
      | (b', Some s) \<Rightarrow> now + s \<le> now' \<and> slept n ((cap', now') # rounds) b')"
| "slept n rounds b = True"

lemma wait_arith:
  fixes c :: rat
  assumes "c / 20 \<le> g" and "0 \<le> m" and "m = k - c" and "n \<le> k / 20 + t" and "n \<le> c"
  shows "n \<le> m / 20 + min (t + g) c"
  using assms by (cases "t + g \<le> c") (simp_all add: min_def field_simps)

lemma consume_ends:
  assumes "\<forall>r \<in> set rounds. fst r = cap" and "cap \<noteq> UNCAPPED" and "of_nat n \<le> bucket_rate cap"
    and "slept n rounds b" and "rounds \<noteq> []" and "tb_last b \<le> snd (hd rounds)" and "0 \<le> tb_tokens b"
    and "bucket_rate cap * (of_nat (length rounds) - 2) / 20 + min (tb_tokens b + (snd (hd rounds) - tb_last b) * bucket_rate cap) (bucket_rate cap) \<ge> of_nat n"
    and "2 \<le> length rounds"
  shows "snd (consume n rounds b) \<noteq> None"
  using assms
proof (induction rounds arbitrary: b)
  case (Cons r rounds)
  obtain now where r: "r = (cap, now)" using Cons.prems(1) by (cases r) auto
  define tokens where "tokens = min (tb_tokens b + (now - tb_last b) * bucket_rate cap) (bucket_rate cap)"
  have le: "tb_last b \<le> now" using Cons.prems(6) r by simp
  show ?case
  proof (cases "of_nat n \<le> tokens")
    case True
    then have "snd (consume_round n cap now b) = None" using le Cons.prems(2) by (simp add: consume_round_def Let_def tokens_def)
    then show ?thesis by (cases "consume_round n cap now b") (simp add: r)
  next
    case False
    let ?s = "min ((of_nat n - tokens) / bucket_rate cap) (1 / 20)"
    let ?b = "\<lparr>tb_tokens = tokens, tb_last = now\<rparr>"
    have round: "consume_round n cap now b = (?b, Some ?s)"
      using False le Cons.prems(2) by (simp add: consume_round_def Let_def tokens_def)
    obtain now' rest where rounds: "rounds = (cap, now') # rest"
      using Cons.prems(1,9) by (cases rounds) (auto simp: r)
    have gap: "now + ?s \<le> now'" and sl: "slept n rounds ?b" using Cons.prems(4) round unfolding r rounds by simp_all
    let ?next = "min (tokens + (now' - now) * bucket_rate cap) (bucket_rate cap)"
    have "0 \<le> ?s" using False by simp
    then have later: "now \<le> now'" and gain: "?s * bucket_rate cap \<le> (now' - now) * bucket_rate cap" using gap by (auto intro: mult_right_mono)
    have pos: "0 \<le> tokens" unfolding tokens_def using Cons.prems(7) le by (intro min.boundedI add_nonneg_nonneg mult_nonneg_nonneg) auto
    show ?thesis
    proof (cases "(of_nat n - tokens) / bucket_rate cap \<le> 1 / 20")
      case True
      then have "of_nat n - tokens \<le> (now' - now) * bucket_rate cap" using gain less_imp_neq [OF bucket_rate_pos(1) [of cap]] by (simp add: min_absorb1)
      then have "of_nat n \<le> ?next" using Cons.prems(3) by simp
      then have "snd (consume_round n cap now' ?b) = None" using later Cons.prems(2) by (simp add: consume_round_def Let_def)
      then show ?thesis using round by (cases "consume_round n cap now' ?b") (simp add: r rounds)
    next
      case big: False
      then have s: "?s = 1 / 20" by simp
      have "bucket_rate cap / 20 < of_nat n - tokens" using big by (simp add: field_simps)
      moreover have enough: "bucket_rate cap * (of_nat (length rounds) - 1) / 20 + tokens \<ge> of_nat n"
        using Cons.prems(8) unfolding r tokens_def by (simp add: algebra_simps)
      ultimately have "bucket_rate cap * 1 < bucket_rate cap * (of_nat (length rounds) - 1)" by linarith
      then have "(2 :: rat) < of_nat (length rounds)" unfolding mult_less_cancel_left_pos [OF bucket_rate_pos(1)] by simp
      then have len: "2 \<le> length rounds" by simp
      have "bucket_rate cap / 20 \<le> (now' - now) * bucket_rate cap" using gain unfolding s by simp
      moreover have "0 \<le> bucket_rate cap * (of_nat (length rounds) - 2)" using \<open>2 < of_nat (length rounds)\<close> by simp
      moreover have "bucket_rate cap * (of_nat (length rounds) - 2) = bucket_rate cap * (of_nat (length rounds) - 1) - bucket_rate cap"
        by (simp add: algebra_simps)
      ultimately have "of_nat n \<le> bucket_rate cap * (of_nat (length rounds) - 2) / 20 + ?next"
        using enough Cons.prems(3) by (rule wait_arith)
      then have "snd (consume n rounds ?b) \<noteq> None"
        using Cons.IH [OF _ Cons.prems(2,3) sl _ _ _ _ len] Cons.prems(1) later pos unfolding rounds by simp
      then show ?thesis using round by (simp add: r)
    qed
  qed
qed simp

text \<open>
  A connection alone with the bucket waits for a read of at most a second's bytes no longer than
  twenty-two rounds, whatever the bucket holds.
\<close>

theorem read_within_the_cap_is_served:
  assumes "\<forall>r \<in> set rounds. fst r = cap" and "n \<le> max cap 1" and "22 \<le> length rounds"
    and "slept n rounds b" and "tb_last b \<le> snd (hd rounds)" and "0 \<le> tb_tokens b"
  shows "\<exists>b' rest. consume n rounds b = (b', Some rest)"
proof (cases "cap = UNCAPPED")
  case True
  obtain now rest where "rounds = (cap, now) # rest" using assms(1,3) by (cases rounds) auto
  then show ?thesis using True by (simp add: consume_round_def)
next
  case False
  have n: "of_nat n \<le> bucket_rate cap" unfolding bucket_rate_def using assms(2) by (simp only: of_nat_le_iff)
  have "bucket_rate cap * 20 \<le> bucket_rate cap * (of_nat (length rounds) - 2)"
    by (rule mult_left_mono) (use assms(3) in \<open>simp_all add: le_diff_eq\<close>)
  moreover have "0 \<le> min (tb_tokens b + (snd (hd rounds) - tb_last b) * bucket_rate cap) (bucket_rate cap)"
    using assms(5,6) by (intro min.boundedI add_nonneg_nonneg mult_nonneg_nonneg) auto
  ultimately have "of_nat n \<le> bucket_rate cap * (of_nat (length rounds) - 2) / 20 +
      min (tb_tokens b + (snd (hd rounds) - tb_last b) * bucket_rate cap) (bucket_rate cap)" using n by linarith
  then have "snd (consume n rounds b) \<noteq> None"
    using consume_ends [OF assms(1) False n assms(4) _ assms(5,6)] assms(3) by fastforce
  then show ?thesis by (cases "consume n rounds b") auto
qed

definition steady_rounds :: "(nat \<times> rat) list" where
  "steady_rounds = map (\<lambda>i. (16384, of_nat i / 20)) [0..<22]"

theorem read_within_the_cap_is_served_witness:
  "\<exists>b' rest. consume 16384 steady_rounds (bucket_new 0) = (b', Some rest)"
proof (rule read_within_the_cap_is_served [of _ 16384])
  show "slept 16384 steady_rounds (bucket_new 0)"
    by (simp add: steady_rounds_def upt_rec bucket_new_def consume_round_def bucket_rate_def Let_def UNCAPPED_def u64_max_def)
qed (auto simp: steady_rounds_def bucket_new_def hd_map)

text \<open>
  C38.  A read of more than a second's bytes is never served: the bucket holds a second's bytes at most, so
  the wait goes on however long the connection waits.  A read has up to \<open>READ_BUF\<close> bytes, so any cap below
  that can stall a connection for good.
\<close>

theorem read_larger_than_the_cap_waits_forever:
  assumes "\<forall>r \<in> set rounds. fst r < n \<and> fst r \<noteq> UNCAPPED" and "1 < n"
  shows "snd (consume n rounds b) = None"
  using assms
proof (induction rounds arbitrary: b)
  case (Cons r rounds)
  obtain cap now where r: "r = (cap, now)" by (cases r)
  have "cap \<noteq> UNCAPPED" "max cap 1 < n" using Cons.prems r by auto
  then have "bucket_rate cap < of_nat n" unfolding bucket_rate_def by (simp only: of_nat_less_iff)
  then have "snd (consume_round n cap now b) \<noteq> None" using \<open>cap \<noteq> UNCAPPED\<close> by (auto simp: consume_round_def Let_def)
  then show ?case using Cons.IH Cons.prems unfolding r by (auto split: prod.splits option.splits)
qed simp

theorem read_larger_than_the_cap_waits_forever_witness:
  "snd (consume READ_BUF (map (\<lambda>i. (10000, of_nat i)) [0..<1000]) (bucket_new 0)) = None"
  by (rule read_larger_than_the_cap_waits_forever) (auto simp: READ_BUF_def UNCAPPED_def u64_max_def)

text \<open>What a client gets is what the server sent, in order and without a gap, up to where the connection broke.\<close>

fun read_bytes :: "pump_read \<Rightarrow> bytes" where
  "read_bytes (ReadBytes data) = data"
| "read_bytes _ = []"

lemma proxy_forwards_a_prefix:
  "\<exists>k. fst (proxy_down steps b got) = got @ concat (map (read_bytes \<circ> fst) (take k steps))"
proof (induction steps b got rule: proxy_down.induct)
  case (4 data rounds wrote rest b got)
  show ?case
  proof (cases "data \<noteq> [] \<and> (\<exists>b' x. consume (length data) rounds b = (b', Some x)) \<and> wrote")
    case True
    then obtain b' x where c: "consume (length data) rounds b = (b', Some x)" by blast
    with 4 [OF _ c [symmetric] refl] True obtain k where
      "fst (proxy_down rest b' (got @ data)) = (got @ data) @ concat (map (read_bytes \<circ> fst) (take k rest))" by blast
    then show ?thesis using True c by (intro exI [of _ "Suc k"]) (simp add: comp_def)
  next
    case False
    then have "fst (proxy_down ((ReadBytes data, rounds, wrote) # rest) b got) = got" by (auto split: prod.splits option.splits)
    then show ?thesis by (intro exI [of _ 0]) simp
  qed
qed (auto intro: exI [of _ 0])

end
