(* ===== verification/Slip_Anchor.thy ===== *)
theory Slip_Anchor
  imports Slip_Net
begin

text \<open>
  The network's parameters (\<open>src/core/src/network.rs\<close>) and the anchor a host provisions a wallet with
  (\<open>src/core/src/anchor.rs\<close>).  The heights of the stock chains are another crate's: \<open>std\<close> gives them.
\<close>

section \<open>Networks\<close>

datatype network_upgrade =
  Overwinter | Sapling | Blossom | Heartwood | Canopy | Nu5 | Nu6 | Nu6_1 | Nu6_2 | Nu6_3 | Nu7

record custom_activations =
  ca_overwinter :: "nat option"
  ca_sapling :: "nat option"
  ca_blossom :: "nat option"
  ca_heartwood :: "nat option"
  ca_canopy :: "nat option"
  ca_nu5 :: "nat option"
  ca_nu6 :: "nat option"
  ca_nu6_1 :: "nat option"
  ca_nu6_2 :: "nat option"
  ca_nu6_3 :: "nat option"
  ca_nu7 :: "nat option"

definition all_from_genesis :: custom_activations where
  "all_from_genesis =
     \<lparr>ca_overwinter = Some 1, ca_sapling = Some 1, ca_blossom = Some 1, ca_heartwood = Some 1, ca_canopy = Some 1,
      ca_nu5 = Some 1, ca_nu6 = Some 1, ca_nu6_1 = Some 1, ca_nu6_2 = Some 1, ca_nu6_3 = Some 1, ca_nu7 = None\<rparr>"

datatype ('net, 'kind) slipstream_network = Standard 'net | Custom 'kind custom_activations

fun network_type :: "('net \<Rightarrow> 'kind) \<Rightarrow> ('net, 'kind) slipstream_network \<Rightarrow> 'kind" where
  "network_type std_kind (Standard n) = std_kind n"
| "network_type std_kind (Custom constants heights) = constants"

fun activation_height :: "('net \<Rightarrow> network_upgrade \<Rightarrow> nat option) \<Rightarrow> ('net, 'kind) slipstream_network \<Rightarrow> network_upgrade \<Rightarrow> nat option" where
  "activation_height std (Standard n) nu = std n nu"
| "activation_height std (Custom constants heights) nu =
     (case nu of
        Overwinter \<Rightarrow> ca_overwinter heights | Sapling \<Rightarrow> ca_sapling heights | Blossom \<Rightarrow> ca_blossom heights
      | Heartwood \<Rightarrow> ca_heartwood heights | Canopy \<Rightarrow> ca_canopy heights | Nu5 \<Rightarrow> ca_nu5 heights | Nu6 \<Rightarrow> ca_nu6 heights
      | Nu6_1 \<Rightarrow> ca_nu6_1 heights | Nu6_2 \<Rightarrow> ca_nu6_2 heights | Nu6_3 \<Rightarrow> ca_nu6_3 heights | Nu7 \<Rightarrow> ca_nu7 heights)"

section \<open>The anchor\<close>

definition ANCHOR_MAX_REORG_BLOCKS :: nat where "ANCHOR_MAX_REORG_BLOCKS = 100"
definition i32_max :: nat where "i32_max = 2147483647"

datatype anchor_intent = Restore nat nat | NewWallet

text \<open>A tree state the server sent is its height and the rest.\<close>

record 't anchor =
  an_height :: nat
  an_treestate :: "(nat \<times> 't) option"

definition offline_anchor :: "anchor_intent \<Rightarrow> 't anchor" where
  "offline_anchor intent =
     (case intent of
        Restore birthday fallback \<Rightarrow> \<lparr>an_height = max fallback (saturating_add64 birthday 1), an_treestate = None\<rparr>
      | NewWallet \<Rightarrow> \<lparr>an_height = 0, an_treestate = None\<rparr>)"

definition usable_height :: "nat \<Rightarrow> nat option" where
  "usable_height h = (if h \<le> i32_max then Some h else None)"

text \<open>
  The connection: over Tor with the connector's retries, or one direct attempt.  \<open>None\<close> while it is still
  connecting.
\<close>

definition client_via :: "endpoint \<Rightarrow> bool \<Rightarrow> string option \<Rightarrow> direct_answer \<Rightarrow> tor_answer list \<Rightarrow> net_state \<Rightarrow> bool option \<times> net_state" where
  "client_via e tor bad_uri direct tor_answers ns =
     (if tor
      then (case connect_via e True MetadataUnique bad_uri [] tor_answers ns of
              (None, ns') \<Rightarrow> (None, ns')
            | (Some r, ns') \<Rightarrow> (Some (\<not> isl r), ns'))
      else (case grpc_connect e direct ns of (ns', r) \<Rightarrow> (Some (\<not> isl r), ns')))"

text \<open>\<open>latest\<close> is the answer to the height call, \<open>state_at\<close> the answer to a tree-state call.\<close>

definition tip_via :: "endpoint \<Rightarrow> bool \<Rightarrow> string option \<Rightarrow> direct_answer \<Rightarrow> tor_answer list \<Rightarrow> nat call_answer \<Rightarrow> net_state \<Rightarrow>
    nat option option \<times> net_state" where
  "tip_via e tor bad_uri direct tor_answers latest ns =
     (case client_via e tor bad_uri direct tor_answers ns of
        (None, ns') \<Rightarrow> (None, ns')
      | (Some False, ns') \<Rightarrow> (Some None, ns')
      | (Some True, ns') \<Rightarrow>
          (case get_latest_block_height latest ns' of
             (ns'', Inl _) \<Rightarrow> (Some None, ns'')
           | (ns'', Inr tip) \<Rightarrow> (Some (usable_height tip), ns'')))"

definition fetched_anchor :: "nat \<Rightarrow> endpoint \<Rightarrow> bool \<Rightarrow> string option \<Rightarrow> direct_answer \<Rightarrow> tor_answer list \<Rightarrow> nat call_answer \<Rightarrow>
    (nat \<Rightarrow> (nat \<times> 't) call_answer) \<Rightarrow> net_state \<Rightarrow> 't anchor option option \<times> net_state" where
  "fetched_anchor sapling_activation e tor bad_uri direct tor_answers latest state_at ns =
     (case tip_via e tor bad_uri direct tor_answers latest ns of
        (None, ns') \<Rightarrow> (None, ns')
      | (Some None, ns') \<Rightarrow> (Some None, ns')
      | (Some (Some tip), ns') \<Rightarrow>
          (let anchor_height = max (tip - ANCHOR_MAX_REORG_BLOCKS) sapling_activation
           in case get_tree_state (state_at anchor_height) ns' of
                (ns'', Inl _) \<Rightarrow> (Some None, ns'')
              | (ns'', Inr ts) \<Rightarrow>
                  if usable_height (fst ts) = Some anchor_height
                  then (Some (Some \<lparr>an_height = fst ts, an_treestate = Some ts\<rparr>), ns'')
                  else (Some None, ns'')))"

definition restore_anchor :: "('net \<Rightarrow> network_upgrade \<Rightarrow> nat option) \<Rightarrow> endpoint \<Rightarrow> ('net, 'kind) slipstream_network \<Rightarrow> anchor_intent \<Rightarrow> bool \<Rightarrow>
    string option \<Rightarrow> direct_answer \<Rightarrow> tor_answer list \<Rightarrow> nat call_answer \<Rightarrow> (nat \<Rightarrow> (nat \<times> 't) call_answer) \<Rightarrow> net_state \<Rightarrow>
    't anchor option \<times> net_state" where
  "restore_anchor std e net intent tor bad_uri direct tor_answers latest state_at ns =
     (case intent of
        Restore _ _ \<Rightarrow>
          (case tip_via e tor bad_uri direct tor_answers latest ns of
             (None, ns') \<Rightarrow> (None, ns')
           | (Some (Some tip), ns') \<Rightarrow> (Some \<lparr>an_height = tip, an_treestate = None\<rparr>, ns')
           | (Some None, ns') \<Rightarrow> (Some (offline_anchor intent), ns'))
      | NewWallet \<Rightarrow>
          (case fetched_anchor (case activation_height std net Sapling of None \<Rightarrow> 0 | Some h \<Rightarrow> h)
                  e tor bad_uri direct tor_answers latest state_at ns of
             (None, ns') \<Rightarrow> (None, ns')
           | (Some (Some anchor), ns') \<Rightarrow> (Some anchor, ns')
           | (Some None, ns') \<Rightarrow> (Some (offline_anchor intent), ns')))"

section \<open>What a host gets\<close>

lemma client_via_dials:
  assumes "client_via e tor bad_uri direct tor_answers ns = (r, ns')"
  shows "\<exists>new. ns_dials ns' = ns_dials ns @ new \<and>
    set new \<subseteq> (if tor then {TorDial TorIsolated e} else {DirectDial e}) \<and> length new \<le> (if tor then TOR_CONNECT_ATTEMPTS else 1)"
proof (cases tor)
  case True
  obtain q where q: "tor_connect TorIsolated e bad_uri tor_answers ns = (q, ns')"
    using assms True by (auto simp: client_via_def connect_via_def split: prod.splits option.splits)
  have "\<exists>k \<le> TOR_CONNECT_ATTEMPTS. ns_dials ns' = ns_dials ns @ replicate k (TorDial TorIsolated e)"
  proof (cases bad_uri)
    case None
    then show ?thesis using q tor_dials [of TorIsolated e TOR_CONNECT_ATTEMPTS None tor_answers ns q ns'] by (simp add: tor_connect_def)
  qed (use q in \<open>auto simp: tor_connect_def intro: exI [of _ 0]\<close>)
  then obtain k where "k \<le> TOR_CONNECT_ATTEMPTS" "ns_dials ns' = ns_dials ns @ replicate k (TorDial TorIsolated e)" by blast
  then show ?thesis using True by (intro exI [of _ "replicate k (TorDial TorIsolated e)"]) auto
next
  case False
  then obtain q where "grpc_connect e direct ns = (ns', q)" using assms by (auto simp: client_via_def split: prod.splits)
  then have "\<exists>k \<le> 1. ns_dials ns' = ns_dials ns @ replicate k (DirectDial e)" by (rule grpc_connect_dials)
  then obtain k where "k \<le> 1" "ns_dials ns' = ns_dials ns @ replicate k (DirectDial e)" by blast
  then show ?thesis using False by (intro exI [of _ "replicate k (DirectDial e)"]) auto
qed

lemma tor_attempts_answer: "n \<le> length tor_answers \<Longrightarrow> fst (tor_attempts mode e n m tor_answers ns) \<noteq> None"
  by (induction mode e n m tor_answers ns rule: tor_attempts.induct) (simp_all add: Let_def split: tor_answer.splits)

lemma client_via_answers:
  assumes "\<not> tor \<or> TOR_CONNECT_ATTEMPTS \<le> length tor_answers"
  shows "fst (client_via e tor bad_uri direct tor_answers ns) \<noteq> None"
proof (cases tor)
  case True
  then have "fst (tor_attempts TorIsolated e TOR_CONNECT_ATTEMPTS None tor_answers ns) \<noteq> None" using assms by (intro tor_attempts_answer) simp
  then have "fst (tor_connect TorIsolated e bad_uri tor_answers ns) \<noteq> None" by (simp add: tor_connect_def split: option.split)
  then show ?thesis using True
    by (cases "tor_connect TorIsolated e bad_uri tor_answers ns") (auto simp: client_via_def connect_via_def)
next
  case False
  then show ?thesis by (cases "grpc_connect e direct ns") (simp add: client_via_def)
qed

lemma tip_via_dials: "ns_dials (snd (tip_via e tor bad_uri direct tor_answers latest ns)) = ns_dials (snd (client_via e tor bad_uri direct tor_answers ns))"
  by (simp add: tip_via_def get_latest_block_height_def counted_def split: prod.splits option.splits bool.splits sum.splits)

lemma restore_anchor_dials:
  "ns_dials (snd (restore_anchor std e net intent tor bad_uri direct tor_answers latest state_at ns)) =
   ns_dials (snd (client_via e tor bad_uri direct tor_answers ns))"
  unfolding tip_via_dials [of e tor bad_uri direct tor_answers latest ns, symmetric]
  by (simp add: restore_anchor_def fetched_anchor_def get_tree_state_def counted_def Let_def
      split: anchor_intent.splits prod.splits option.splits sum.splits if_splits)

lemma tip_via_usable: "fst (tip_via e tor bad_uri direct tor_answers latest ns) = Some (Some tip) \<Longrightarrow> tip \<le> i32_max \<and> latest = CallOk tip"
  by (auto simp: tip_via_def get_latest_block_height_def with_unary_timeout_def usable_height_def
      split: prod.splits option.splits bool.splits sum.splits call_answer.splits if_splits)

lemma tip_via_answers: "\<not> tor \<or> TOR_CONNECT_ATTEMPTS \<le> length tor_answers \<Longrightarrow> fst (tip_via e tor bad_uri direct tor_answers latest ns) \<noteq> None"
  using client_via_answers [of tor tor_answers e bad_uri direct ns]
  by (auto simp: tip_via_def split: prod.splits option.splits bool.splits sum.splits)

text \<open>What is promised of an anchor, given the server's answers.\<close>

fun anchor_promise :: "nat \<Rightarrow> nat call_answer \<Rightarrow> (nat \<Rightarrow> (nat \<times> 't) call_answer) \<Rightarrow> anchor_intent \<Rightarrow> 't anchor \<Rightarrow> bool" where
  "anchor_promise sapling_activation latest state_at (Restore birthday fallback) a \<longleftrightarrow>
     an_treestate a = None \<and>
     (latest = CallOk (an_height a) \<and> an_height a \<le> i32_max \<or>
      fallback \<le> an_height a \<and> (birthday < u64_max \<longrightarrow> birthday < an_height a))"
| "anchor_promise sapling_activation latest state_at NewWallet a \<longleftrightarrow>
     (case an_treestate a of
        None \<Rightarrow> an_height a = 0
      | Some ts \<Rightarrow> an_height a = fst ts \<and> an_height a \<le> i32_max \<and> state_at (an_height a) = CallOk ts \<and>
          (\<exists>tip \<le> i32_max. latest = CallOk tip \<and> an_height a = max (tip - 100) sapling_activation))"

lemma offline_promise: "anchor_promise act latest state_at intent (offline_anchor intent)"
  by (cases intent) (auto simp: offline_anchor_def saturating_add64_def)

lemma fetched_promise:
  assumes "fetched_anchor act e tor bad_uri direct tor_answers latest state_at ns = (Some (Some a), ns')"
  shows "anchor_promise act latest state_at NewWallet a"
proof -
  obtain tip ns1 where t: "tip_via e tor bad_uri direct tor_answers latest ns = (Some (Some tip), ns1)"
    using assms by (auto simp: fetched_anchor_def split: prod.splits option.splits)
  obtain ts where ts: "state_at (max (tip - 100) act) = CallOk ts" "usable_height (fst ts) = Some (max (tip - 100) act)"
      "a = \<lparr>an_height = fst ts, an_treestate = Some ts\<rparr>"
    using assms t by (auto simp: fetched_anchor_def get_tree_state_def with_unary_timeout_def Let_def ANCHOR_MAX_REORG_BLOCKS_def
        split: call_answer.splits if_splits)
  have e: "fst ts = max (tip - 100) act" "fst ts \<le> i32_max" using ts(2) by (auto simp: usable_height_def split: if_splits)
  have tip: "tip \<le> i32_max \<and> latest = CallOk tip" by (rule tip_via_usable [of e tor bad_uri direct tor_answers latest ns]) (simp add: t)
  have "state_at (fst ts) = CallOk ts" using ts(1) unfolding e(1) .
  then show ?thesis using e tip unfolding ts(3) anchor_promise.simps anchor.simps option.case by blast
qed

lemma restore_anchor_promise:
  assumes "tip_via e tor bad_uri direct tor_answers latest ns = (Some t, ns1)"
  shows "\<exists>a. fst (restore_anchor std e net intent tor bad_uri direct tor_answers latest state_at ns) = Some a \<and>
    anchor_promise (case activation_height std net Sapling of None \<Rightarrow> 0 | Some h \<Rightarrow> h) latest state_at intent a"
proof (cases intent)
  case (Restore birthday fallback)
  show ?thesis
  proof (cases t)
    case None
    then show ?thesis using assms Restore offline_promise [of _ latest state_at intent] by (simp add: restore_anchor_def)
  next
    case (Some tip)
    then show ?thesis using assms Restore tip_via_usable [of e tor bad_uri direct tor_answers latest ns tip] by (simp add: restore_anchor_def)
  qed
next
  case NewWallet
  let ?act = "case activation_height std net Sapling of None \<Rightarrow> 0 | Some h \<Rightarrow> h"
  obtain f ns2 where f: "fetched_anchor ?act e tor bad_uri direct tor_answers latest state_at ns = (f, ns2)" by force
  have "f \<noteq> None" using f assms by (auto simp: fetched_anchor_def Let_def split: option.splits prod.splits sum.splits if_splits)
  then obtain g where g: "f = Some g" by auto
  show ?thesis
  proof (cases g)
    case None
    then have "fst (restore_anchor std e net intent tor bad_uri direct tor_answers latest state_at ns) = Some (offline_anchor NewWallet)"
      unfolding restore_anchor_def NewWallet anchor_intent.case f g by simp
    then show ?thesis using offline_promise unfolding NewWallet by blast
  next
    case (Some a)
    then have "fst (restore_anchor std e net intent tor bad_uri direct tor_answers latest state_at ns) = Some a"
      unfolding restore_anchor_def NewWallet anchor_intent.case f g by simp
    then show ?thesis using fetched_promise [OF f [unfolded g Some]] unfolding NewWallet by blast
  qed
qed

text \<open>
  C25.  A host that asks for an anchor always gets one, of at most Tor's three attempts or one direct one.  A
  restore gets the server's tip or, past \<open>i32\<close> or without an answer, a height past the birthday and
  at least the bundled checkpoint.  A new wallet gets a tree state of exactly the height that is a hundred
  blocks below the server's tip or at Sapling's activation, which a host can store, or nothing.  With Tor
  nothing is dialled but isolated circuits, whatever fails.
\<close>

theorem restore_anchor_policy:
  assumes "\<not> tor \<or> TOR_CONNECT_ATTEMPTS \<le> length tor_answers"
  shows "\<exists>a ns' new. restore_anchor std e net intent tor bad_uri direct tor_answers latest state_at ns = (Some a, ns') \<and>
    anchor_promise (case activation_height std net Sapling of None \<Rightarrow> 0 | Some h \<Rightarrow> h) latest state_at intent a \<and>
    ns_dials ns' = ns_dials ns @ new \<and> set new \<subseteq> (if tor then {TorDial TorIsolated e} else {DirectDial e}) \<and>
    length new \<le> (if tor then 3 else 1)"
proof -
  obtain r ns' where R: "restore_anchor std e net intent tor bad_uri direct tor_answers latest state_at ns = (r, ns')" by force
  obtain c cs where C: "client_via e tor bad_uri direct tor_answers ns = (c, cs)" by force
  obtain t ts where T: "tip_via e tor bad_uri direct tor_answers latest ns = (Some t, ts)"
    using tip_via_answers [OF assms, of e bad_uri direct latest ns] by (metis option.exhaust prod.collapse)
  have "ns_dials ns' = ns_dials cs" using restore_anchor_dials [of std e net intent tor bad_uri direct tor_answers latest state_at ns] R C by simp
  then obtain new where new: "ns_dials ns' = ns_dials ns @ new" "set new \<subseteq> (if tor then {TorDial TorIsolated e} else {DirectDial e})"
      "length new \<le> (if tor then 3 else 1)"
    using client_via_dials [OF C, unfolded TOR_CONNECT_ATTEMPTS_def] by (elim exE conjE) (simp only:)
  obtain a where a: "r = Some a" "anchor_promise (case activation_height std net Sapling of None \<Rightarrow> 0 | Some h \<Rightarrow> h) latest state_at intent a"
    using restore_anchor_promise [OF T, of std net intent state_at] unfolding R fst_conv by (elim exE conjE)
  show ?thesis
    by (rule exI [of _ a], rule exI [of _ ns'], rule exI [of _ new], rule conjI [OF R [unfolded a(1)] conjI [OF a(2) conjI [OF new(1) conjI [OF new(2,3)]]]])
qed

definition demo_restore :: "unit anchor option \<times> net_state" where
  "demo_restore = restore_anchor (\<lambda>(n :: unit) (_ :: network_upgrade). Some 419200) demo_endpoint (Standard () :: (unit, unit) slipstream_network)
     (Restore 2000000 1900000) True None \<lparr>da_uri = None, da_tls = None, da_dial = None\<rparr> [TorTimedOut, TorFailed ''exit'', TorTimedOut]
     (CallOk 3000000) (\<lambda>h. CallOk (h, ())) net_start"

lemma demo_restore_value:
  "fst demo_restore = Some \<lparr>an_height = 2000001, an_treestate = None\<rparr>"
  "ns_dials (snd demo_restore) = replicate 3 (TorDial TorIsolated demo_endpoint)"
  by (simp_all add: demo_restore_def restore_anchor_def tip_via_def client_via_def connect_via_def tor_connect_def dialled_def net_start_def
      TOR_CONNECT_ATTEMPTS_def offline_anchor_def saturating_add64_def u64_max_def numeral_3_eq_3 Let_def)

theorem restore_anchor_policy_witness:
  "\<exists>a ns'. demo_restore = (Some a, ns') \<and> an_height a = 2000001 \<and> set (ns_dials ns') = {TorDial TorIsolated demo_endpoint} \<and>
     anchor_promise 419200 (CallOk 3000000) (\<lambda>h. CallOk (h, ())) (Restore 2000000 1900000) a"
proof -
  have "\<not> True \<or> TOR_CONNECT_ATTEMPTS \<le> length [TorTimedOut, TorFailed ''exit'', TorTimedOut]" by (simp add: TOR_CONNECT_ATTEMPTS_def)
  from restore_anchor_policy [OF this, of "\<lambda>(n :: unit) (_ :: network_upgrade). Some 419200" demo_endpoint
      "Standard () :: (unit, unit) slipstream_network" "Restore 2000000 1900000" None "\<lparr>da_uri = None, da_tls = None, da_dial = None\<rparr>" "CallOk 3000000"
      "\<lambda>h. CallOk (h, ())" net_start, folded demo_restore_def, unfolded activation_height.simps option.case]
  obtain a ns' where a: "demo_restore = (Some a, ns')" "anchor_promise 419200 (CallOk 3000000) (\<lambda>h. CallOk (h, ())) (Restore 2000000 1900000) a"
    by (elim exE conjE)
  have "an_height a = 2000001" "set (ns_dials ns') = {TorDial TorIsolated demo_endpoint}" using demo_restore_value unfolding a(1) by simp_all
  then show ?thesis using a by blast
qed

end
