(* ===== verification/Spec2Isabelle.thy ===== *)
theory Spec2Isabelle
  imports Slip_Reorder Slip_Source Slip_Session Slip_Scan Slip_Sweep Slip_Throttle Slip_Anchor
begin

text \<open>
  \<^bold>\<open>A verification of the Slipstream sync engine\<close> (\<open>src/core\<close>, Rust).

  The engine keeps a Zcash wallet database in step with the chain.  A host starts a \<^emph>\<open>session\<close>, which runs
  a \<^emph>\<open>pass\<close> until the wallet is caught up and then follows the tip.  A pass asks the wallet which ranges of
  blocks it wants; each range is \<^emph>\<open>fetched\<close> by parallel workers, released in order to the \<^emph>\<open>scan\<close>, which
  hands what it finds to a \<^emph>\<open>write-behind lane\<close> that commits it; commitments of shards without notes are
  buffered instead of built.  Around that there are the enhancement of transactions, the mempool
  monitor, the progress the host polls, and the ways a host can stop it.

  \<^bold>\<open>Conventions.\<close>  \<open>u64\<close> and \<open>u32\<close> are \<open>nat\<close> with the saturating, wrapping and checked operations written
  out (\<open>Slip_Prelude\<close>); durations and \<open>f64\<close> are \<open>rat\<close>; a \<open>Result\<close> is a sum with the error on the left; a panic
  is the value \<open>Panicked\<close> of type \<open>run\<close>, a run that is cut off by its inputs \<open>Running\<close>.  What the network, the
  clock, the wallet database and other crates answer is an argument: a list of answers in the order they
  are asked for, a function, or a record of operations on a state of a type parameter.  What is assumed of
  them is a named predicate in the hypotheses of the theorem that needs it, and the theorem's witness
  instantiates it.  Ordered maps are sorted association lists with the laws of locale \<open>ordered_map\<close>.

  \<^bold>\<open>Download\<close> (\<open>fetch.rs\<close>, \<open>chunk.rs\<close>, \<open>verify.rs\<close>, \<open>grpc.rs\<close>).
  \<^item> \<open>Slip_Blocks\<close>: compact blocks and \<open>Continuity::verify_blocks\<close>.  \<open>Slip_Splitter\<close>: \<open>ChunkSplitter\<close>, with the
    contract of locale \<open>splitter_contract\<close>.  \<open>Slip_Chunk\<close>: \<open>Chunk\<close> and the byte-budgeted queue;
    \<open>Slip_Gate\<close>: \<open>AheadGate\<close>; both interpret locale \<open>permit_pool\<close>.  \<open>Slip_Plan\<close>: \<open>FetchPlan\<close>.
  \<^item> \<open>Slip_Pump\<close>: the worker: \<open>pump_block_stream\<close>, \<open>worker_chunk\<close> with its resumes and retry budget.
    \<open>Slip_Reorder\<close>: \<open>release_ordered\<close> and the supervision of the workers.  \<open>Slip_Wire\<close>: \<open>FetchStats\<close> and the
    wire detector.  \<open>Slip_Net\<close>: connections (\<open>connector.rs\<close>) and server calls (\<open>grpc.rs\<close>), with the retries as
    locale \<open>retry_ladder\<close>.
  \<^item> The lemmas give that each worker hands on its chunk once and in order over failing streams, that what is
    released is one linked chain whatever arrives, and, composed below, that the scanner receives exactly
    the requested range.

  \<^bold>\<open>Scan\<close> (\<open>scan.rs\<close>, \<open>block_source.rs\<close>).  \<open>Slip_Source\<close>: the block source.  \<open>Slip_Scan\<close>: \<open>scan_chunks\<close> with its
  sub-batches, the batch controller, prefetched and locally derived chain states, the audits and the
  interleaved enhancement; locale \<open>scan_course\<close> carries a property through the loops and is interpreted for
  the tiling of the range and for the audits.  \<open>Slip_Fence\<close>: \<open>DecryptionFence\<close>.

  \<^bold>\<open>Persistence\<close> (\<open>persist.rs\<close>, \<open>graft.rs\<close>, \<open>graft_accumulator.rs\<close>).
  \<^item> \<open>Slip_Lane\<close>: \<open>PersistLane\<close> (a commit at a time, in order, up to a depth) and \<open>WriteBehindFacade\<close> (the
    reads of a scan whose writes are still pending).
  \<^item> \<open>Slip_Graft\<close>: \<open>resumable_run\<close> and \<open>ShardAccumulator\<close>.  \<open>Slip_Buffer\<close>: the buffer table and \<open>plan_pool\<close>,
    which resumes, feeds, buffers and decides what is built and what is replaced by a server root.
  \<^item> \<open>Slip_Store\<close>: \<open>SparseShardStore\<close>, its seed and flush, as a write-back cache of the wallet's tree store.
    \<open>Slip_Checkpoint\<close>: which checkpoints a call creates, and their repair (locale \<open>checkpoint_store\<close>).
  \<^item> \<open>Slip_Sweep\<close>: \<open>sweep_stranded_graft_rows\<close>, which builds the rows an interrupted range left in the buffer or
    deletes them once their blocks are queued again, with the walks and the bisection that find those blocks.
    The lemmas give that it loses no row, whatever fails.

  \<^bold>\<open>Pass and session\<close> (\<open>scheduler.rs\<close>, \<open>engine.rs\<close>, \<open>session.rs\<close>, \<open>enhance.rs\<close>, \<open>transparent.rs\<close>, \<open>mempool.rs\<close>).
  \<open>Slip_Scheduler\<close>: the suggest rounds, reorganisation recovery and progress of a pass.  \<open>Slip_Engine\<close>: one
  pass with endpoint selection and failover.  \<open>Slip_Session\<close>: the retry ladder and the session as a step
  relation with its reachable states.  \<open>Slip_Enhance\<close>, \<open>Slip_Mempool\<close>: enhancement and unshielded outputs, and the
  mempool monitor.  \<open>Slip_Stats\<close>, \<open>Slip_Census\<close>, \<open>Slip_Calendar\<close>: statistics, the shard census and log dates.

  \<^bold>\<open>Host side\<close> (\<open>events.rs\<close>, \<open>ffi_handle.rs\<close>, \<open>config.rs\<close>, \<open>probe.rs\<close>, \<open>error.rs\<close>).  \<open>Slip_Progress\<close>: the shared
  counters, failure runs and stop counters, with polls interleaved.  \<open>Slip_Handle\<close>: the snapshot, the event
  ring and the stops.  \<open>Slip_Config\<close>: configuration, endpoint URIs and the probe.  \<open>Slip_Error\<close>: the error type.
  \<open>Slip_Anchor\<close>: network parameters and the anchor a host provisions a wallet with (\<open>network.rs\<close>, \<open>anchor.rs\<close>).
  \<open>Slip_Throttle\<close>: the token bucket of the throttling proxy (\<open>throttle.rs\<close>), its rate and what it never serves.

  \<^bold>\<open>Bounds.\<close>  Loops are structural recursions or functions with a termination proof.  Where a loop's length
  is decided by the outside (retries, polls, streams), it recurses over the list of answers; a list that
  is too short shows as \<open>Running\<close> or as a hypothesis on its length, and the termination properties give
  the length that is always enough.

  \<^bold>\<open>Not modelled.\<close>
  \<^item> \<open>sparse_put_blocks\<close> as a whole, \<open>resume_refusal\<close>, \<open>finish_graft_blocking\<close> and \<open>SparseFacade\<close> (\<open>persist.rs\<close>): they
    string together calls of the commitment-tree and wallet crates; the decisions inside them are modelled.
  \<^item> \<open>wallet_session.rs\<close>, \<open>scan_queue.rs\<close>: opening the database and wrappers of one or two calls of the wallet
    crate; their results are inputs of the models of a pass.
  \<^item> \<open>treestate.rs\<close>: appends to frontiers of another crate; the scan has them as the operation \<open>so_absorb\<close>.
  \<^item> \<open>reconcile.rs\<close>, \<open>migrations.rs\<close>: SQL text.  \<open>report.rs\<close>: log lines and a summary file.
  \<^item> In \<open>throttle.rs\<close> the listener and the direction to the server: socket calls.
  \<^item> \<open>oracle.rs\<close>, \<open>darkside.rs\<close>, \<open>grpc_generated\<close>, \<open>protogen\<close>: a comparison of two databases, test drivers and
    generated code.
  \<^item> \<open>cli/src/main.rs\<close>: argument parsing, printing and calls of the engine.
  \<^item> \<open>gpuhash\<close>, \<open>gpu_subtree.rs\<close>, \<open>batch_sinsemilla.rs\<close>, \<open>lookup_build.rs\<close>: elliptic-curve hashing on types of
    other crates.
\<close>

section \<open>The download, end to end\<close>

definition fresh_chan :: out_chan where "fresh_chan = \<lparr>sent = [], accepts = None\<rparr>"

lemma worker_script:
  assumes "worker_chunk enc adm plan (i, chunk_range plan i) 0 env (cursor_new (i, chunk_range plan i))
      fresh_chan p = (ChunkDone, cur, ch, p')"
    and "heights_ok canon" and "\<forall>a \<in> set env. honest canon (fst a)"
    and "plan_wf plan" and "i < chunk_count plan" and "plan_end plan \<le> u32_max"
  shows "chunk_script canon enc plan i (sent ch)"
proof -
  obtain s e where r: "chunk_range plan i = (s, e)" by (cases "chunk_range plan i")
  have se: "s \<le> e" "e < u64_max"
    using chunk_range_bounds [OF assms(4,5) r] assms(6) by (auto simp: u32_max_def u64_max_def)
  have "\<exists>subs. chunk_good canon enc (cursor_new (i, s, e)) fresh_chan ChunkDone cur ch subs"
    using worker_chunk_good [OF assms(1) [unfolded r] assms(2,3)] se by (simp add: cursor_new_def)
  then show ?thesis
    by (auto simp: chunk_good_def cursor_new_def fresh_chan_def chunk_script_def r)
qed

text \<open>
  C1.  The download delivers exactly the requested blocks.  Let every plan chunk be fetched to
  completion by a worker, over any number of attempts on servers that serve one chain faithfully
  but may break off, stall or refuse at any point; and let the workers' sub-chunks reach the
  release stage in any order.  Then the release succeeds, the blocks it hands to the scanner are
  the chain's blocks from the plan's first height to its last, each once and in order, and
  \<open>run_fetch\<close> reports success with their exact number.
\<close>

theorem fetch_delivers_range:
  assumes "plan_wf plan" and "plan_end plan \<le> u32_max" and "is_chain canon"
    and workers: "\<forall>i < chunk_count plan.
      worker_chunk enc (adm i) plan (i, chunk_range plan i) 0 (env i)
        (cursor_new (i, chunk_range plan i)) fresh_chan p = (ChunkDone, cur i, ch i, p' i) \<and>
      (\<forall>a \<in> set (env i). honest canon (fst a))"
    and arrive: "mset (arrivals evs) = mset (concat (map (\<lambda>i. sent (ch i)) [0..<chunk_count plan]))"
  shows "\<exists>st stats. release_ordered enc clk (release_start None q (plan_start plan) None) evs =
      (st, Inr (rl_summary st)) \<and>
    out_blocks st = map canon [plan_start plan..<Suc (plan_end plan)] \<and>
    fetch_result plan elapsed (Inr (rl_summary st)) = Inr stats \<and>
    fs_blocks stats = Suc (plan_end plan) - plan_start plan"
proof -
  let ?script = "concat (map (\<lambda>i. sent (ch i)) [0..<chunk_count plan])"
  have scripts: "\<forall>i < chunk_count plan. chunk_script canon enc plan i (sent (ch i))"
  proof (intro allI impI)
    fix i assume i: "i < chunk_count plan"
    have "heights_ok canon" using assms(3) by (simp add: is_chain_def)
    then show "chunk_script canon enc plan i (sent (ch i))"
      using workers [rule_format, OF i] assms(1,2) i by (intro worker_script) auto
  qed
  have "distinct ?script" using plan_script_keyed [OF scripts] keyed_distinct by blast
  then have "distinct (arrivals evs)" "set (arrivals evs) = set ?script"
    using mset_eq_imp_distinct_iff [OF arrive] mset_eq_setD [OF arrive] by simp_all
  from release_plan [OF assms(1-3) scripts this] obtain st where
    st: "release_ordered enc clk (release_start None q (plan_start plan) None) evs = (st, Inr (rl_summary st))"
      "out_blocks st = map canon [plan_start plan..<Suc (plan_end plan)]"
      "plans_released (rl_summary st) = chunk_count plan"
    by blast
  have "rel_inv (release_start None q (plan_start plan) None)"
    by (simp add: rel_inv_def out_ok_def out_blocks_def release_start_def cont_after_def)
  from release_ordered_inv [OF st(1) this] have "rs_blocks (rl_summary st) = length (out_blocks st)" by blast
  with st show ?thesis by (auto simp: fetch_result_def simp del: upt_Suc)
qed

text \<open>
  A concrete download: heights 5 to 8 in two plan chunks, servers that break off after two blocks,
  and the sub-chunks arriving last chunk first.
\<close>

definition two_chunks :: fetch_plan where
  "two_chunks = demo_plan\<lparr>plan_end := 8\<rparr>"

definition two_chunks_run where
  "two_chunks_run i =
     worker_chunk (\<lambda>b. 10) (\<lambda>i n. None) two_chunks (i, chunk_range two_chunks i) 0
       (replicate 2 (flaky, Inr ())) (cursor_new (i, chunk_range two_chunks i)) fresh_chan None"

definition two_chunks_events :: "release_event list" where
  "two_chunks_events =
     map (\<lambda>s. RArrive s 0 0)
       (sent (fst (snd (snd (two_chunks_run 1)))) @ rev (sent (fst (snd (snd (two_chunks_run 0))))))"

lemma two_chunks_wf: "plan_wf two_chunks" "plan_end two_chunks \<le> u32_max" "chunk_count two_chunks = 2"
  by (simp_all add: two_chunks_def demo_plan_def plan_wf_def chunk_count_def div_ceil_def u32_max_def)

lemma two_chunks_done: "i < 2 \<Longrightarrow> fst (two_chunks_run i) = ChunkDone"
  by (cases i)
    (auto simp: two_chunks_run_def two_chunks_def chunk_range_def fresh_chan_def demo_worker_eval numeral_2_eq_2)

lemma demo_chain: "is_chain demo_block"
  by (simp add: is_chain_def heights_ok_def demo_block_def)

lemma arrivals_map: "arrivals (map (\<lambda>s. RArrive s t u) ss) = ss"
  by (induction ss) auto

theorem fetch_delivers_range_witness:
  "\<exists>st stats. release_ordered (\<lambda>b. 10) (\<lambda>n. 0) (release_start None None 5 None) two_chunks_events =
      (st, Inr (rl_summary st)) \<and>
    out_blocks st = map demo_block [5, 6, 7, 8] \<and>
    fetch_result two_chunks 1 (Inr (rl_summary st)) = Inr stats \<and> fs_blocks stats = 4"
proof -
  let ?cur = "\<lambda>i. fst (snd (two_chunks_run i))" and ?ch = "\<lambda>i. fst (snd (snd (two_chunks_run i)))"
  have "\<forall>i < chunk_count two_chunks.
      worker_chunk (\<lambda>b. 10) (\<lambda>i n. None) two_chunks (i, chunk_range two_chunks i) 0
        (replicate 2 (flaky, Inr ())) (cursor_new (i, chunk_range two_chunks i)) fresh_chan None =
        (ChunkDone, ?cur i, ?ch i, snd (snd (snd (two_chunks_run i)))) \<and>
      (\<forall>a \<in> set (replicate 2 (flaky, Inr ())). honest demo_block (fst a))"
    using two_chunks_done flaky_honest
    by (auto simp: two_chunks_wf two_chunks_run_def [symmetric] prod_eq_iff)
  moreover have "mset (arrivals two_chunks_events) =
      mset (concat (map (\<lambda>i. sent (?ch i)) [0..<chunk_count two_chunks]))"
    by (simp add: two_chunks_wf two_chunks_events_def arrivals_map upt_conv_Cons del: map_append)
  moreover have "[5..<Suc 8] = [5, 6, 7, 8 :: nat]" by (simp add: upt_conv_Cons)
  moreover have "plan_start two_chunks = 5" "plan_end two_chunks = 8"
    by (simp_all add: two_chunks_def demo_plan_def)
  ultimately show ?thesis
    using fetch_delivers_range [OF two_chunks_wf(1,2) demo_chain, of "\<lambda>b. 10" "\<lambda>i i n. None"
        "\<lambda>i. replicate 2 (flaky, Inr ())" None ?cur ?ch "\<lambda>i. snd (snd (snd (two_chunks_run i)))"
        two_chunks_events "\<lambda>n. 0" None 1]
    by simp
qed

end
